(* ===== verification/Prelude.thy ===== *)
theory Prelude
  imports Main "HOL-Library.Word" "HOL-Library.List_Lexorder" "HOL-Library.AList"
    "HOL-Library.Multiset"
begin

text \<open>
  Shared vocabulary of the development: Go's machine types and strings, the
  result type in which every error return and every run-time panic is a value,
  the fact collections the component theories fill, and generic lemmas on
  lists, association lists and words that several components use.
\<close>

unbundle bit_operations_syntax

section \<open>Machine types\<close>

text \<open>
  A Go \<open>string\<close> and a \<open>[]byte\<close> are byte sequences; strings compare bytewise,
  which is the lexicographic order of lists.  A Go \<open>int64\<close> is a 64-bit word
  read through \<open>sint\<close>.  A Go \<open>int\<close> that only holds lengths, sizes or
  positions of data in memory is a \<open>nat\<close> or an \<open>int\<close>.
\<close>

type_synonym byte = "8 word"
type_synonym u32 = "32 word"
type_synonym u64 = "64 word"
type_synonym i64 = "64 word"
type_synonym gostr = "byte list"

section \<open>Results, errors and panics\<close>

text \<open>
  \<open>Panic\<close> is a Go run-time panic; the other constructors are the error values
  the packages return.  \<open>ErrOS\<close> is an error of an operating-system call.
  \<open>Hang\<close> is the outcome of a call that never returns.
\<close>

datatype fault = SliceBounds | IndexRange | NilDeref | MakeLen | ClosedChan

datatype goerr =
    Panic fault
  | ErrOS
  | ErrTooSmall
  | ErrMagic
  | ErrCRC
  | ErrNotMapped
  | ErrExistingWAL
  | ErrRing
  | Hang

type_synonym 'a res = "goerr + 'a"

text \<open>
  Many loops of the source read a field and \<open>break\<close> when it is cut short.
  \<open>'a option res\<close> is such a read: \<open>Inl\<close> a panic, \<open>Inr None\<close> the break,
  \<open>Inr (Some x)\<close> the value.
\<close>

definition bindr :: "'a res \<Rightarrow> ('a \<Rightarrow> 'b res) \<Rightarrow> 'b res" where
  "bindr m f = (case m of Inl e \<Rightarrow> Inl e | Inr x \<Rightarrow> f x)"

definition bindo :: "'a option res \<Rightarrow> ('a \<Rightarrow> 'b option res) \<Rightarrow> 'b option res" where
  "bindo m f = (case m of Inl e \<Rightarrow> Inl e | Inr None \<Rightarrow> Inr None | Inr (Some x) \<Rightarrow> f x)"

lemma bindr_simps [simp]:
  "bindr (Inl e) f = Inl e" "bindr (Inr x) f = f x"
  by (simp_all add: bindr_def)

lemma bindo_simps [simp]:
  "bindo (Inl e) f = Inl e" "bindo (Inr None) f = Inr None" "bindo (Inr (Some x)) f = f x"
  by (simp_all add: bindo_def)

lemma bindr_cong [fundef_cong]:
  "m = m' \<Longrightarrow> (\<And>x. m' = Inr x \<Longrightarrow> f x = f' x) \<Longrightarrow> bindr m f = bindr m' f'"
  by (auto simp: bindr_def split: sum.splits)

lemma bindr_InrE [elim]:
  assumes "bindr m f = Inr y"
  obtains x where "m = Inr x" "f x = Inr y"
  using assms by (cases m) auto

lemma bindo_SomeE [elim]:
  assumes "bindo m f = Inr (Some y)"
  obtains x where "m = Inr (Some x)" "f x = Inr (Some y)"
proof (cases m)
  case (Inr r)
  then show thesis using assms that by (cases r) auto
qed (use assms in simp)

section \<open>Slices and in-place writes\<close>

text \<open>
  \<open>copy(dst[pos:], src)\<close>: as many bytes as fit; slicing past the end panics.
  \<open>Truncate(n)\<close> cuts a file or extends it with zero bytes.
\<close>

definition copy_at :: "'a list \<Rightarrow> nat \<Rightarrow> 'a list \<Rightarrow> 'a list res" where
  "copy_at dst pos src =
     (if length dst < pos then Inl (Panic SliceBounds)
      else Inr (take pos dst @ take (length dst - pos) src @ drop (pos + length src) dst))"

definition resize :: "nat \<Rightarrow> byte list \<Rightarrow> byte list" where
  "resize n bs = take n bs @ replicate (n - length bs) 0"

text \<open>\<open>buf[lo:hi]\<close> with Go's bounds check.\<close>

definition slice :: "'a list \<Rightarrow> int \<Rightarrow> int \<Rightarrow> 'a list res" where
  "slice buf lo hi =
     (if lo < 0 \<or> hi < lo \<or> int (length buf) < hi then Inl (Panic SliceBounds)
      else Inr (take (nat hi - nat lo) (drop (nat lo) buf)))"

named_theorems codec_simps \<open>decoding what an encoder wrote\<close>
named_theorems evals \<open>equations that evaluate closed terms with the simplifier\<close>
named_theorems wf_intros \<open>well-formedness of values the code builds\<close>

lemma length_resize [simp]: "length (resize n bs) = n"
  by (simp add: resize_def)

lemma resize_resize_prefix: "n \<le> m \<Longrightarrow> n \<le> length bs \<Longrightarrow> take n (resize m bs) = take n bs"
  by (simp add: resize_def min_def)

lemma resize_id [simp]: "n = length bs \<Longrightarrow> resize n bs = bs"
  by (simp add: resize_def)

lemma resize_cut: "n \<le> length bs \<Longrightarrow> resize n bs = take n bs"
  by (simp add: resize_def)

lemma resize_extend: "length bs \<le> n \<Longrightarrow> resize n bs = bs @ replicate (n - length bs) 0"
  by (simp add: resize_def)

lemma copy_at_fits:
  assumes "pos + length src \<le> length dst"
  shows "copy_at dst pos src = Inr (take pos dst @ src @ drop (pos + length src) dst)"
  using assms by (simp add: copy_at_def)

lemma copy_at_length: "copy_at dst pos src = Inr dst' \<Longrightarrow> length dst' = length dst"
  by (auto simp: copy_at_def min_def split: if_splits)

lemma copy_at_append:
  assumes "length src \<le> length post"
  shows "copy_at (pre @ post) (length pre) src = Inr (pre @ src @ drop (length src) post)"
  using assms by (simp add: copy_at_def)

lemma slice_prefix [simp]:
  "n = int (length xs) \<Longrightarrow> slice (xs @ ys) 0 n = Inr xs"
  by (simp add: slice_def)

lemma slice_mid:
  "lo = int (length xs) \<Longrightarrow> hi = int (length xs + length ys) \<Longrightarrow>
     slice (xs @ ys @ zs) lo hi = Inr ys"
  by (simp add: slice_def nat_add_distrib)

section \<open>Association lists\<close>

text \<open>
  A Go map is an association list with distinct keys; \<open>AList.update\<close> is its
  assignment.
\<close>

lemma map_of_update [simp]: "map_of (AList.update k v al) = (map_of al)(k \<mapsto> v)"
  by (simp add: update_conv')

declare AList.distinct_update [simp]

lemma sum_list_update_fresh:
  fixes g :: "'k \<times> 'v \<Rightarrow> int"
  assumes "map_of al k = None"
  shows "(\<Sum>p\<leftarrow>AList.update k v al. g p) = (\<Sum>p\<leftarrow>al. g p) + g (k, v)"
  using assms by (induction al) (auto split: if_splits)

lemma sum_list_update_present:
  fixes g :: "'k \<times> 'v \<Rightarrow> int"
  assumes "map_of al k = Some old" "distinct (map fst al)"
  shows "(\<Sum>p\<leftarrow>AList.update k v al. g p) = (\<Sum>p\<leftarrow>al. g p) - g (k, old) + g (k, v)"
  using assms by (induction al) (auto split: if_splits)

section \<open>Sorted lists of keys\<close>

abbreviation sorted_strict :: "'a::linorder list \<Rightarrow> bool" where
  "sorted_strict \<equiv> sorted_wrt (<)"

lemma sorted_strict_iff: "sorted_strict xs \<longleftrightarrow> sorted xs \<and> distinct xs"
  by (rule strict_sorted_iff)

lemma sorted_strict_append:
  "sorted_strict (xs @ ys) \<longleftrightarrow>
     sorted_strict xs \<and> sorted_strict ys \<and> (\<forall>x\<in>set xs. \<forall>y\<in>set ys. x < y)"
  by (simp add: sorted_wrt_append)

lemma map_of_sorted_gt:
  fixes k :: "'k::linorder"
  assumes "\<forall>p\<in>set al. k < fst p"
  shows "map_of al k = None"
  using assms by (auto simp: map_of_eq_None_iff)

section \<open>Lengths and positions as 64-bit words\<close>

lemma sint_of_small: "0 \<le> i \<Longrightarrow> i < 2 ^ 63 \<Longrightarrow> sint (word_of_int i :: u64) = i"
  by (simp add: signed_of_int signed_take_bit_int_eq_self)

lemma sint_of_nat_small:
  assumes "n < 2 ^ 63"
  shows "sint (of_nat n :: u64) = int n"
proof -
  have "sint (word_of_int (int n) :: u64) = int n"
    using assms by (intro sint_of_small) auto
  then show ?thesis by simp
qed

lemma uint_of_nat_small:
  assumes "n < 2 ^ 63"
  shows "uint (of_nat n :: u64) = int n"
proof -
  have "take_bit 64 n = n" using assms by (intro take_bit_nat_eq_self) simp
  then have "unat (of_nat n :: u64) = n" by (simp add: unsigned_of_nat)
  then show ?thesis by (metis uint_nat)
qed

lemma unat_of_nat_small: "n < 2 ^ 63 \<Longrightarrow> unat (of_nat n :: u64) = n"
  using uint_of_nat_small [of n] by (simp add: unat_eq_nat_uint)

end
