(* ===== verification/MemTable.thy ===== *)
theory MemTable
  imports Prelude
begin

text \<open>
  \<open>internal/memtable/entry.go\<close>: the entry type shared by every package and the
  in-memory table of the newest writes.  A \<open>MemTable\<close> is a Go map (an
  association list with distinct keys), the byte count the flush decision
  reads, and a cache of the sorted keys with its dirty flag.  The locale
  \<open>write_buffer\<close> is the contract the LSM engine relies on.
\<close>

section \<open>State\<close>

record entry =
  e_key :: gostr
  e_val :: gostr
  e_ts :: i64
  e_tomb :: bool

record memtable =
  mt_m :: "(gostr \<times> entry) list"
  mt_keys :: "gostr list option"
  mt_size :: int
  mt_dirty :: bool

definition mt_New :: memtable where
  "mt_New = \<lparr>mt_m = [], mt_keys = None, mt_size = 0, mt_dirty = False\<rparr>"

definition zero_entry :: entry where
  "zero_entry = \<lparr>e_key = [], e_val = [], e_ts = 0, e_tomb = False\<rparr>"

section \<open>Operations\<close>

definition mt_Put :: "memtable \<Rightarrow> gostr \<Rightarrow> gostr \<Rightarrow> i64 \<Rightarrow> memtable" where
  "mt_Put m key val ts =
     (let newSize = int (length key + length val + 16);
          m1 = (case map_of (mt_m m) key of
                  Some old \<Rightarrow> m\<lparr>mt_size := mt_size m - int (length key + length (e_val old) + 16)\<rparr>
                | None \<Rightarrow> m\<lparr>mt_dirty := True\<rparr>)
      in m1\<lparr>mt_m := AList.update key \<lparr>e_key = key, e_val = val, e_ts = ts, e_tomb = False\<rparr> (mt_m m1),
            mt_size := mt_size m1 + newSize\<rparr>)"

definition mt_Delete :: "memtable \<Rightarrow> gostr \<Rightarrow> i64 \<Rightarrow> memtable" where
  "mt_Delete m key ts =
     (let m1 = (case map_of (mt_m m) key of
                  Some old \<Rightarrow> m\<lparr>mt_size := mt_size m - int (length key + length (e_val old) + 16)\<rparr>
                | None \<Rightarrow> m\<lparr>mt_dirty := True\<rparr>)
      in m1\<lparr>mt_m := AList.update key \<lparr>e_key = key, e_val = [], e_ts = ts, e_tomb = True\<rparr> (mt_m m1),
            mt_size := mt_size m1 + int (length key + 16)\<rparr>)"

definition mt_Get :: "memtable \<Rightarrow> gostr \<Rightarrow> entry option" where
  "mt_Get m key = map_of (mt_m m) key"

text \<open>
  \<open>Entries\<close> refreshes the cached sorted keys when the map gained a key, then
  reads the map at each of them (a missing key would read the zero entry).
\<close>

definition mt_Entries :: "memtable \<Rightarrow> memtable \<times> entry list" where
  "mt_Entries m =
     (let m1 = (if mt_dirty m \<or> mt_keys m = None
                then m\<lparr>mt_keys := Some (sort (map fst (mt_m m))), mt_dirty := False\<rparr> else m);
          keys = (case mt_keys m1 of Some ks \<Rightarrow> ks | None \<Rightarrow> [])
      in (m1, map (\<lambda>k. case map_of (mt_m m1) k of Some e \<Rightarrow> e | None \<Rightarrow> zero_entry) keys))"

definition mt_Size :: "memtable \<Rightarrow> int" where
  "mt_Size m = mt_size m"

definition mt_Count :: "memtable \<Rightarrow> nat" where
  "mt_Count m = length (mt_m m)"

section \<open>Invariant\<close>

definition entry_cost :: "entry \<Rightarrow> int" where
  "entry_cost e = int (length (e_key e) + length (e_val e) + 16)"

text \<open>
  The map is keyed by the entries' own keys, tombstones carry no value, the
  byte count is the sum over the live map, and a clean cache is the sorted
  key list.
\<close>

definition mt_wf :: "memtable \<Rightarrow> bool" where
  "mt_wf m \<longleftrightarrow> distinct (map fst (mt_m m))
     \<and> (\<forall>(k, e) \<in> set (mt_m m). e_key e = k \<and> (e_tomb e \<longrightarrow> e_val e = []))
     \<and> mt_size m = (\<Sum>p\<leftarrow>mt_m m. entry_cost (snd p))
     \<and> (\<forall>ks. mt_keys m = Some ks \<longrightarrow> \<not> mt_dirty m \<longrightarrow> ks = sort (map fst (mt_m m)))"

lemma mt_wf_New [simp, wf_intros]: "mt_wf mt_New"
  by (simp add: mt_wf_def mt_New_def)

lemma mt_wf_key: "mt_wf m \<Longrightarrow> map_of (mt_m m) k = Some e \<Longrightarrow> e_key e = k"
  by (auto simp: mt_wf_def dest: map_of_SomeD)

text \<open>Both writes store one entry and adjust the byte count by it.\<close>

definition mt_store :: "memtable \<Rightarrow> entry \<Rightarrow> memtable" where
  "mt_store m e =
     (let m1 = (case map_of (mt_m m) (e_key e) of
                  Some old \<Rightarrow> m\<lparr>mt_size := mt_size m - int (length (e_key e) + length (e_val old) + 16)\<rparr>
                | None \<Rightarrow> m\<lparr>mt_dirty := True\<rparr>)
      in m1\<lparr>mt_m := AList.update (e_key e) e (mt_m m1), mt_size := mt_size m1 + entry_cost e\<rparr>)"

lemma mt_Put_store: "mt_Put m k v t = mt_store m \<lparr>e_key = k, e_val = v, e_ts = t, e_tomb = False\<rparr>"
  by (simp add: mt_Put_def mt_store_def entry_cost_def Let_def split: option.splits)

lemma mt_Delete_store: "mt_Delete m k t = mt_store m \<lparr>e_key = k, e_val = [], e_ts = t, e_tomb = True\<rparr>"
  by (simp add: mt_Delete_def mt_store_def entry_cost_def Let_def split: option.splits)

lemma mt_m_store: "mt_m (mt_store m e) = AList.update (e_key e) e (mt_m m)"
  by (simp add: mt_store_def Let_def split: option.splits)

lemma set_update_subset: "set (AList.update k v al) \<subseteq> insert (k, v) (set al)"
  by (induction al) (auto split: if_splits)

lemma map_fst_update_present:
  "k \<in> fst ` set al \<Longrightarrow> map fst (AList.update k v al) = map fst al"
  by (induction al) (auto split: if_splits)

lemma mt_wf_store:
  assumes wf: "mt_wf m" and e: "e_tomb e \<longrightarrow> e_val e = []"
  shows "mt_wf (mt_store m e)"
proof -
  have pairs: "\<forall>(k, x) \<in> set (mt_m (mt_store m e)). e_key x = k \<and> (e_tomb x \<longrightarrow> e_val x = [])"
    using wf e set_update_subset [of "e_key e" e "mt_m m"] by (auto simp: mt_wf_def mt_m_store)
  have dist: "distinct (map fst (mt_m (mt_store m e)))"
    using wf by (simp add: mt_wf_def mt_m_store)
  show ?thesis
  proof (cases "map_of (mt_m m) (e_key e)")
    case None
    then have "mt_size (mt_store m e) = (\<Sum>p\<leftarrow>mt_m (mt_store m e). entry_cost (snd p))"
      using wf by (simp add: mt_store_def mt_wf_def sum_list_update_fresh)
    with None pairs dist show ?thesis by (simp add: mt_wf_def mt_store_def)
  next
    case (Some old)
    have "entry_cost old = int (length (e_key e) + length (e_val old) + 16)"
      using mt_wf_key [OF wf Some] by (simp add: entry_cost_def)
    then have "mt_size (mt_store m e) = (\<Sum>p\<leftarrow>mt_m (mt_store m e). entry_cost (snd p))"
      using wf Some by (simp add: mt_store_def mt_wf_def sum_list_update_present)
    moreover have "map fst (mt_m (mt_store m e)) = map fst (mt_m m)"
      unfolding mt_m_store by (rule map_fst_update_present) (use Some in \<open>force dest: map_of_SomeD\<close>)
    moreover have "mt_keys (mt_store m e) = mt_keys m" "mt_dirty (mt_store m e) = mt_dirty m"
      using Some by (simp_all add: mt_store_def)
    ultimately show ?thesis using wf pairs dist by (simp add: mt_wf_def)
  qed
qed

lemma mt_wf_Put [simp, wf_intros]: "mt_wf m \<Longrightarrow> mt_wf (mt_Put m k v t)"
  by (simp add: mt_Put_store mt_wf_store)

lemma mt_wf_Delete [simp, wf_intros]: "mt_wf m \<Longrightarrow> mt_wf (mt_Delete m k t)"
  by (simp add: mt_Delete_store mt_wf_store)

lemma mt_Get_New [simp]: "mt_Get mt_New k = None"
  by (simp add: mt_Get_def mt_New_def)

lemma mt_Get_Put [simp]:
  "mt_Get (mt_Put m k v t) = (mt_Get m)(k \<mapsto> \<lparr>e_key = k, e_val = v, e_ts = t, e_tomb = False\<rparr>)"
  by (simp add: mt_Get_def mt_Put_store mt_m_store fun_eq_iff)

lemma mt_Get_Delete [simp]:
  "mt_Get (mt_Delete m k t) = (mt_Get m)(k \<mapsto> \<lparr>e_key = k, e_val = [], e_ts = t, e_tomb = True\<rparr>)"
  by (simp add: mt_Get_def mt_Delete_store mt_m_store fun_eq_iff)

text \<open>\<open>Entries\<close> returns the map's entries in key order, from the cache or not.\<close>

lemma mt_Entries_eq:
  assumes "mt_wf m"
  shows "snd (mt_Entries m) = map (\<lambda>k. the (mt_Get m k)) (sort (map fst (mt_m m)))"
proof -
  have hit: "(case map_of (mt_m m) k of Some e \<Rightarrow> e | None \<Rightarrow> zero_entry) = the (mt_Get m k)"
    if "k \<in> set (map fst (mt_m m))" for k
    using that by (auto simp: mt_Get_def map_of_eq_None_iff split: option.splits)
  have read: "map (\<lambda>k. case map_of (mt_m m) k of Some e \<Rightarrow> e | None \<Rightarrow> zero_entry) (sort (map fst (mt_m m)))
      = map (\<lambda>k. the (mt_Get m k)) (sort (map fst (mt_m m)))"
    using hit by (intro map_cong) simp_all
  show ?thesis
  proof (cases "mt_dirty m \<or> mt_keys m = None")
    case False
    then obtain ks where "mt_keys m = Some ks" by blast
    with False assms have "mt_keys m = Some (sort (map fst (mt_m m)))" by (simp add: mt_wf_def)
    with False read show ?thesis by (simp add: mt_Entries_def)
  qed (use read in \<open>simp add: mt_Entries_def Let_def\<close>)
qed

lemma mt_wf_Entries: "mt_wf m \<Longrightarrow> mt_wf (fst (mt_Entries m))"
  by (auto simp: mt_Entries_def mt_wf_def Let_def)

lemma mt_Get_Entries [simp]: "mt_Get (fst (mt_Entries m)) = mt_Get m"
  by (auto simp: mt_Entries_def mt_Get_def Let_def)

lemma mt_Entries_keys:
  assumes "mt_wf m"
  shows "map e_key (snd (mt_Entries m)) = sort (map fst (mt_m m))"
proof -
  have "map (e_key \<circ> (\<lambda>k. the (mt_Get m k))) (sort (map fst (mt_m m))) = map id (sort (map fst (mt_m m)))"
    using mt_wf_key [OF assms] by (intro map_cong) (auto simp: mt_Get_def map_of_eq_None_iff)
  then show ?thesis by (simp add: mt_Entries_eq [OF assms])
qed

lemma mt_Entries_sorted: "mt_wf m \<Longrightarrow> sorted_strict (map e_key (snd (mt_Entries m)))"
  by (simp add: mt_Entries_keys sorted_strict_iff mt_wf_def)

lemma mt_Entries_set:
  assumes "mt_wf m"
  shows "e \<in> set (snd (mt_Entries m)) \<longleftrightarrow> mt_Get m (e_key e) = Some e"
proof
  assume "e \<in> set (snd (mt_Entries m))"
  then obtain k where k: "k \<in> fst ` set (mt_m m)" "e = the (mt_Get m k)"
    by (auto simp: mt_Entries_eq [OF assms])
  then obtain x where "mt_Get m k = Some x" by (auto simp: mt_Get_def dest!: weak_map_of_SomeI)
  then show "mt_Get m (e_key e) = Some e"
    using k mt_wf_key [OF assms] by (auto simp: mt_Get_def)
next
  assume *: "mt_Get m (e_key e) = Some e"
  then have "e_key e \<in> fst ` set (mt_m m)" by (force simp: mt_Get_def dest: map_of_SomeD)
  with * show "e \<in> set (snd (mt_Entries m))"
    by (force simp: mt_Entries_eq [OF assms])
qed

section \<open>The write-buffer contract\<close>

text \<open>
  What the engine assumes of its in-memory table.  \<open>stored e\<close> is what a write
  of \<open>e\<close> leaves: a delete drops the value.
\<close>

definition stored :: "entry \<Rightarrow> entry" where
  "stored e = (if e_tomb e then e\<lparr>e_val := []\<rparr> else e)"

lemma e_key_stored [simp]: "e_key (stored e) = e_key e"
  by (simp add: stored_def)

text \<open>The last write to a key in a sequence of writes.\<close>

definition last_write :: "entry list \<Rightarrow> gostr \<Rightarrow> entry option" where
  "last_write es k = find (\<lambda>e. e_key e = k) (rev es)"

lemma find_append: "find P (xs @ ys) = (case find P xs of Some x \<Rightarrow> Some x | None \<Rightarrow> find P ys)"
  by (induction xs) auto

lemma last_write_Nil [simp]: "last_write [] k = None"
  by (simp add: last_write_def)

lemma last_write_snoc:
  "last_write (es @ [e]) k = (if e_key e = k then Some e else last_write es k)"
  by (simp add: last_write_def)

lemma last_write_append:
  "last_write (xs @ ys) k = (case last_write ys k of Some e \<Rightarrow> Some e | None \<Rightarrow> last_write xs k)"
  by (simp only: last_write_def find_append rev_append)

locale write_buffer =
  fixes inv :: "'m \<Rightarrow> bool"
    and get :: "'m \<Rightarrow> gostr \<Rightarrow> entry option"
    and put :: "'m \<Rightarrow> gostr \<Rightarrow> gostr \<Rightarrow> i64 \<Rightarrow> 'm"
    and del :: "'m \<Rightarrow> gostr \<Rightarrow> i64 \<Rightarrow> 'm"
  assumes inv_put: "inv m \<Longrightarrow> inv (put m k v t)"
    and inv_del: "inv m \<Longrightarrow> inv (del m k t)"
    and get_put: "get (put m k v t) = (get m)(k \<mapsto> \<lparr>e_key = k, e_val = v, e_ts = t, e_tomb = False\<rparr>)"
    and get_del: "get (del m k t) = (get m)(k \<mapsto> \<lparr>e_key = k, e_val = [], e_ts = t, e_tomb = True\<rparr>)"
begin

lemma inv_writes:
  "inv m \<Longrightarrow> inv (foldl (\<lambda>m e. if e_tomb e then del m (e_key e) (e_ts e)
      else put m (e_key e) (e_val e) (e_ts e)) m es)"
  by (induction es arbitrary: m) (auto intro: inv_put inv_del)

text \<open>Replaying writes in order leaves the last one per key.\<close>

lemma get_writes:
  "get (foldl (\<lambda>m e. if e_tomb e then del m (e_key e) (e_ts e)
      else put m (e_key e) (e_val e) (e_ts e)) m es) k
   = (case last_write es k of Some e \<Rightarrow> Some (stored e) | None \<Rightarrow> get m k)"
proof (induction es rule: rev_induct)
  case (snoc e es)
  have "e\<lparr>e_val := []\<rparr> = \<lparr>e_key = e_key e, e_val = [], e_ts = e_ts e, e_tomb = True\<rparr>" if "e_tomb e"
    using that by (cases e) simp
  moreover have "e = \<lparr>e_key = e_key e, e_val = e_val e, e_ts = e_ts e, e_tomb = False\<rparr>" if "\<not> e_tomb e"
    using that by (cases e) simp
  ultimately show ?case
    using snoc by (auto simp: get_put get_del last_write_snoc stored_def)
qed simp

end

interpretation mt: write_buffer mt_wf mt_Get mt_Put mt_Delete
  by unfold_locales simp_all

end
