(* ===== verification/Varint.thy ===== *)
theory Varint
  imports Prelude
begin

text \<open>
  The part of Go's \<open>encoding/binary\<close> the packages call: unsigned and zig-zag
  varints (\<open>AppendUvarint\<close>, \<open>PutUvarint\<close>, \<open>Uvarint\<close>, \<open>AppendVarint\<close>,
  \<open>PutVarint\<close>, \<open>Varint\<close>) and little-endian 32- and 64-bit words.  The decoders
  keep Go's result convention: the value and the number of bytes read, which is
  0 when the buffer is too small and negative on overflow.
\<close>

section \<open>Encoders\<close>

lemma unat_drop7: "unat (drop_bit 7 (x :: u64)) = unat x div 128"
  by (subst unat_drop_bit_eq) (simp add: drop_bit_eq_div)

function put_uvarint :: "u64 \<Rightarrow> byte list" where
  "put_uvarint x =
     (if x < 0x80 then [ucast x] else (ucast x OR 0x80) # put_uvarint (drop_bit 7 x))"
  by pat_completeness auto
termination
proof (relation "measure unat")
  fix x :: u64
  assume "\<not> x < 0x80"
  then have "128 \<le> unat x" by (simp add: word_less_nat_alt)
  then show "(drop_bit 7 x, x) \<in> measure unat"
    by (simp add: unat_drop7)
qed simp

declare put_uvarint.simps [simp del]

definition zigzag :: "i64 \<Rightarrow> u64" where
  "zigzag x = (if x <s 0 then NOT (push_bit 1 x) else push_bit 1 x)"

definition unzigzag :: "u64 \<Rightarrow> i64" where
  "unzigzag ux = (if ux AND 1 \<noteq> 0 then NOT (drop_bit 1 ux) else drop_bit 1 ux)"

definition put_varint :: "i64 \<Rightarrow> byte list" where
  "put_varint x = put_uvarint (zigzag x)"

definition put_u32 :: "u32 \<Rightarrow> byte list" where
  "put_u32 x = [ucast x, ucast (drop_bit 8 x), ucast (drop_bit 16 x), ucast (drop_bit 24 x)]"

definition put_u64 :: "u64 \<Rightarrow> byte list" where
  "put_u64 x = map (\<lambda>i. ucast (drop_bit (8 * i) x)) [0..<8]"

section \<open>Decoders\<close>

fun uvarint_loop :: "byte list \<Rightarrow> nat \<Rightarrow> u64 \<Rightarrow> nat \<Rightarrow> u64 \<times> int" where
  "uvarint_loop [] i x s = (0, 0)"
| "uvarint_loop (b # bs) i x s =
     (if i = 10 then (0, - (int i + 1))
      else if b < 0x80 then
        (if i = 9 \<and> b > 1 then (0, - (int i + 1)) else (x OR push_bit s (ucast b), int i + 1))
      else uvarint_loop bs (i + 1) (x OR push_bit s (ucast (b AND 0x7f))) (s + 7))"

definition uvarint :: "byte list \<Rightarrow> u64 \<times> int" where
  "uvarint buf = uvarint_loop buf 0 0 0"

definition varint :: "byte list \<Rightarrow> i64 \<times> int" where
  "varint buf = (case uvarint buf of (ux, n) \<Rightarrow> (unzigzag ux, n))"

text \<open>\<open>Uint32\<close> and \<open>Uint64\<close> read a fixed number of bytes and panic on a shorter slice.\<close>

definition get_u32 :: "byte list \<Rightarrow> u32 res" where
  "get_u32 b =
     (if length b < 4 then Inl (Panic IndexRange)
      else Inr (ucast (b ! 0) OR push_bit 8 (ucast (b ! 1))
             OR push_bit 16 (ucast (b ! 2)) OR push_bit 24 (ucast (b ! 3))))"

definition get_u64 :: "byte list \<Rightarrow> u64 res" where
  "get_u64 b =
     (if length b < 8 then Inl (Panic IndexRange)
      else Inr (foldr (\<lambda>i acc. push_bit (8 * i) (ucast (b ! i)) OR acc) [0..<8] 0))"

section \<open>Lengths\<close>

lemma put_uvarint_length_le: "unat x < 2 ^ (7 * Suc k) \<Longrightarrow> length (put_uvarint x) \<le> Suc k"
proof (induction x arbitrary: k rule: put_uvarint.induct)
  case (1 x)
  show ?case
  proof (cases "x < 0x80")
    case True
    then show ?thesis by (simp add: put_uvarint.simps [of x])
  next
    case False
    with 1 obtain k' where k: "k = Suc k'"
      by (cases k) (auto simp: word_less_nat_alt)
    have "unat (drop_bit 7 x) < 2 ^ (7 * Suc k')"
      using "1.prems" k
      by (simp add: unat_drop7 less_mult_imp_div_less power_add)
    from "1.IH" [OF False this] show ?thesis
      using False k by (simp add: put_uvarint.simps [of x])
  qed
qed

lemma put_uvarint_length: "length (put_uvarint x) \<le> 10"
proof -
  have "unat x < 2 ^ 64" using unsigned_less [of x] by simp
  then have "unat x < 2 ^ (7 * Suc 9)" by (rule less_le_trans) simp
  then show ?thesis by (rule order_trans [OF put_uvarint_length_le]) simp
qed

lemma put_uvarint_nonempty [simp]: "put_uvarint x \<noteq> []"
  by (subst put_uvarint.simps) simp

lemma put_uvarint_length_pos [simp]: "0 < length (put_uvarint x)"
  by simp

lemma put_varint_nonempty [simp]: "put_varint x \<noteq> []"
  by (simp add: put_varint_def)

lemma length_put_u32 [simp]: "length (put_u32 x) = 4"
  by (simp add: put_u32_def)

lemma length_put_u64 [simp]: "length (put_u64 x) = 8"
  by (simp add: put_u64_def)

text \<open>What a decoder reports having read it has read.\<close>

lemma uvarint_loop_count:
  "uvarint_loop bs i x s = (v, n) \<Longrightarrow> 0 < n \<Longrightarrow> int i < n \<and> n \<le> int i + int (length bs)"
proof (induction bs i x s rule: uvarint_loop.induct)
  case (2 b bs i x s)
  then show ?case by (fastforce split: if_splits)
qed simp

lemma uvarint_count: "uvarint bs = (v, n) \<Longrightarrow> 0 < n \<Longrightarrow> n \<le> int (length bs)"
  using uvarint_loop_count [of bs 0 0 0 v n] by (simp add: uvarint_def)

lemma varint_count: "varint bs = (v, n) \<Longrightarrow> 0 < n \<Longrightarrow> n \<le> int (length bs)"
  by (auto simp: varint_def split: prod.splits dest: uvarint_count)

lemma uvarint_Nil [simp]: "uvarint [] = (0, 0)"
  by (simp add: uvarint_def)

section \<open>Round trips\<close>

lemma high_byte: "\<not> (ucast (y :: u64) OR 0x80 :: byte) < 0x80"
  by (simp add: not_less le_word_or1)

lemma low_seven: "ucast ((ucast (y :: u64) OR 0x80 :: byte) AND 0x7f) = y AND mask 7"
proof (rule bit_word_eqI)
  fix n
  assume "n < LENGTH(64)"
  have m: "(0x7f :: byte) = mask 7" by (simp add: mask_eq_exp_minus_1)
  have h: "bit (128 :: int) k \<longleftrightarrow> k = 7" for k
    using bit_push_bit_iff [of 7 "1 :: int" k] by (auto simp: bit_1_iff)
  show "bit (ucast ((ucast y OR 0x80 :: byte) AND 0x7f) :: u64) n = bit (y AND mask 7) n"
    unfolding m by (auto simp: bit_simps h)
qed

lemma join_seven:
  fixes x y :: u64
  shows "(x OR push_bit s (y AND mask 7)) OR push_bit (s + 7) (drop_bit 7 y) = x OR push_bit s y"
proof (rule bit_word_eqI)
  fix n
  show "bit ((x OR push_bit s (y AND mask 7)) OR push_bit (s + 7) (drop_bit 7 y)) n
      = bit (x OR push_bit s y) n"
    by (cases "n < s + 7") (auto simp: bit_simps)
qed

lemma ucast_small:
  fixes y :: u64
  assumes "y < 0x80"
  shows "(ucast y :: byte) < 0x80" "ucast (ucast y :: byte) = y" "unat (ucast y :: byte) = unat y"
proof -
  have y: "unat y < 128" using assms by (simp add: word_less_nat_alt)
  show u: "unat (ucast y :: byte) = unat y"
    using y by (subst unsigned_ucast_eq) (simp add: take_bit_nat_eq_self)
  show "(ucast y :: byte) < 0x80" using u y by (simp add: word_less_nat_alt)
  show "ucast (ucast y :: byte) = y"
    using u y by (intro word_unat_eq_iff [THEN iffD2], subst unsigned_ucast_eq)
      (simp add: take_bit_nat_eq_self)
qed

lemma uvarint_loop_put:
  assumes "i \<le> 9" "unat y < 2 ^ (64 - 7 * i)"
  shows "uvarint_loop (put_uvarint y @ rest) i x (7 * i)
       = (x OR push_bit (7 * i) y, int i + int (length (put_uvarint y)))"
  using assms
proof (induction y arbitrary: i x rule: put_uvarint.induct)
  case (1 y)
  show ?case
  proof (cases "y < 0x80")
    case True
    have "\<not> (i = 9 \<and> (ucast y :: byte) > 1)"
      using "1.prems" ucast_small(3) [OF True] by (auto simp: word_less_nat_alt)
    with True "1.prems"(1) show ?thesis
      by (simp add: put_uvarint.simps [of y] ucast_small)
  next
    case False
    have y: "128 \<le> unat y" using False by (simp add: word_less_nat_alt)
    have i: "i \<le> 8"
    proof (rule ccontr)
      assume "\<not> i \<le> 8"
      with "1.prems" have "unat y < 2 ^ 1" by (cases "i = 9") auto
      with y show False by simp
    qed
    have "unat (drop_bit 7 y) < 2 ^ (64 - 7 * Suc i)"
    proof -
      have "2 ^ (64 - 7 * i) = (2 :: nat) ^ (64 - 7 * Suc i) * 128"
      proof -
        have "64 - 7 * i = (64 - 7 * Suc i) + 7" using i by simp
        then show ?thesis by (simp only: power_add) simp
      qed
      with "1.prems"(2) show ?thesis
        by (simp add: unat_drop7 less_mult_imp_div_less)
    qed
    from "1.IH" [OF False _ this, of "x OR push_bit (7 * i) (y AND mask 7)"] i
    have "uvarint_loop (put_uvarint (drop_bit 7 y) @ rest) (Suc i)
            (x OR push_bit (7 * i) (y AND mask 7)) (7 * i + 7)
        = (x OR push_bit (7 * i) y, int i + 1 + int (length (put_uvarint (drop_bit 7 y))))"
      using join_seven [of x "7 * i" y] by (simp add: add.commute)
    then show ?thesis
      using False i high_byte [of y] by (simp add: put_uvarint.simps [of y] low_seven)
  qed
qed

lemma uvarint_put [simp, codec_simps]:
  "uvarint (put_uvarint y @ rest) = (y, int (length (put_uvarint y)))"
proof -
  have "unat y < 2 ^ (64 - 7 * 0)" using unsigned_less [of y] by simp
  from uvarint_loop_put [OF _ this, of rest 0] show ?thesis by (simp add: uvarint_def)
qed

lemma bit_double: "bit (x * 2 :: u64) n \<longleftrightarrow> 0 < n \<and> n < 64 \<and> bit x (n - 1)"
proof -
  have "bit (push_bit 1 x) n \<longleftrightarrow> 0 < n \<and> n < 64 \<and> bit x (n - 1)"
    by (subst bit_push_bit_iff) (auto simp: possible_bit_def)
  then show ?thesis by simp
qed

lemma word_and_one: "(ux :: u64) AND 1 \<noteq> 0 \<longleftrightarrow> bit ux 0"
  by (simp add: and_one_eq bit_0 odd_iff_mod_2_eq_one)

lemma unzigzag_zigzag [simp, codec_simps]: "unzigzag (zigzag x) = x"
proof (rule bit_word_eqI)
  fix n
  assume n: "n < LENGTH(64)"
  have sgn: "x <s 0 \<longleftrightarrow> bit x 63"
    using bit_last_iff [of x] by (simp add: word_sless_alt)
  have top: "n = 63 \<or> Suc n < 64" using n by auto
  show "bit (unzigzag (zigzag x)) n = bit x n"
    unfolding unzigzag_def zigzag_def word_and_one sgn
    using top by (auto simp: bit_not_iff bit_drop_bit_eq bit_double)
qed

lemma varint_put [simp, codec_simps]:
  "varint (put_varint y @ rest) = (y, int (length (put_varint y)))"
  by (simp add: varint_def put_varint_def)

lemma get_put_u32 [simp, codec_simps]: "get_u32 (put_u32 x @ rest) = Inr x"
proof -
  have "ucast (ucast x :: byte) OR push_bit 8 (ucast (ucast (drop_bit 8 x) :: byte))
      OR push_bit 16 (ucast (ucast (drop_bit 16 x) :: byte))
      OR push_bit 24 (ucast (ucast (drop_bit 24 x) :: byte)) = x" (is "?l = x")
  proof (rule bit_word_eqI)
    fix n
    assume "n < LENGTH(32)"
    then have "n < 8 \<or> (8 \<le> n \<and> n < 16) \<or> (16 \<le> n \<and> n < 24) \<or> (24 \<le> n \<and> n < 32)" by auto
    then show "bit ?l n = bit x n" by (auto simp: bit_simps)
  qed
  then show ?thesis by (simp add: get_u32_def put_u32_def)
qed

lemma upt_8: "[0..<8] = [0, 1, 2, 3, 4, 5, 6, 7]"
  by (simp add: upt_rec)

lemma get_put_u64 [simp, codec_simps]: "get_u64 (put_u64 x @ rest) = Inr x"
proof -
  have "foldr (\<lambda>i acc. push_bit (8 * i) (ucast ((put_u64 x @ rest) ! i)) OR acc) [0..<8] 0 = x"
    (is "?l = x")
  proof (rule bit_word_eqI)
    fix n
    assume n: "n < LENGTH(64)"
    have "?l = ucast (ucast x :: byte) OR push_bit 8 (ucast (ucast (drop_bit 8 x) :: byte))
      OR push_bit 16 (ucast (ucast (drop_bit 16 x) :: byte))
      OR push_bit 24 (ucast (ucast (drop_bit 24 x) :: byte))
      OR push_bit 32 (ucast (ucast (drop_bit 32 x) :: byte))
      OR push_bit 40 (ucast (ucast (drop_bit 40 x) :: byte))
      OR push_bit 48 (ucast (ucast (drop_bit 48 x) :: byte))
      OR push_bit 56 (ucast (ucast (drop_bit 56 x) :: byte))" (is "_ = ?r")
      by (simp add: put_u64_def upt_8 nth_append)
    moreover from n have "n < 8 \<or> (8 \<le> n \<and> n < 16) \<or> (16 \<le> n \<and> n < 24) \<or> (24 \<le> n \<and> n < 32)
      \<or> (32 \<le> n \<and> n < 40) \<or> (40 \<le> n \<and> n < 48) \<or> (48 \<le> n \<and> n < 56) \<or> (56 \<le> n \<and> n < 64)" by auto
    then have "bit ?r n = bit x n" by (elim disjE) (auto simp: bit_simps)
    ultimately show "bit ?l n = bit x n" by simp
  qed
  then show ?thesis by (simp add: get_u64_def)
qed

section \<open>Cut encodings\<close>

text \<open>A strict prefix of an encoded varint reads as a buffer that is too small.\<close>

lemma uvarint_loop_cut:
  "m < length (put_uvarint y) \<Longrightarrow> i + m \<le> 10 \<Longrightarrow> uvarint_loop (take m (put_uvarint y)) i x s = (0, 0)"
proof (induction y arbitrary: m i x s rule: put_uvarint.induct)
  case (1 y)
  show ?case
  proof (cases "y < 0x80 \<or> m = 0")
    case True
    then show ?thesis using "1.prems" by (auto simp: put_uvarint.simps [of y])
  next
    case False
    then obtain m' where m: "m = Suc m'" by (cases m) auto
    have "uvarint_loop (take m' (put_uvarint (drop_bit 7 y))) (i + 1) x' s' = (0, 0)" for x' s'
      using "1.IH" [of m' "i + 1" x' s'] False "1.prems" m by (simp add: put_uvarint.simps [of y])
    then show ?thesis
      using False m high_byte [of y] "1.prems" by (simp add: put_uvarint.simps [of y])
  qed
qed

lemma uvarint_cut [codec_simps]: "m < length (put_uvarint y) \<Longrightarrow> uvarint (take m (put_uvarint y)) = (0, 0)"
  using put_uvarint_length [of y] by (simp add: uvarint_def uvarint_loop_cut)

lemma varint_cut [codec_simps]: "m < length (put_varint y) \<Longrightarrow> snd (varint (take m (put_varint y))) = 0"
  by (simp add: varint_def put_varint_def uvarint_cut)

end
