(* ===== verification/Checksum.thy ===== *)
theory Checksum
  imports Prelude
begin

text \<open>
  The two hash functions of Go's standard library the packages use:
  \<open>hash/crc32\<close> with the IEEE polynomial (\<open>ChecksumIEEE\<close>, \<open>Update\<close>) and
  \<open>hash/fnv\<close>'s 64-bit FNV-1a.
\<close>

section \<open>CRC-32 (IEEE, reflected)\<close>

definition crc_shift :: "u32 \<Rightarrow> u32" where
  "crc_shift c = (if c AND 1 = 1 then drop_bit 1 c XOR 0xEDB88320 else drop_bit 1 c)"

text \<open>The entry of Go's lookup table for one byte.\<close>

definition crc_table :: "byte \<Rightarrow> u32" where
  "crc_table i = (crc_shift ^^ 8) (ucast i)"

definition crc_byte :: "u32 \<Rightarrow> byte \<Rightarrow> u32" where
  "crc_byte c v = crc_table (ucast c XOR v) XOR drop_bit 8 c"

definition crc32_update :: "u32 \<Rightarrow> byte list \<Rightarrow> u32" where
  "crc32_update crc p = NOT (foldl crc_byte (NOT crc) p)"

definition crc32 :: "byte list \<Rightarrow> u32" where
  "crc32 p = crc32_update 0 p"

text \<open>\<open>Update\<close> is incremental: feeding two pieces is feeding their concatenation.\<close>

lemma crc32_update_append:
  "crc32_update (crc32_update c p) q = crc32_update c (p @ q)"
  by (simp add: crc32_update_def)

lemma crc32_update_Nil [simp]: "crc32_update c [] = c"
  by (simp add: crc32_update_def)

lemma crc32_Nil [simp]: "crc32 [] = 0"
  by (simp add: crc32_def)

lemma crc32_append: "crc32 (p @ q) = crc32_update (crc32 p) q"
  by (simp add: crc32_def crc32_update_append)

text \<open>For evaluation: the eight shifts of a table entry written out.\<close>

lemma crc_table_eq [evals]:
  "crc_table i =
     crc_shift (crc_shift (crc_shift (crc_shift
       (crc_shift (crc_shift (crc_shift (crc_shift (ucast i))))))))"
  by (simp add: crc_table_def numeral_eq_Suc)

lemma not_u32: "NOT (c :: u32) = 0xFFFFFFFF XOR c"
proof -
  have "(0xFFFFFFFF :: u32) = -1" by simp
  then show ?thesis by (simp only: xor.commute [of "-1"] bit.xor_one_right)
qed

lemma crc32_update_eq [evals]:
  "crc32_update crc p = 0xFFFFFFFF XOR foldl crc_byte (0xFFFFFFFF XOR crc) p"
  by (simp only: crc32_update_def not_u32)

declare crc_shift_def [evals] crc_byte_def [evals] crc32_def [evals]

text \<open>The check value every CRC-32/IEEE implementation has for \<open>123456789\<close>.\<close>

lemma crc32_check: "crc32 [49, 50, 51, 52, 53, 54, 55, 56, 57] = 0xCBF43926"
  by (simp add: evals)

section \<open>FNV-1a, 64 bit\<close>

definition fnv_offset :: u64 where "fnv_offset = 14695981039346656037"
definition fnv_prime :: u64 where "fnv_prime = 1099511628211"

definition fnv_write :: "u64 \<Rightarrow> byte list \<Rightarrow> u64" where
  "fnv_write h p = foldl (\<lambda>h b. (h XOR ucast b) * fnv_prime) h p"

lemma fnv_write_append: "fnv_write h (p @ q) = fnv_write (fnv_write h p) q"
  by (simp add: fnv_write_def)

declare fnv_write_def [evals] fnv_offset_def [evals] fnv_prime_def [evals]

text \<open>A published test vector: FNV-1a of \<open>a\<close>.\<close>

lemma fnv_check: "fnv_write fnv_offset [97] = 0xaf63dc4c8601ec8c"
  by (simp add: evals)

end
