(* ===== verification/EntryCodec.thy ===== *)
theory EntryCodec
  imports MemTable Varint Checksum
begin

text \<open>
  The byte form of an entry that the log and the table files share: the two
  length-prefixed strings, the zig-zag timestamp and the tombstone byte, with
  the readers of \<open>internal/sstable/sstable.go\<close> and \<open>internal/wal/wal.go\<close> for
  these fields.
\<close>

section \<open>Writing\<close>

definition bool_byte :: "bool \<Rightarrow> byte" where
  "bool_byte b = (if b then 1 else 0)"

text \<open>The fields \<open>Append\<close> gathers in its scratch buffer, then the record with its checksum.\<close>

definition entry_fields :: "entry \<Rightarrow> byte list" where
  "entry_fields e =
     put_uvarint (of_nat (length (e_key e))) @ e_key e
     @ put_uvarint (of_nat (length (e_val e))) @ e_val e
     @ put_varint (e_ts e) @ [bool_byte (e_tomb e)]"

section \<open>Reading\<close>

text \<open>
  A length-prefixed string: stop when the length is cut short or exceeds what
  is left.  A length that is negative as \<open>int\<close> passes that test and the slice
  expression panics.
\<close>

definition read_str :: "byte list \<Rightarrow> (gostr \<times> byte list) option res" where
  "read_str buf =
     (case uvarint buf of (len, n) \<Rightarrow>
        if n \<le> 0 \<or> int (length buf) - n < sint len then Inr None
        else if sint len < 0 then Inl (Panic SliceBounds)
        else (let r = drop (nat n) buf; k = nat (sint len) in Inr (Some (take k r, drop k r))))"

definition read_ts :: "byte list \<Rightarrow> (i64 \<times> byte list) option res" where
  "read_ts buf =
     (case varint buf of (ts, n) \<Rightarrow> if n \<le> 0 then Inr None else Inr (Some (ts, drop (nat n) buf)))"

section \<open>Reading what was written\<close>

definition entry_fits :: "entry \<Rightarrow> bool" where
  "entry_fits e \<longleftrightarrow> length (e_key e) < 2 ^ 63 \<and> length (e_val e) < 2 ^ 63"

lemma read_str_put [simp, codec_simps]:
  assumes "length s < 2 ^ 63"
  shows "read_str (put_uvarint (of_nat (length s)) @ s @ rest) = Inr (Some (s, rest))"
  using sint_of_nat_small [OF assms] by (simp add: read_str_def)

lemma read_ts_put [simp, codec_simps]: "read_ts (put_varint t @ rest) = Inr (Some (t, rest))"
  by (simp add: read_ts_def)

lemma entry_fields_nonempty [simp]: "entry_fields e \<noteq> []"
  by (simp add: entry_fields_def)

text \<open>A successful read leaves a shorter rest.\<close>

lemma read_str_shrinks:
  assumes "read_str buf = Inr (Some (s, r))"
  shows "length r < length buf"
proof -
  obtain v n where vn: "uvarint buf = (v, n)" by fastforce
  with assms have n: "0 < n" and "sint v \<le> int (length buf) - n"
      and r: "r = drop (nat (sint v)) (drop (nat n) buf)"
    by (auto simp: read_str_def Let_def split: if_splits)
  with uvarint_count [OF vn] show ?thesis by simp
qed

lemma read_ts_shrinks: "read_ts buf = Inr (Some (t, r)) \<Longrightarrow> length r \<le> length buf"
  by (auto simp: read_ts_def split: prod.splits if_splits)

section \<open>Reading an encoding that is cut short\<close>

text \<open>Readers in sequence stop in the part that is cut.\<close>

lemma bindo_cut:
  assumes m: "m < length (a @ b)"
    and whole: "\<And>r. p (a @ r) = Inr (Some (x, r))"
    and cut: "\<And>m. m < length a \<Longrightarrow> p (take m a) = Inr None"
    and rest: "\<And>m. m < length b \<Longrightarrow> q x (take m b) = Inr None"
  shows "bindo (p (take m (a @ b))) (\<lambda>(x, r). q x r) = Inr None"
proof (cases "m < length a")
  case True
  then show ?thesis using cut by simp
next
  case False
  with m have "m - length a < length b" by simp
  with rest False whole show ?thesis by simp
qed

lemma read_str_cut:
  assumes "length s < 2 ^ 63" "m < length (put_uvarint (of_nat (length s)) @ s)"
  shows "read_str (take m (put_uvarint (of_nat (length s)) @ s)) = Inr None"
proof (cases "m < length (put_uvarint (of_nat (length s)))")
  case True
  then show ?thesis by (simp add: read_str_def uvarint_cut)
next
  case False
  define h where "h = length (put_uvarint (of_nat (length s) :: u64))"
  have "m - h < length s" using assms(2) False by (simp add: h_def)
  moreover have "take m (put_uvarint (of_nat (length s)) @ s)
      = put_uvarint (of_nat (length s)) @ take (m - h) s"
    using False by (simp add: h_def)
  ultimately show ?thesis
    using sint_of_nat_small [OF assms(1)] by (simp add: read_str_def h_def)
qed

lemma read_ts_cut: "m < length (put_varint t) \<Longrightarrow> read_ts (take m (put_varint t)) = Inr None"
  using varint_cut [of m t] by (auto simp: read_ts_def split: prod.splits)

end
