(* ===== verification/GoSort.thy ===== *)
theory GoSort
  imports Prelude
begin

text \<open>
  Go's \<open>sort\<close> package as the program uses it: \<open>sort.Search\<close> (binary search for
  the first index where a predicate holds).  \<open>sort.Strings\<close> is \<open>List.sort\<close>, the
  only sorted permutation of a list of strings; \<open>sort.Slice\<close> by a key is
  \<open>sort_key\<close>, used on keys without duplicates.
\<close>

function search_loop :: "(nat \<Rightarrow> bool) \<Rightarrow> nat \<Rightarrow> nat \<Rightarrow> nat" where
  "search_loop f i j =
     (if i < j then
        (let h = (i + j) div 2 in
         if \<not> f h then search_loop f (h + 1) j else search_loop f i h)
      else i)"
  by pat_completeness auto
termination
  by (relation "measure (\<lambda>(f, i, j). j - i)") auto

declare search_loop.simps [simp del]

definition sort_Search :: "nat \<Rightarrow> (nat \<Rightarrow> bool) \<Rightarrow> nat" where
  "sort_Search n f = search_loop f 0 n"

lemma search_loop_spec:
  assumes "i \<le> j" "\<And>a b. a \<le> b \<Longrightarrow> b < j \<Longrightarrow> f a \<Longrightarrow> f b" "\<And>a. a < i \<Longrightarrow> \<not> f a"
  shows "i \<le> search_loop f i j \<and> search_loop f i j \<le> j
     \<and> (\<forall>a < search_loop f i j. \<not> f a) \<and> (\<forall>b. search_loop f i j \<le> b \<longrightarrow> b < j \<longrightarrow> f b)"
  using assms
proof (induction f i j rule: search_loop.induct)
  case (1 f i j)
  show ?case
  proof (cases "i < j")
    case False
    then have "search_loop f i j = i" by (simp add: search_loop.simps [of f i j])
    then show ?thesis using "1.prems" False by auto
  next
    case True
    define h where "h = (i + j) div 2"
    have h: "i \<le> h" "h < j" using True by (auto simp: h_def)
    show ?thesis
    proof (cases "f h")
      case True
      have "i \<le> search_loop f i h \<and> search_loop f i h \<le> h
          \<and> (\<forall>a < search_loop f i h. \<not> f a) \<and> (\<forall>b. search_loop f i h \<le> b \<longrightarrow> b < h \<longrightarrow> f b)"
        using "1.prems" h True
        by (intro "1.IH" (2) [OF \<open>i < j\<close> h_def]) auto
      moreover have "f b" if "h \<le> b" "b < j" for b
        using "1.prems"(2) [OF that True] .
      moreover have "search_loop f i j = search_loop f i h"
        using True \<open>i < j\<close> by (simp add: search_loop.simps [of f i j] Let_def h_def)
      ultimately show ?thesis using h by (metis less_imp_le not_le order_trans)
    next
      case False
      have "\<not> f a" if "a < h + 1" for a
        using "1.prems"(2) [of a h] h False that by auto
      then have "h + 1 \<le> search_loop f (h + 1) j \<and> search_loop f (h + 1) j \<le> j
          \<and> (\<forall>a < search_loop f (h + 1) j. \<not> f a)
          \<and> (\<forall>b. search_loop f (h + 1) j \<le> b \<longrightarrow> b < j \<longrightarrow> f b)"
        using "1.prems" h False
        by (intro "1.IH" (1) [OF \<open>i < j\<close> h_def]) auto
      moreover have "search_loop f i j = search_loop f (h + 1) j"
        using False \<open>i < j\<close> by (simp add: search_loop.simps [of f i j] Let_def h_def)
      ultimately show ?thesis using h by auto
    qed
  qed
qed

text \<open>For a monotone predicate \<open>sort.Search\<close> finds the least index satisfying it.\<close>

text \<open>Whatever the predicate, the result is in range.\<close>

lemma search_loop_le: "i \<le> j \<Longrightarrow> search_loop f i j \<le> j"
proof (induction f i j rule: search_loop.induct)
  case (1 f i j)
  show ?case
  proof (cases "i < j")
    case True
    then show ?thesis using 1 by (subst search_loop.simps) (force simp: Let_def)
  qed (use 1 in \<open>simp add: search_loop.simps\<close>)
qed

lemma sort_Search_le: "sort_Search n f \<le> n"
  by (simp add: sort_Search_def search_loop_le)

lemma sort_Search_spec:
  assumes "\<And>a b. a \<le> b \<Longrightarrow> b < n \<Longrightarrow> f a \<Longrightarrow> f b"
  shows "sort_Search n f \<le> n"
    and "\<And>a. a < sort_Search n f \<Longrightarrow> \<not> f a"
    and "\<And>b. sort_Search n f \<le> b \<Longrightarrow> b < n \<Longrightarrow> f b"
  using search_loop_spec [of 0 n f] assms by (auto simp: sort_Search_def)

end
