(* ===== verification/SparseIndex.thy ===== *)
theory SparseIndex
  imports GoSort
begin

text \<open>
  \<open>internal/sparseindex/sparseindex.go\<close>: every \<open>step\<close>-th key of a table with
  its byte offset, and the binary search that finds where a scan must start.
\<close>

record index_entry =
  ie_key :: gostr
  ie_off :: i64

record sparse_index =
  si_entries :: "index_entry list"
  si_step :: int

definition si_New :: "int \<Rightarrow> sparse_index" where
  "si_New step = \<lparr>si_entries = [], si_step = (if step \<le> 0 then 128 else step)\<rparr>"

definition si_ShouldIndex :: "sparse_index \<Rightarrow> int \<Rightarrow> bool" where
  "si_ShouldIndex s cnt \<longleftrightarrow> 0 \<le> cnt \<and> cnt mod si_step s = 0"

definition si_Add :: "sparse_index \<Rightarrow> gostr \<Rightarrow> i64 \<Rightarrow> sparse_index" where
  "si_Add s key off = s\<lparr>si_entries := si_entries s @ [\<lparr>ie_key = key, ie_off = off\<rparr>]\<rparr>"

definition si_Lookup :: "sparse_index \<Rightarrow> gostr \<Rightarrow> i64" where
  "si_Lookup s key =
     (let es = si_entries s in
      if es = [] then 0
      else
        (let n = sort_Search (length es) (\<lambda>i. ie_key (es ! i) \<ge> key) in
         if n = length es then ie_off (es ! (length es - 1))
         else if ie_key (es ! n) = key then ie_off (es ! n)
         else if n = 0 then 0
         else ie_off (es ! (n - 1))))"

text \<open>The reference: the offset of the last indexed key not above the key, 0 if there is none.\<close>

definition floor_offset :: "index_entry list \<Rightarrow> gostr \<Rightarrow> i64" where
  "floor_offset es key =
     (case filter (\<lambda>e. ie_key e \<le> key) es of [] \<Rightarrow> 0 | x # xs \<Rightarrow> ie_off (last (x # xs)))"

lemma floor_offset_split:
  assumes "\<forall>e\<in>set xs. ie_key e \<le> key" "\<forall>e\<in>set ys. key < ie_key e"
  shows "floor_offset (xs @ ys) key = (if xs = [] then 0 else ie_off (last xs))"
proof -
  have "filter (\<lambda>e. ie_key e \<le> key) (xs @ ys) = xs"
    using assms by (auto simp: filter_id_conv filter_empty_conv not_le)
  then show ?thesis by (cases xs) (auto simp: floor_offset_def)
qed

text \<open>The positions where the binary search of a sorted index can stop.\<close>

lemma si_search:
  fixes key :: gostr
  assumes "sorted_strict (map ie_key es)"
  defines "n \<equiv> sort_Search (length es) (\<lambda>i. ie_key (es ! i) \<ge> key)"
  shows "n \<le> length es" "\<forall>e\<in>set (take n es). ie_key e < key" "\<forall>e\<in>set (drop n es). key \<le> ie_key e"
proof -
  have mono: "ie_key (es ! b) \<ge> key" if "a \<le> b" "b < length es" "ie_key (es ! a) \<ge> key" for a b
    using that assms(1) sorted_nth_mono [of "map ie_key es" a b]
    by (auto simp: sorted_strict_iff)
  note S = sort_Search_spec [of "length es" "\<lambda>i. ie_key (es ! i) \<ge> key", OF mono]
  show "n \<le> length es" using S(1) by (simp add: n_def)
  show "\<forall>e\<in>set (take n es). ie_key e < key"
    using S(2) by (auto simp: in_set_conv_nth not_le n_def)
  show "\<forall>e\<in>set (drop n es). key \<le> ie_key e"
    using S(3) by (auto simp: in_set_conv_nth n_def)
qed

lemma si_Lookup_floor:
  assumes "sorted_strict (map ie_key (si_entries s))"
  shows "si_Lookup s key = floor_offset (si_entries s) key"
proof (cases "si_entries s = []")
  case True
  then show ?thesis by (simp add: si_Lookup_def floor_offset_def)
next
  case False
  define es where "es = si_entries s"
  define n where "n = sort_Search (length es) (\<lambda>i. ie_key (es ! i) \<ge> key)"
  note S = si_search [OF assms, of key, folded es_def, folded n_def]
  have L: "si_Lookup s key =
     (if n = length es then ie_off (es ! (length es - 1))
      else if ie_key (es ! n) = key then ie_off (es ! n)
      else if n = 0 then 0 else ie_off (es ! (n - 1)))"
    using False by (simp add: si_Lookup_def Let_def es_def n_def)
  have take: "\<forall>e\<in>set (take n es). ie_key e \<le> key" using S(2) by auto
  show ?thesis
  proof (cases "n < length es \<and> ie_key (es ! n) = key")
    case True
    have sd: "sorted_strict (map ie_key (drop n es))"
      using sorted_wrt_drop [OF assms, of n] by (simp add: es_def drop_map)
    have dn: "drop n es = es ! n # drop (Suc n) es" using True by (simp add: Cons_nth_drop_Suc)
    then have gt: "\<forall>e\<in>set (drop (Suc n) es). key < ie_key e" using sd True by auto
    have "floor_offset (take (Suc n) es @ drop (Suc n) es) key = ie_off (last (take (Suc n) es))"
      using True take gt by (subst floor_offset_split) (auto simp: take_Suc_conv_app_nth)
    then have "floor_offset es key = ie_off (last (take (Suc n) es))"
      by (simp only: append_take_drop_id)
    with True L show ?thesis by (simp add: take_Suc_conv_app_nth es_def)
  next
    case miss: False
    have gt: "\<forall>e\<in>set (drop n es). key < ie_key e"
    proof
      fix e
      assume e: "e \<in> set (drop n es)"
      then have "n < length es" by (cases "n < length es") auto
      then have dn: "drop n es = es ! n # drop (Suc n) es" by (simp add: Cons_nth_drop_Suc)
      have "sorted_strict (map ie_key (drop n es))"
        using sorted_wrt_drop [OF assms, of n] by (simp add: es_def drop_map)
      moreover have "key < ie_key (es ! n)"
        using S(3) dn miss \<open>n < length es\<close> by (auto simp: order_less_le)
      ultimately show "key < ie_key e" using e dn by auto
    qed
    have F: "floor_offset es key = (if n = 0 then 0 else ie_off (es ! (n - 1)))"
      using floor_offset_split [OF take gt] S(1) False
      by (auto simp: last_conv_nth es_def min_def)
    show ?thesis
      using L F miss False S(1) by (auto simp: es_def)
  qed
qed

lemma si_step_pos: "0 < si_step (si_New n)"
  by (simp add: si_New_def)

lemma si_step_Add [simp]: "si_step (si_Add s k off) = si_step s"
  by (simp add: si_Add_def)

lemma si_entries_Add [simp]:
  "si_entries (si_Add s k off) = si_entries s @ [\<lparr>ie_key = k, ie_off = off\<rparr>]"
  by (simp add: si_Add_def)

end
