(* ===== verification/GoFloat.thy ===== *)
theory GoFloat
  imports Prelude "HOL-Library.Log_Nat"
begin

text \<open>
  The double-precision arithmetic the program uses, on the rational numbers the
  doubles denote: a result is the exact quotient, scaled to 53 bits and rounded
  to the nearest integer, ties to even.  The quotients met are in the normal
  range, so the exponent is not bounded.
\<close>

section \<open>Rounding\<close>

definition round_half_even :: "nat \<Rightarrow> nat \<Rightarrow> nat" where
  "round_half_even p q =
     (let d = p div q; r = p mod q in
      if 2 * r < q \<or> (2 * r = q \<and> even d) then d else d + 1)"

text \<open>The exponent that scales \<open>a / b\<close> to 53 bits, and the mantissa.\<close>

definition f64_scale :: "nat \<Rightarrow> nat \<Rightarrow> int" where
  "f64_scale a b =
     (let s0 = 52 - (int (floorlog 2 a) - int (floorlog 2 b))
      in if a * 2 ^ nat s0 < 2 ^ 52 * (b * 2 ^ nat (- s0)) then s0 + 1 else s0)"

definition f64_mant :: "nat \<Rightarrow> nat \<Rightarrow> nat" where
  "f64_mant a b = (let s = f64_scale a b in round_half_even (a * 2 ^ nat s) (b * 2 ^ nat (- s)))"

text \<open>\<open>math.Ceil(a / b)\<close> for positive \<open>a\<close> and \<open>b\<close>, and the double nearest to a number.\<close>

definition f64_div_ceil :: "nat \<Rightarrow> nat \<Rightarrow> nat" where
  "f64_div_ceil a b =
     (let s = f64_scale a b; r = f64_mant a b
      in if s \<le> 0 then r * 2 ^ nat (- s) else (r + 2 ^ nat s - 1) div 2 ^ nat s)"

definition f64_round :: "rat \<Rightarrow> rat" where
  "f64_round x =
     (if x = 0 then 0
      else
        (let (p, q) = quotient_of \<bar>x\<bar>; s = f64_scale (nat p) (nat q);
             m = rat_of_nat (f64_mant (nat p) (nat q))
         in sgn x * (if s \<le> 0 then m * 2 ^ nat (- s) else m / 2 ^ nat s)))"

section \<open>Accuracy\<close>

lemma round_half_even_le: "round_half_even p q \<le> p div q + 1"
  by (simp add: round_half_even_def Let_def)

lemma round_half_even_near:
  assumes "0 < q"
  shows "\<bar>rat_of_nat (round_half_even p q) - rat_of_nat p / rat_of_nat q\<bar> \<le> 1 / 2"
proof -
  have "p = p div q * q + p mod q" by simp
  then have p: "rat_of_nat p = rat_of_nat (p div q) * rat_of_nat q + rat_of_nat (p mod q)"
    by (metis of_nat_add of_nat_mult)
  have r: "rat_of_nat (p mod q) < rat_of_nat q" using assms by simp
  have "2 * (p mod q) \<le> q \<longleftrightarrow> 2 * rat_of_nat (p mod q) \<le> rat_of_nat q"
    "q \<le> 2 * (p mod q) \<longleftrightarrow> rat_of_nat q \<le> 2 * rat_of_nat (p mod q)"
    by (metis of_nat_le_iff of_nat_mult of_nat_numeral)+
  then show ?thesis using assms r unfolding round_half_even_def Let_def p
    by (auto simp: field_simps abs_le_iff)
qed

lemma f64_scale_large:
  assumes "0 < a" "0 < b"
  shows "2 ^ 52 * (b * 2 ^ nat (- f64_scale a b)) \<le> a * 2 ^ nat (f64_scale a b)"
proof -
  define m n where "m = floorlog 2 a" and "n = floorlog 2 b"
  have "2 ^ (m - 1) \<le> a" "b < 2 ^ n" "0 < m"
    using floorlog_bounds [of a 2] floorlog_bounds [of b 2] assms
    by (auto simp: m_def n_def floorlog_def)
  then have m: "2 ^ m \<le> 2 * a" by (cases m) simp_all
  define s where "s = 52 - (int m - int n)"
  have lower: "2 ^ 52 * (b * 2 ^ nat (- s)) \<le> 2 * (a * 2 ^ nat s)"
  proof -
    have exps: "52 + n + nat (- s) = m + nat s" by (simp add: s_def)
    have "2 ^ 52 * (b * 2 ^ nat (- s)) \<le> 2 ^ 52 * (2 ^ n * 2 ^ nat (- s))"
      using \<open>b < 2 ^ n\<close> by simp
    also have "\<dots> = 2 ^ (52 + n + nat (- s))" by (simp add: power_add)
    also have "\<dots> = 2 ^ m * 2 ^ nat s" unfolding exps power_add ..
    also have "\<dots> \<le> 2 * a * 2 ^ nat s" by (rule mult_le_mono1 [OF m])
    finally show ?thesis by (simp add: ac_simps)
  qed
  show ?thesis
  proof (cases "a * 2 ^ nat s < 2 ^ 52 * (b * 2 ^ nat (- s))")
    case True
    then have scale: "f64_scale a b = s + 1" by (simp add: f64_scale_def Let_def s_def m_def n_def)
    show ?thesis
    proof (cases "0 \<le> s")
      case True
      then show ?thesis using lower unfolding scale by (simp add: nat_add_distrib ac_simps)
    next
      case False
      then have "nat (- s) = Suc (nat (- (s + 1)))" by simp
      then show ?thesis using lower False unfolding scale by simp
    qed
  qed (simp add: f64_scale_def Let_def s_def m_def n_def not_less)
qed

text \<open>The relative error of a rounding is at most \<open>2 ^ -53\<close>.\<close>

lemma f64_mant_near:
  assumes "0 < a" "0 < b"
  defines "s \<equiv> f64_scale a b"
  defines "x \<equiv> rat_of_nat (a * 2 ^ nat s) / rat_of_nat (b * 2 ^ nat (- s))"
  shows "\<bar>rat_of_nat (f64_mant a b) - x\<bar> \<le> x / 2 ^ 53"
proof -
  have pos: "0 < b * 2 ^ nat (- s)" using assms(2) by simp
  have "rat_of_nat (2 ^ 52 * (b * 2 ^ nat (- s))) \<le> rat_of_nat (a * 2 ^ nat s)"
    unfolding of_nat_le_iff s_def by (rule f64_scale_large [OF assms(1,2)])
  then have "2 ^ 52 * rat_of_nat (b * 2 ^ nat (- s)) \<le> rat_of_nat (a * 2 ^ nat s)"
    by (simp only: of_nat_mult of_nat_power of_nat_numeral)
  moreover have "0 < rat_of_nat (b * 2 ^ nat (- s))" using pos by (simp only: of_nat_0_less_iff)
  ultimately have "2 ^ 52 \<le> x" unfolding x_def by (simp only: pos_le_divide_eq)
  then have "1 / 2 \<le> x / 2 ^ 53" by simp
  moreover have "\<bar>rat_of_nat (f64_mant a b) - x\<bar> \<le> 1 / 2"
    using round_half_even_near [OF pos] by (simp only: f64_mant_def Let_def x_def s_def)
  ultimately show ?thesis by linarith
qed

lemma f64_round_near: "\<bar>f64_round x - x\<bar> \<le> \<bar>x\<bar> / 2 ^ 53"
proof (cases "x = 0")
  case False
  obtain p q where pq: "quotient_of \<bar>x\<bar> = (p, q)" by (cases "quotient_of \<bar>x\<bar>")
  then have x: "\<bar>x\<bar> = of_int p / of_int q" "0 < q" by (simp_all add: quotient_of_div quotient_of_denom_pos)
  then have "0 < p" using False by (metis of_int_0 abs_eq_0 div_0 abs_ge_zero divide_nonpos_pos leI le_less of_int_0_less_iff of_int_le_0_iff order_antisym)
  define a b where "a = nat p" and "b = nat q"
  have ab: "0 < a" "0 < b" "\<bar>x\<bar> = rat_of_nat a / rat_of_nat b" using x \<open>0 < p\<close> by (simp_all add: a_def b_def)
  define s where "s = f64_scale a b"
  define m where "m = rat_of_nat (f64_mant a b)"
  define c where "c = (if s \<le> 0 then 2 ^ nat (- s) else 1 / 2 ^ nat s :: rat)"
  have c: "0 < c" by (simp add: c_def)
  have "rat_of_nat (a * 2 ^ nat s) / rat_of_nat (b * 2 ^ nat (- s)) = \<bar>x\<bar> / c"
    unfolding ab(3) c_def by simp
  then have "\<bar>m - \<bar>x\<bar> / c\<bar> \<le> \<bar>x\<bar> / c / 2 ^ 53"
    using f64_mant_near [OF ab(1,2)] unfolding s_def [symmetric] m_def [symmetric] by simp
  then have "\<bar>m - \<bar>x\<bar> / c\<bar> * c \<le> \<bar>x\<bar> / c / 2 ^ 53 * c" using c by (intro mult_right_mono) simp_all
  moreover have "(m - \<bar>x\<bar> / c) * c = m * c - \<bar>x\<bar>" using c by (simp add: left_diff_distrib)
  then have "\<bar>m - \<bar>x\<bar> / c\<bar> * c = \<bar>m * c - \<bar>x\<bar>\<bar>" using c by (metis abs_mult abs_of_pos)
  ultimately have near: "\<bar>m * c - \<bar>x\<bar>\<bar> \<le> \<bar>x\<bar> / 2 ^ 53" using c by simp
  have "f64_round x = sgn x * (m * c)"
    using False by (simp add: f64_round_def pq Let_def c_def m_def s_def a_def b_def)
  moreover have "sgn x * \<bar>x\<bar> = x" by (simp add: sgn_rat_def abs_rat_def)
  ultimately have "f64_round x - x = sgn x * (m * c - \<bar>x\<bar>)" by (simp add: right_diff_distrib)
  then have "\<bar>f64_round x - x\<bar> = \<bar>m * c - \<bar>x\<bar>\<bar>" using False by (simp add: abs_mult abs_sgn_eq)
  with near show ?thesis by simp
qed (simp add: f64_round_def)

lemma f64_round_rel: "\<exists>d. f64_round x = x * (1 + d) \<and> \<bar>d\<bar> \<le> 1 / 2 ^ 53"
proof (cases "x = 0")
  case False
  have "f64_round x = x * (1 + (f64_round x - x) / x)" using False by (simp add: field_simps)
  moreover have "\<bar>(f64_round x - x) / x\<bar> \<le> 1 / 2 ^ 53"
    using f64_round_near [of x] False by (simp only: abs_divide pos_divide_le_eq zero_less_abs_iff) simp
  ultimately show ?thesis by blast
qed (simp add: f64_round_def exI [of _ 0])

text \<open>The quotient of two rounded numbers, as a program computes it.\<close>

lemma f64_quotient_near: "\<bar>f64_round (f64_round a / f64_round b) - a / b\<bar> \<le> \<bar>a / b\<bar> / 2 ^ 50"
proof -
  define u :: rat where "u = 1 / 2 ^ 53"
  have u: "0 < u" "u \<le> 1 / 2" by (simp_all add: u_def)
  obtain c d e where r: "f64_round a = a * (1 + c)" "f64_round b = b * (1 + d)"
      "f64_round (f64_round a / f64_round b) = f64_round a / f64_round b * (1 + e)"
      and small: "\<bar>c\<bar> \<le> u" "\<bar>d\<bar> \<le> u" "\<bar>e\<bar> \<le> u"
    using f64_round_rel unfolding u_def by blast
  have d: "1 / 2 \<le> 1 + d" using small(2) u by (simp add: abs_le_iff)
  have "\<bar>c * e\<bar> \<le> u * 1" unfolding abs_mult using small u by (intro mult_mono) simp_all
  then have num: "\<bar>c + e + c * e - d\<bar> \<le> 4 * u" using small by (simp add: abs_le_iff)
  have "\<bar>(1 + c) * (1 + e) / (1 + d) - 1\<bar> = \<bar>c + e + c * e - d\<bar> / (1 + d)"
    using d by (simp add: divide_simps abs_divide) (simp add: algebra_simps)
  also have "\<dots> \<le> 4 * u / (1 / 2)" using num d u by (intro frac_le) simp_all
  finally have rel: "\<bar>(1 + c) * (1 + e) / (1 + d) - 1\<bar> \<le> 1 / 2 ^ 50" by (simp add: u_def)
  have "f64_round (f64_round a / f64_round b) - a / b = a / b * ((1 + c) * (1 + e) / (1 + d) - 1)"
    unfolding r(3) unfolding r(1,2) by (simp add: right_diff_distrib)
  then have "\<bar>f64_round (f64_round a / f64_round b) - a / b\<bar> = \<bar>a / b\<bar> * \<bar>(1 + c) * (1 + e) / (1 + d) - 1\<bar>"
    by (simp only: abs_mult)
  also have "\<dots> \<le> \<bar>a / b\<bar> * (1 / 2 ^ 50)" by (rule mult_left_mono [OF rel]) simp
  finally show ?thesis by simp
qed

section \<open>Bounds\<close>

text \<open>Rounding keeps the bounds that are whole numbers of at most 52 bits.\<close>

lemma round_half_even_bounds:
  assumes "0 < q"
  shows "p \<le> K * q \<Longrightarrow> round_half_even p q \<le> K" "K * q \<le> p \<Longrightarrow> K \<le> round_half_even p q"
proof -
  show "round_half_even p q \<le> K" if le: "p \<le> K * q"
  proof (cases "p div q < K")
    case True
    then show ?thesis using round_half_even_le [of p q] by simp
  next
    case False
    moreover have "p div q \<le> K * q div q" using le by (rule div_le_mono)
    ultimately have d: "p div q = K" using assms by simp
    have "p div q * q + p mod q = p" by simp
    then have "p mod q = 0" unfolding d using le by linarith
    then show ?thesis using d assms by (simp add: round_half_even_def)
  qed
  assume "K * q \<le> p"
  then have "K * q div q \<le> p div q" by (rule div_le_mono)
  then have "K \<le> p div q" using assms by simp
  then show "K \<le> round_half_even p q" by (simp add: round_half_even_def Let_def)
qed

lemma f64_round_pos:
  assumes "0 < x"
  obtains a b where "0 < a" "0 < b" "x = rat_of_nat a / rat_of_nat b"
    "f64_round x = (if f64_scale a b \<le> 0 then rat_of_nat (f64_mant a b) * 2 ^ nat (- f64_scale a b)
       else rat_of_nat (f64_mant a b) / 2 ^ nat (f64_scale a b))"
proof -
  obtain p q where pq: "quotient_of x = (p, q)" by (cases "quotient_of x")
  then have x: "x = of_int p / of_int q" "0 < q" by (simp_all add: quotient_of_div quotient_of_denom_pos)
  then have "0 < p" using assms by (simp add: zero_less_divide_iff)
  have r: "f64_round x = (if f64_scale (nat p) (nat q) \<le> 0
      then rat_of_nat (f64_mant (nat p) (nat q)) * 2 ^ nat (- f64_scale (nat p) (nat q))
      else rat_of_nat (f64_mant (nat p) (nat q)) / 2 ^ nat (f64_scale (nat p) (nat q)))"
    using assms by (simp add: f64_round_def pq Let_def)
  show thesis by (rule that [OF _ _ _ r]) (use \<open>0 < p\<close> x in simp_all)
qed

lemma f64_round_upper:
  assumes "x \<le> rat_of_nat k" "k \<le> 2 ^ 52"
  shows "0 \<le> x \<Longrightarrow> f64_round x \<le> rat_of_nat k"
proof (cases "x = 0")
  case False
  assume "0 \<le> x"
  then have "0 < x" using False by simp
  then obtain a b where ab: "0 < a" "0 < b" "x = rat_of_nat a / rat_of_nat b"
    and r: "f64_round x = (if f64_scale a b \<le> 0 then rat_of_nat (f64_mant a b) * 2 ^ nat (- f64_scale a b)
       else rat_of_nat (f64_mant a b) / 2 ^ nat (f64_scale a b))" by (rule f64_round_pos)
  define s where "s = f64_scale a b"
  have "rat_of_nat a \<le> rat_of_nat k * rat_of_nat b" using assms(1) ab by (simp add: pos_divide_le_eq)
  then have le: "a \<le> k * b" by (metis of_nat_le_iff of_nat_mult)
  show ?thesis
  proof (cases "0 \<le> s")
    case True
    have "a * 2 ^ nat s \<le> k * 2 ^ nat s * b" using mult_le_mono1 [OF le, of "2 ^ nat s"] by (simp add: ac_simps)
    then have "f64_mant a b \<le> k * 2 ^ nat s"
      using round_half_even_bounds(1) [OF ab(2)] True by (simp add: f64_mant_def Let_def s_def [symmetric])
    then have m: "rat_of_nat (f64_mant a b) \<le> rat_of_nat k * 2 ^ nat s"
      by (metis of_nat_le_iff of_nat_mult of_nat_numeral of_nat_power)
    then show ?thesis unfolding r s_def [symmetric] using True by (auto simp: pos_divide_le_eq)
  next
    case False
    have "2 ^ 52 * (b * 2 ^ nat (- s)) \<le> a * 2 ^ nat s" unfolding s_def by (rule f64_scale_large [OF ab(1,2)])
    also have "\<dots> \<le> k * b" using le False by simp
    also have "\<dots> \<le> 2 ^ 52 * b" using assms(2) by simp
    finally have "2 ^ nat (- s) \<le> (1 :: nat)" using ab(2) by simp
    moreover have "(2 :: nat) ^ 1 \<le> 2 ^ nat (- s)" using False by (intro power_increasing) simp_all
    ultimately show ?thesis by simp
  qed
qed (simp add: f64_round_def)

lemma f64_round_lower:
  assumes "rat_of_nat k \<le> x" "k \<le> 2 ^ 52"
  shows "rat_of_nat k \<le> f64_round x"
proof (cases "x = 0")
  case False
  then have "0 < x" using assms(1) by (metis of_nat_0_le_iff order_trans order_le_imp_less_or_eq)
  then obtain a b where ab: "0 < a" "0 < b" "x = rat_of_nat a / rat_of_nat b"
    and r: "f64_round x = (if f64_scale a b \<le> 0 then rat_of_nat (f64_mant a b) * 2 ^ nat (- f64_scale a b)
       else rat_of_nat (f64_mant a b) / 2 ^ nat (f64_scale a b))" by (rule f64_round_pos)
  define s where "s = f64_scale a b"
  have "rat_of_nat k * rat_of_nat b \<le> rat_of_nat a" using assms(1) ab by (simp add: pos_le_divide_eq)
  then have le: "k * b \<le> a" by (metis of_nat_le_iff of_nat_mult)
  show ?thesis
  proof (cases "0 \<le> s")
    case True
    have "k * 2 ^ nat s * b \<le> a * 2 ^ nat s" using mult_le_mono1 [OF le, of "2 ^ nat s"] by (simp add: ac_simps)
    then have "k * 2 ^ nat s \<le> f64_mant a b"
      using round_half_even_bounds(2) [OF ab(2)] True by (simp add: f64_mant_def Let_def s_def [symmetric])
    then have m: "rat_of_nat k * 2 ^ nat s \<le> rat_of_nat (f64_mant a b)"
      by (metis of_nat_le_iff of_nat_mult of_nat_numeral of_nat_power)
    then show ?thesis unfolding r s_def [symmetric] using True by (auto simp: pos_le_divide_eq)
  next
    case False
    have "2 ^ 52 * (b * 2 ^ nat (- s)) \<le> a * 2 ^ nat s" unfolding s_def by (rule f64_scale_large [OF ab(1,2)])
    moreover have "0 < b * 2 ^ nat (- s)" using ab(2) by simp
    ultimately have "2 ^ 52 \<le> f64_mant a b"
      using round_half_even_bounds(2) by (simp add: f64_mant_def Let_def s_def [symmetric])
    then have "k \<le> f64_mant a b" using assms(2) by simp
    then have "rat_of_nat k * 1 \<le> rat_of_nat (f64_mant a b) * 2 ^ nat (- s)"
      by (intro mult_mono) simp_all
    then show ?thesis unfolding r s_def [symmetric] using False by simp
  qed
qed (use assms in \<open>simp add: f64_round_def\<close>)

lemma f64_round_nat: "k \<le> 2 ^ 52 \<Longrightarrow> f64_round (rat_of_nat k) = rat_of_nat k"
  using f64_round_upper [of "rat_of_nat k" k] f64_round_lower [of k "rat_of_nat k"] by simp

end
