(* ===== verification/Bloom.thy ===== *)
theory Bloom
  imports Varint Checksum GoFloat
begin

text \<open>
  \<open>internal/bloom/bloom.go\<close>: the double-hashing Bloom filter of a table, its
  sizing and its byte format.  Every slice access keeps its bounds check, so a
  filter decoded from damaged bytes can panic.  The locale \<open>approx_set\<close> is the
  contract the table writer and reader rely on: no false negatives.
\<close>

section \<open>State\<close>

record bfilter =
  bf_bits :: "u64 list"
  bf_numBits :: u64
  bf_numHash :: int

definition bf_NewWithBits :: "u64 list \<Rightarrow> u64 \<Rightarrow> int \<Rightarrow> bfilter" where
  "bf_NewWithBits bits numBits numHash =
     \<lparr>bf_bits = bits, bf_numBits = numBits, bf_numHash = numHash\<rparr>"

section \<open>Sizing\<close>

definition nextPowerOf2 :: "u64 \<Rightarrow> u64" where
  "nextPowerOf2 v =
     (if v = 0 then 1
      else
        (let v = v - 1;
             v = v OR drop_bit 1 v;
             v = v OR drop_bit 2 v;
             v = v OR drop_bit 4 v;
             v = v OR drop_bit 8 v;
             v = v OR drop_bit 16 v;
             v = v OR drop_bit 32 v
         in v + 1))"

text \<open>The double nearest to 0.6931471805599453 is this mantissa times \<open>2 ^ -53\<close>.\<close>

definition ln2_mantissa :: nat where "ln2_mantissa = 6243314768165359"

definition bf_New :: "int \<Rightarrow> int \<Rightarrow> bfilter" where
  "bf_New numKeys bitsPerKey =
     (let bitsPerKey = (if bitsPerKey \<le> 0 then 10 else bitsPerKey);
          numKeys = (if numKeys \<le> 0 then 1 else numKeys);
          numBits = nextPowerOf2 (word_of_int (numKeys * bitsPerKey));
          numBits = (if numBits < 64 then 64 else numBits);
          numHash = int (f64_div_ceil (ln2_mantissa * unat numBits) (2 ^ 53 * nat numKeys));
          numHash = (if numHash < 1 then 1 else numHash)
      in \<lparr>bf_bits = replicate (unat (numBits div 64)) 0, bf_numBits = numBits, bf_numHash = numHash\<rparr>)"

section \<open>Adding and probing\<close>

definition hashKey :: "gostr \<Rightarrow> u64 \<times> u64" where
  "hashKey key = (fnv_write fnv_offset key, fnv_write (fnv_write fnv_offset [76, 83, 77]) key)"

definition bf_pos :: "bfilter \<Rightarrow> u64 \<Rightarrow> u64 \<Rightarrow> nat \<Rightarrow> u64" where
  "bf_pos f h1 delta i = (h1 + of_nat i * delta) AND (bf_numBits f - 1)"

fun bf_add_loop :: "bfilter \<Rightarrow> u64 \<Rightarrow> u64 \<Rightarrow> nat \<Rightarrow> nat \<Rightarrow> bfilter res" where
  "bf_add_loop f h1 delta i 0 = Inr f"
| "bf_add_loop f h1 delta i (Suc n) =
     (let b = bf_pos f h1 delta i; w = unat (b div 64) in
      if length (bf_bits f) \<le> w then Inl (Panic IndexRange)
      else bf_add_loop
        (f\<lparr>bf_bits := (bf_bits f)[w := bf_bits f ! w OR push_bit (unat (b mod 64)) 1]\<rparr>)
        h1 delta (Suc i) n)"

definition bf_Add :: "bfilter \<Rightarrow> gostr \<Rightarrow> bfilter res" where
  "bf_Add f key =
     (let (h1, h2) = hashKey key; delta = (if h2 = 0 then 1 else h2)
      in bf_add_loop f h1 delta 0 (nat (bf_numHash f)))"

fun bf_probe_loop :: "bfilter \<Rightarrow> u64 \<Rightarrow> u64 \<Rightarrow> nat \<Rightarrow> nat \<Rightarrow> bool res" where
  "bf_probe_loop f h1 delta i 0 = Inr True"
| "bf_probe_loop f h1 delta i (Suc n) =
     (let b = bf_pos f h1 delta i; w = unat (b div 64) in
      if length (bf_bits f) \<le> w then Inl (Panic IndexRange)
      else if bf_bits f ! w AND push_bit (unat (b mod 64)) 1 = 0 then Inr False
      else bf_probe_loop f h1 delta (Suc i) n)"

definition bf_MayContain :: "bfilter \<Rightarrow> gostr \<Rightarrow> bool res" where
  "bf_MayContain f key =
     (let (h1, h2) = hashKey key; delta = (if h2 = 0 then 1 else h2)
      in bf_probe_loop f h1 delta 0 (nat (bf_numHash f)))"

section \<open>Byte format\<close>

definition bf_Serialize :: "bfilter \<Rightarrow> byte list" where
  "bf_Serialize f =
     put_uvarint (bf_numBits f) @ put_uvarint (word_of_int (bf_numHash f))
       @ concat (map put_u64 (bf_bits f))"

text \<open>Words the input is too short for stay zero, as in the freshly made slice.\<close>

fun bf_read_words :: "nat \<Rightarrow> byte list \<Rightarrow> u64 list res" where
  "bf_read_words 0 r = Inr []"
| "bf_read_words (Suc n) r =
     (if length r < 8 then Inr (replicate (Suc n) 0)
      else bindr (get_u64 r) (\<lambda>w. bindr (bf_read_words n (drop 8 r)) (\<lambda>ws. Inr (w # ws))))"

text \<open>
  The result is a possibly nil filter.  \<open>make\<close> panics when the slice would pass
  the runtime's address-space limit of \<open>2 ^ 48\<close> bytes (64-bit platforms).
\<close>

definition bf_Deserialize :: "byte list \<Rightarrow> bfilter option res" where
  "bf_Deserialize data =
     (case uvarint data of (numBits, n) \<Rightarrow>
        if n \<le> 0 then Inr None
        else
          (case uvarint (drop (nat n) data) of (numHash, n') \<Rightarrow>
             if n' \<le> 0 then Inr None
             else if 2 ^ 48 < unat (numBits div 64) * 8 then Inl (Panic MakeLen)
             else bindr (bf_read_words (unat (numBits div 64)) (drop (nat n') (drop (nat n) data)))
               (\<lambda>bits. Inr (Some (bf_NewWithBits bits numBits (sint numHash))))))"

section \<open>Powers of two\<close>

text \<open>
  The smearing steps of \<open>nextPowerOf2\<close> turn a word into the mask of its
  highest set bit: after the step by \<open>s\<close> every set bit has filled the \<open>2 * s\<close>
  positions from it downwards.
\<close>

definition smeared :: "nat \<Rightarrow> u64 \<Rightarrow> u64 \<Rightarrow> bool" where
  "smeared s v w \<longleftrightarrow> (\<forall>i. bit w i \<longleftrightarrow> (\<exists>j < s. bit v (i + j)))"

lemma smeared_1: "smeared 1 v v"
  by (simp add: smeared_def)

lemma smeared_double: "smeared s v w \<Longrightarrow> smeared (s + s) v (w OR drop_bit s w)"
  unfolding smeared_def
proof (intro allI)
  fix i
  assume w: "\<forall>i. bit w i \<longleftrightarrow> (\<exists>j < s. bit v (i + j))"
  have "(\<exists>j < s + s. bit v (i + j)) \<longleftrightarrow> (\<exists>j < s. bit v (i + j)) \<or> (\<exists>j < s. bit v (s + i + j))"
  proof
    assume "\<exists>j < s + s. bit v (i + j)"
    then obtain j where j: "j < s + s" "bit v (i + j)" by blast
    show "(\<exists>j < s. bit v (i + j)) \<or> (\<exists>j < s. bit v (s + i + j))"
    proof (cases "j < s")
      case False
      then have "j - s < s" "s + i + (j - s) = i + j" using j by auto
      with j show ?thesis by metis
    qed (use j in blast)
  next
    assume "(\<exists>j < s. bit v (i + j)) \<or> (\<exists>j < s. bit v (s + i + j))"
    then show "\<exists>j < s + s. bit v (i + j)"
    proof
      assume "\<exists>j < s. bit v (s + i + j)"
      then obtain j where "j < s" "bit v (s + i + j)" by blast
      then have "s + j < s + s" "bit v (i + (s + j))" by (simp_all add: ac_simps)
      then show ?thesis by blast
    qed (auto intro: trans_less_add1)
  qed
  then show "bit (w OR drop_bit s w) i \<longleftrightarrow> (\<exists>j < s + s. bit v (i + j))"
    using w by (simp add: bit_simps)
qed

definition smear :: "u64 \<Rightarrow> u64" where
  "smear v =
     (let v = v OR drop_bit 1 v; v = v OR drop_bit 2 v; v = v OR drop_bit 4 v;
          v = v OR drop_bit 8 v; v = v OR drop_bit 16 v; v = v OR drop_bit 32 v in v)"

lemma bit_smear: "bit (smear v) i \<longleftrightarrow> (\<exists>j \<ge> i. bit v j)"
proof -
  define a where "a = v OR drop_bit 1 v"
  define b where "b = a OR drop_bit 2 a"
  define c where "c = b OR drop_bit 4 b"
  define d where "d = c OR drop_bit 8 c"
  define e where "e = d OR drop_bit 16 d"
  have "smeared 2 v a" using smeared_double [OF smeared_1 [of v]] by (simp add: a_def numeral_2_eq_2)
  from smeared_double [OF this] have "smeared 4 v b" by (simp add: b_def)
  from smeared_double [OF this] have "smeared 8 v c" by (simp add: c_def)
  from smeared_double [OF this] have "smeared 16 v d" by (simp add: d_def)
  from smeared_double [OF this] have "smeared 32 v e" by (simp add: e_def)
  from smeared_double [OF this] have "smeared 64 v (e OR drop_bit 32 e)" by simp
  then have *: "bit (smear v) i \<longleftrightarrow> (\<exists>j < 64. bit v (i + j))"
    by (simp only: smeared_def smear_def Let_def a_def [symmetric] b_def [symmetric]
        c_def [symmetric] d_def [symmetric] e_def [symmetric])
  have "(\<exists>j \<ge> i. bit v j) \<longleftrightarrow> (\<exists>j < 64. bit v (i + j))"
  proof
    assume "\<exists>j \<ge> i. bit v j"
    then obtain j where j: "i \<le> j" "bit v j" by blast
    then have "j < 64" using bit_imp_le_length [of v j] by simp
    with j have "j - i < 64" "bit v (i + (j - i))" by auto
    then show "\<exists>j < 64. bit v (i + j)" by blast
  qed (auto intro: le_add1)
  with * show ?thesis by simp
qed

lemma smear_mask:
  assumes "v \<noteq> 0"
  shows "\<exists>h < 64. bit v h \<and> (\<forall>j > h. \<not> bit v j) \<and> smear v = mask (Suc h)"
proof -
  have "\<exists>j. bit v j"
    using assms by (metis bit_eq_iff bit_0_eq bot_apply bot_bool_def)
  moreover have bound: "j < 64" if "bit v j" for j
    using bit_imp_le_length [OF that] by simp
  ultimately obtain h where h: "bit v h" "\<forall>j. bit v j \<longrightarrow> j \<le> h"
    using Greatest_le_nat [of "bit v" _ 64] GreatestI_nat [of "bit v" _ 64] by (meson less_imp_le)
  have "smear v = mask (Suc h)"
    by (rule bit_word_eqI) (use h bound [OF h(1)] in \<open>auto simp: bit_smear bit_mask_iff less_Suc_eq_le\<close>)
  with h bound [OF h(1)] show ?thesis by (meson not_le)
qed

lemma nextPowerOf2_smear: "v \<noteq> 0 \<Longrightarrow> nextPowerOf2 v = smear (v - 1) + 1"
  by (simp add: nextPowerOf2_def smear_def Let_def)

lemma highest_bit_bounds:
  fixes w :: u64
  assumes "bit w h" "\<forall>j > h. \<not> bit w j"
  shows "2 ^ h \<le> unat w" "unat w < 2 ^ Suc h"
proof -
  have b: "bit (unat w) h" using assms(1) by (simp add: bit_unsigned_iff)
  show "2 ^ h \<le> unat w"
  proof (rule ccontr)
    assume "\<not> 2 ^ h \<le> unat w"
    then have "take_bit h (unat w) = unat w" by (simp add: take_bit_nat_eq_self)
    with b show False by (metis bit_take_bit_iff less_irrefl)
  qed
  have "take_bit (Suc h) (unat w) = unat w"
    by (rule bit_eqI) (use assms(2) in \<open>auto simp: bit_take_bit_iff bit_unsigned_iff not_less_eq\<close>)
  then show "unat w < 2 ^ Suc h" by (metis take_bit_nat_less_exp)
qed

text \<open>The least power of two that is at least \<open>v\<close>; 0 when that would be \<open>2 ^ 64\<close>.\<close>

lemma nextPowerOf2_least:
  assumes "v \<noteq> 0"
  shows "\<exists>k \<le> 64. unat v \<le> 2 ^ k \<and> 2 ^ k < 2 * unat v
      \<and> nextPowerOf2 v = (if k = 64 then 0 else 2 ^ k)"
proof (cases "v = 1")
  case True
  then have "nextPowerOf2 v = 2 ^ 0" by (simp add: nextPowerOf2_def)
  with True show ?thesis by (intro exI [of _ 0]) simp
next
  case False
  have v: "unat (v - 1) = unat v - 1" "2 \<le> unat v"
  proof -
    have "unat v \<noteq> unat (0 :: u64)" "unat v \<noteq> unat (1 :: u64)"
      using assms False by (simp_all only: word_unat_eq_iff [symmetric] not_False_eq_True)
    then show "2 \<le> unat v" by simp
    then show "unat (v - 1) = unat v - 1"
      by (subst unat_sub) (auto simp: word_le_nat_alt)
  qed
  have "v - 1 \<noteq> 0" using False by simp
  then obtain h where h: "h < 64" "bit (v - 1) h" "\<forall>j > h. \<not> bit (v - 1) j"
      "smear (v - 1) = mask (Suc h)"
    using smear_mask by blast
  have "nextPowerOf2 v = mask (Suc h) + 1"
    using assms h by (simp add: nextPowerOf2_smear)
  also have "\<dots> = 2 ^ Suc h" by (simp add: mask_eq_exp_minus_1)
  also have "\<dots> = (if Suc h = 64 then 0 else 2 ^ Suc h)"
  proof (cases "Suc h = 64")
    case True
    have "(2 :: u64) ^ 64 = 0" by simp
    with True show ?thesis by simp
  qed simp
  finally have "nextPowerOf2 v = (if Suc h = 64 then 0 else 2 ^ Suc h)" .
  moreover have "unat v \<le> 2 ^ Suc h" "2 ^ Suc h < 2 * unat v"
    using highest_bit_bounds [OF h(2,3)] v by auto
  ultimately show ?thesis using h(1) by (intro exI [of _ "Suc h"]) auto
qed

section \<open>Well-formed filters\<close>

text \<open>
  The bit count is a power of two from 64 up, the words hold exactly that many
  bits, and there is at least one hash.
\<close>

definition bf_wf :: "bfilter \<Rightarrow> bool" where
  "bf_wf f \<longleftrightarrow> (\<exists>k. 6 \<le> k \<and> k \<le> 63 \<and> bf_numBits f = 2 ^ k \<and> length (bf_bits f) = 2 ^ (k - 6))
     \<and> 1 \<le> bf_numHash f \<and> bf_numHash f < 2 ^ 63"

lemma floorlog_shift_bound:
  assumes "0 < b" "a < 2 ^ m * b"
  shows "floorlog 2 a \<le> m + floorlog 2 b"
proof -
  have "b < 2 ^ floorlog 2 b"
    using floorlog_bounds [of b 2] assms(1) by simp
  then have "2 ^ m * b \<le> 2 ^ m * 2 ^ floorlog 2 b" by (intro mult_le_mono2) simp
  with assms(2) have "a < 2 ^ (m + floorlog 2 b)" unfolding power_add by (rule less_le_trans)
  then show ?thesis by (intro floorlog_leI) auto
qed

lemma f64_div_ceil_bound:
  assumes "0 < b" "a < 2 ^ 40 * b"
  shows "f64_div_ceil a b \<le> a div b + 2"
proof -
  define s where "s = f64_scale a b"
  define r where "r = f64_mant a b"
  have "floorlog 2 a \<le> 40 + floorlog 2 b" by (rule floorlog_shift_bound [OF assms])
  then have s: "0 < s" by (simp add: s_def f64_scale_def Let_def)
  have "r \<le> a * 2 ^ nat s div b + 1"
    using s round_half_even_le [of "a * 2 ^ nat s" b] by (simp add: r_def f64_mant_def s_def [symmetric])
  also have "a * 2 ^ nat s div b < (a div b + 1) * 2 ^ nat s"
  proof -
    have "a < (a div b + 1) * b"
      using dividend_less_div_times [OF assms(1), of a] by simp
    then have "a * 2 ^ nat s < (a div b + 1) * b * 2 ^ nat s" by simp
    then have "a * 2 ^ nat s < (a div b + 1) * 2 ^ nat s * b" by (simp only: ac_simps)
    then show ?thesis using assms(1) by (simp only: div_less_iff_less_mult)
  qed
  finally have "r \<le> (a div b + 1) * 2 ^ nat s" by simp
  moreover define t where "t = (2 :: nat) ^ nat s"
  have "0 < t" by (simp add: t_def)
  ultimately have "r + 2 ^ nat s - 1 < (a div b + 2) * 2 ^ nat s"
    by (simp add: algebra_simps flip: t_def)
  then have "(r + 2 ^ nat s - 1) div 2 ^ nat s < a div b + 2"
    by (simp add: div_less_iff_less_mult)
  moreover have "f64_div_ceil a b = (r + 2 ^ nat s - 1) div 2 ^ nat s"
    unfolding f64_div_ceil_def Let_def s_def [symmetric] r_def [symmetric]
    using s by simp
  ultimately show ?thesis by simp
qed

lemma unat_two_power:
  assumes "k \<le> 63"
  shows "unat (2 ^ k :: u64) = 2 ^ k"
proof -
  have "take_bit 64 ((2 :: nat) ^ k) = 2 ^ k"
    using assms by (intro take_bit_nat_eq_self power_strict_increasing) auto
  moreover have "(2 ^ k :: u64) = of_nat (2 ^ k)" by simp
  ultimately show ?thesis by (simp only: unsigned_of_nat) simp
qed

lemma bf_New_numBits:
  assumes "bitsPerKey \<noteq> 0"
  defines "v \<equiv> (word_of_int bitsPerKey :: u64)"
  shows "\<exists>k. 6 \<le> k \<and> k \<le> 63 \<and> (if nextPowerOf2 v < 64 then 64 else nextPowerOf2 v) = 2 ^ k
      \<and> (k = 6 \<or> 2 ^ k < 2 * unat v)"
proof (cases "nextPowerOf2 v < 64")
  case True
  then show ?thesis by (intro exI [of _ 6]) simp
next
  case False
  then have "v \<noteq> 0" by (auto simp: nextPowerOf2_def)
  then obtain k where k: "k \<le> 64" "2 ^ k < 2 * unat v"
      "nextPowerOf2 v = (if k = 64 then 0 else 2 ^ k)"
    using nextPowerOf2_least by blast
  have k64: "k \<noteq> 64" using k(3) False by auto
  have "\<not> k < 6"
  proof
    assume "k < 6"
    then have "unat (2 ^ k :: u64) < 2 ^ 6"
      using power_strict_increasing [of k 6 "2 :: nat"] by (simp add: unat_two_power)
    with False k(3) k64 show False by (simp add: word_less_nat_alt)
  qed
  with False k k64 show ?thesis by (intro exI [of _ k]) auto
qed

lemma bf_wf_New [simp, wf_intros]: "bf_wf (bf_New n 10)"
proof -
  define m where "m = (if n \<le> 0 then 1 else n)"
  define v where "v = (word_of_int (m * 10) :: u64)"
  define b where "b = (if nextPowerOf2 v < 64 then 64 else nextPowerOf2 v)"
  define h where "h = f64_div_ceil (ln2_mantissa * unat b) (2 ^ 53 * nat m)"
  have m: "0 < m" by (simp add: m_def)
  obtain k where k: "6 \<le> k" "k \<le> 63" "b = 2 ^ k" "k = 6 \<or> 2 ^ k < 2 * unat v"
    using bf_New_numBits [of "m * 10"] m unfolding b_def v_def by auto
  have "unat v \<le> 10 * nat m"
  proof -
    have "take_bit 64 (m * 10) \<le> m * 10" using m by (simp add: take_bit_int_less_eq_self_iff)
    moreover have "unat v = nat (take_bit 64 (m * 10))"
      unfolding v_def unsigned_of_int by simp
    ultimately show ?thesis by simp
  qed
  then have "2 ^ k \<le> 64 * nat m" using k m by auto
  then have b: "unat b \<le> 64 * nat m" using k by (simp add: unat_two_power)
  have "ln2_mantissa * unat b < 2 ^ 53 * (64 * nat m)"
    using b m by (intro mult_less_le_imp_less) (auto simp: ln2_mantissa_def k unat_two_power)
  also have "\<dots> = 64 * (2 ^ 53 * nat m)" by simp
  finally have a: "ln2_mantissa * unat b < 64 * (2 ^ 53 * nat m)" .
  then have "h \<le> ln2_mantissa * unat b div (2 ^ 53 * nat m) + 2"
    unfolding h_def using m by (intro f64_div_ceil_bound) auto
  also have "ln2_mantissa * unat b div (2 ^ 53 * nat m) < 64"
    using a m by (simp add: div_less_iff_less_mult)
  finally have h: "h < 66" by simp
  have F: "bf_New n 10 = \<lparr>bf_bits = replicate (unat (b div 64)) 0, bf_numBits = b,
      bf_numHash = (if int h < 1 then 1 else int h)\<rparr>"
    by (simp add: bf_New_def Let_def m_def v_def b_def h_def)
  have "unat (b div 64) = 2 ^ (k - 6)"
  proof -
    have "(2 :: nat) ^ (k - 6 + 6) = 2 ^ (k - 6) * 2 ^ 6" by (rule power_add)
    then have "(2 :: nat) ^ k = 2 ^ (k - 6) * 64" using k(1) by simp
    then show ?thesis using k by (simp add: unat_div unat_two_power)
  qed
  then show ?thesis using k h by (auto simp: F bf_wf_def)
qed

section \<open>The filter as a set of positions\<close>

text \<open>
  The abstraction: the set of positions whose bit is set, and the positions a
  key probes.  \<open>Add\<close> is a union, \<open>MayContain\<close> a subset test.
\<close>

definition bf_set :: "bfilter \<Rightarrow> nat set" where
  "bf_set f = {p. p < 64 * length (bf_bits f) \<and> bit (bf_bits f ! (p div 64)) (p mod 64)}"

definition bf_delta :: "gostr \<Rightarrow> u64" where
  "bf_delta key = (if snd (hashKey key) = 0 then 1 else snd (hashKey key))"

definition bf_positions :: "bfilter \<Rightarrow> gostr \<Rightarrow> nat set" where
  "bf_positions f key =
     (\<lambda>i. unat (bf_pos f (fst (hashKey key)) (bf_delta key) i)) ` {..<nat (bf_numHash f)}"

definition same_shape :: "bfilter \<Rightarrow> bfilter \<Rightarrow> bool" where
  "same_shape f g \<longleftrightarrow> bf_numBits f = bf_numBits g \<and> bf_numHash f = bf_numHash g
     \<and> length (bf_bits f) = length (bf_bits g)"

lemma same_shape_wf: "same_shape f g \<Longrightarrow> bf_wf f \<longleftrightarrow> bf_wf g"
  by (simp add: same_shape_def bf_wf_def)

lemma same_shape_positions: "same_shape f g \<Longrightarrow> bf_positions f = bf_positions g"
  by (simp add: same_shape_def bf_positions_def bf_pos_def fun_eq_iff)

text \<open>In a well-formed filter every probe is in range.\<close>

lemma bf_pos_range:
  assumes "bf_wf f"
  shows "unat (bf_pos f h d i) < 64 * length (bf_bits f)"
proof -
  obtain k where k: "6 \<le> k" "k \<le> 63" "bf_numBits f = 2 ^ k" "length (bf_bits f) = 2 ^ (k - 6)"
    using assms by (auto simp: bf_wf_def)
  have "bf_pos f h d i = take_bit k (h + of_nat i * d)"
    unfolding bf_pos_def k by (simp add: take_bit_eq_mask mask_eq_exp_minus_1)
  then have "unat (bf_pos f h d i) = take_bit k (unat (h + of_nat i * d))"
    by (simp only: unsigned_take_bit_eq)
  also have "\<dots> < 2 ^ k" by (rule take_bit_nat_less_exp)
  also have "(2 :: nat) ^ k = 2 ^ (k - 6 + 6)" using k(1) by simp
  also have "\<dots> = 64 * length (bf_bits f)" unfolding power_add k by simp
  finally show ?thesis .
qed

lemma unat_div64: "unat (b div 64 :: u64) = unat b div 64" "unat (b mod 64 :: u64) = unat b mod 64"
  by (simp_all add: unat_div unat_mod)

lemma bit_two_power: "bit (2 ^ m :: u64) j \<longleftrightarrow> j = m \<and> m < 64"
  by (auto simp: bit_exp_iff possible_bit_def)

lemma bit_one_shift: "m < 64 \<Longrightarrow> bit (w OR 2 ^ m :: u64) j \<longleftrightarrow> bit w j \<or> j = m"
  by (auto simp: bit_or_iff bit_two_power)

lemma and_one_shift: "m < 64 \<Longrightarrow> (w AND 2 ^ m :: u64) = 0 \<longleftrightarrow> \<not> bit w m"
proof -
  assume m: "m < 64"
  have b: "bit (w AND 2 ^ m :: u64) j \<longleftrightarrow> bit w m \<and> j = m" for j
    using m by (auto simp: bit_and_iff bit_two_power)
  show ?thesis
  proof
    assume "(w AND 2 ^ m :: u64) = 0"
    then show "\<not> bit w m" using b [of m] by auto
  next
    assume "\<not> bit w m"
    then show "(w AND 2 ^ m :: u64) = 0" using b by (intro bit_word_eqI) simp
  qed
qed

lemma div_mod_64_eq: "q div 64 = p div 64 \<Longrightarrow> q mod 64 = p mod 64 \<Longrightarrow> q = (p :: nat)"
  by (metis mult_div_mod_eq)

lemma bf_set_update:
  assumes "p < 64 * length (bf_bits f)"
  shows "bf_set (f\<lparr>bf_bits := (bf_bits f)[p div 64 := bf_bits f ! (p div 64) OR 2 ^ (p mod 64)]\<rparr>)
       = insert p (bf_set f)" (is "bf_set ?g = _")
proof (rule set_eqI)
  fix q
  have p: "p div 64 < length (bf_bits f)" using assms by (simp add: less_mult_imp_div_less mult.commute)
  show "q \<in> bf_set ?g \<longleftrightarrow> q \<in> insert p (bf_set f)"
  proof (cases "q div 64 = p div 64")
    case True
    then have "bit (bf_bits ?g ! (q div 64)) (q mod 64) \<longleftrightarrow> bit (bf_bits f ! (q div 64)) (q mod 64) \<or> q = p"
      using p div_mod_64_eq [OF True] by (auto simp: bit_one_shift)
    then show ?thesis using assms by (auto simp: bf_set_def)
  next
    case False
    then show ?thesis using p by (auto simp: bf_set_def)
  qed
qed

lemma bf_add_loop_spec:
  assumes "bf_wf f"
  shows "\<exists>f'. bf_add_loop f h d i n = Inr f' \<and> same_shape f f'
     \<and> bf_set f' = bf_set f \<union> (\<lambda>i. unat (bf_pos f h d i)) ` {i..<i + n}"
  using assms
proof (induction n arbitrary: f i)
  case (Suc n)
  define p where "p = unat (bf_pos f h d i)"
  define g where "g = f\<lparr>bf_bits := (bf_bits f)[p div 64 := bf_bits f ! (p div 64) OR 2 ^ (p mod 64)]\<rparr>"
  have p: "p < 64 * length (bf_bits f)" unfolding p_def by (rule bf_pos_range [OF Suc.prems])
  have shape: "same_shape f g" by (simp add: same_shape_def g_def)
  then have "bf_wf g" using Suc.prems by (simp add: same_shape_wf)
  from Suc.IH [OF this, of "Suc i"] obtain f' where f': "bf_add_loop g h d (Suc i) n = Inr f'"
      "same_shape g f'" "bf_set f' = bf_set g \<union> (\<lambda>i. unat (bf_pos g h d i)) ` {Suc i..<Suc i + n}"
    by blast
  have "bf_set g = insert p (bf_set f)" unfolding g_def by (rule bf_set_update [OF p])
  moreover have "bf_pos g h d = bf_pos f h d" by (simp add: bf_pos_def g_def fun_eq_iff)
  moreover have "{i..<i + Suc n} = insert i {Suc i..<Suc i + n}" by auto
  ultimately have "bf_set f' = bf_set f \<union> (\<lambda>i. unat (bf_pos f h d i)) ` {i..<i + Suc n}"
    using f'(3) p_def by auto
  moreover have "bf_add_loop f h d i (Suc n) = Inr f'"
    using f'(1) p by (simp add: Let_def unat_div64 less_mult_imp_div_less mult.commute not_le
        g_def p_def [symmetric])
  moreover have "same_shape f f'" using shape f'(2) by (simp add: same_shape_def)
  ultimately show ?case by blast
qed (simp add: same_shape_def)

lemma bf_Add_spec:
  assumes "bf_wf f"
  shows "\<exists>f'. bf_Add f key = Inr f' \<and> same_shape f f' \<and> bf_set f' = bf_set f \<union> bf_positions f key"
  using bf_add_loop_spec [OF assms, of "fst (hashKey key)" "bf_delta key" 0 "nat (bf_numHash f)"]
  by (simp add: bf_Add_def bf_positions_def bf_delta_def Let_def split_def lessThan_atLeast0)

lemma bf_probe_loop_spec:
  assumes "bf_wf f"
  shows "bf_probe_loop f h d i n = Inr ((\<lambda>i. unat (bf_pos f h d i)) ` {i..<i + n} \<subseteq> bf_set f)"
proof (induction n arbitrary: i)
  case (Suc n)
  define p where "p = unat (bf_pos f h d i)"
  have p: "p < 64 * length (bf_bits f)" unfolding p_def by (rule bf_pos_range [OF assms])
  have "{i..<i + Suc n} = insert i {Suc i..<Suc i + n}" by auto
  moreover have "bf_bits f ! (p div 64) AND 2 ^ (p mod 64) = 0 \<longleftrightarrow> p \<notin> bf_set f"
    using p by (simp add: bf_set_def and_one_shift)
  moreover have "p div 64 < length (bf_bits f)" using p by (simp add: less_mult_imp_div_less mult.commute)
  ultimately show ?case
    using Suc.IH [of "Suc i"] by (simp add: Let_def unat_div64 p_def [symmetric])
qed simp

lemma bf_MayContain_spec:
  "bf_wf f \<Longrightarrow> bf_MayContain f key = Inr (bf_positions f key \<subseteq> bf_set f)"
  using bf_probe_loop_spec [of f "fst (hashKey key)" "bf_delta key" 0 "nat (bf_numHash f)"]
  by (simp add: bf_MayContain_def bf_positions_def bf_delta_def Let_def split_def lessThan_atLeast0)

lemma bf_set_New: "bf_set (bf_New n 10) = {}"
proof -
  have "\<exists>k. bf_bits (bf_New n 10) = replicate k 0" by (auto simp: bf_New_def Let_def)
  then obtain k where "bf_bits (bf_New n 10) = replicate k 0" by blast
  then show ?thesis by (auto simp: bf_set_def less_mult_imp_div_less mult.commute)
qed

section \<open>Serialization\<close>

lemma bf_read_words_put:
  "length bs = n \<Longrightarrow> bf_read_words n (concat (map put_u64 bs) @ rest) = Inr bs"
  by (induction bs arbitrary: n) auto

lemma bf_numBits_words:
  assumes "bf_wf f"
  shows "unat (bf_numBits f div 64) = length (bf_bits f)"
proof -
  obtain k where k: "6 \<le> k" "k \<le> 63" "bf_numBits f = 2 ^ k" "length (bf_bits f) = 2 ^ (k - 6)"
    using assms by (auto simp: bf_wf_def)
  have "(2 :: nat) ^ (k - 6 + 6) = 2 ^ (k - 6) * 2 ^ 6" by (rule power_add)
  then have "(2 :: nat) ^ k = 2 ^ (k - 6) * 64" using k(1) by simp
  with k show ?thesis by (simp add: unat_div unat_two_power)
qed

lemma bf_Deserialize_Serialize:
  assumes "bf_wf f" "length (bf_bits f) * 8 \<le> 2 ^ 48"
  shows "bf_Deserialize (bf_Serialize f @ rest) = Inr (Some f)"
proof -
  have "sint (word_of_int (bf_numHash f) :: u64) = bf_numHash f"
    using assms(1) by (intro sint_of_small) (auto simp: bf_wf_def)
  then show ?thesis
    using assms(2) bf_numBits_words [OF assms(1)]
    by (simp add: bf_Deserialize_def bf_Serialize_def bf_read_words_put bf_NewWithBits_def)
qed

section \<open>The contract of an approximate set\<close>

text \<open>
  What the table writer and reader use: adding never fails, keeps the filter
  well-formed and every earlier member, and a probe for a member says yes.
\<close>

locale approx_set =
  fixes wf :: "'f \<Rightarrow> bool"
    and add :: "'f \<Rightarrow> gostr \<Rightarrow> 'f res"
    and may :: "'f \<Rightarrow> gostr \<Rightarrow> bool res"
  assumes add_total: "wf f \<Longrightarrow> \<exists>f'. add f k = Inr f' \<and> wf f' \<and> may f' k = Inr True"
    and add_keeps: "wf f \<Longrightarrow> add f k = Inr f' \<Longrightarrow> may f x = Inr True \<Longrightarrow> may f' x = Inr True"
    and may_total: "wf f \<Longrightarrow> \<exists>b. may f k = Inr b"
begin

fun add_all :: "'f \<Rightarrow> gostr list \<Rightarrow> 'f res" where
  "add_all f [] = Inr f"
| "add_all f (k # ks) = bindr (add f k) (\<lambda>f'. add_all f' ks)"

lemma add_wf: "wf f \<Longrightarrow> add f k = Inr f' \<Longrightarrow> wf f' \<and> may f' k = Inr True"
  using add_total [of f k] by auto

lemma add_all_snoc: "add_all f (ks @ [k]) = bindr (add_all f ks) (\<lambda>f'. add f' k)"
  by (induction ks arbitrary: f) (auto simp: bindr_def split: sum.splits)

text \<open>A filter built from a list of keys answers yes for each of them.\<close>

lemma add_all_members:
  "wf f \<Longrightarrow> \<exists>f'. add_all f ks = Inr f' \<and> wf f' \<and>
     (\<forall>x. x \<in> set ks \<or> may f x = Inr True \<longrightarrow> may f' x = Inr True)"
proof (induction ks arbitrary: f)
  case (Cons k ks)
  obtain g where g: "add f k = Inr g" "wf g" "may g k = Inr True"
    using add_total [OF Cons.prems] by blast
  from Cons.IH [OF g(2)] obtain f' where f': "add_all g ks = Inr f'" "wf f'"
      "\<forall>x. x \<in> set ks \<or> may g x = Inr True \<longrightarrow> may f' x = Inr True" by blast
  with g add_keeps [OF Cons.prems g(1)] show ?case by auto
qed simp

end

lemma bf_Add_total: "bf_wf f \<Longrightarrow> \<exists>f'. bf_Add f k = Inr f' \<and> bf_wf f' \<and> bf_MayContain f' k = Inr True"
proof -
  assume f: "bf_wf f"
  from bf_Add_spec [OF f, of k] obtain f' where f': "bf_Add f k = Inr f'" "same_shape f f'"
      "bf_set f' = bf_set f \<union> bf_positions f k" by blast
  then show ?thesis
    using f by (auto simp: same_shape_wf bf_MayContain_spec same_shape_positions [OF f'(2)])
qed

lemma bf_Add_keeps:
  assumes "bf_wf f" "bf_Add f k = Inr f'" "bf_MayContain f x = Inr True"
  shows "bf_MayContain f' x = Inr True"
proof -
  from bf_Add_spec [OF assms(1), of k] assms(2) have f': "same_shape f f'"
      "bf_set f' = bf_set f \<union> bf_positions f k" by auto
  then show ?thesis
    using assms(1,3) same_shape_wf [OF f'(1)] same_shape_positions [OF f'(1)]
    by (auto simp: bf_MayContain_spec)
qed

interpretation bloom: approx_set bf_wf bf_Add bf_MayContain
  by unfold_locales (auto intro: bf_Add_total bf_Add_keeps simp: bf_MayContain_spec)

end
