(* ===== verification/SSTableFormat.thy ===== *)
theory SSTableFormat
  imports EntryCodec SparseIndex Bloom
begin

text \<open>
  The byte format of a table file (\<open>internal/sstable/sstable.go\<close>): the record
  of one entry, the index block, the bloom block and the footer, with the
  parsers of the source.  A parser consumes a suffix of the file where the
  source advances a position.
\<close>

section \<open>Writing\<close>

text \<open>The record of one entry: its fields and their checksum.\<close>

definition entry_record :: "entry \<Rightarrow> byte list" where
  "entry_record e = entry_fields e @ put_u32 (crc32 (entry_fields e))"

definition data_block :: "entry list \<Rightarrow> byte list" where
  "data_block es = concat (map entry_record es)"

definition index_item :: "index_entry \<Rightarrow> byte list" where
  "index_item x = put_uvarint (of_nat (length (ie_key x))) @ ie_key x @ put_uvarint (ie_off x)"

definition index_block :: "sparse_index \<Rightarrow> byte list" where
  "index_block si =
     put_uvarint (word_of_int (si_step si)) @ put_uvarint (of_nat (length (si_entries si)))
     @ concat (map index_item (si_entries si))"

definition bloom_block :: "bfilter option \<Rightarrow> byte list" where
  "bloom_block bf = (case bf of None \<Rightarrow> put_uvarint 0 | Some f \<Rightarrow> bf_Serialize f)"

text \<open>\<open>"LSM2"\<close>, the magic of this format, and \<open>"LSM1"\<close>, that of the first one.\<close>

definition magicNumber :: "byte list" where "magicNumber = [76, 83, 77, 50]"
definition magicV1 :: "byte list" where "magicV1 = [76, 83, 77, 49]"
definition footerSize :: nat where "footerSize = 24"

definition footer :: "nat \<Rightarrow> nat \<Rightarrow> u32 \<Rightarrow> byte list" where
  "footer indexOffset bloomOffset crc =
     put_u64 (of_nat indexOffset) @ put_u64 (of_nat bloomOffset) @ put_u32 crc @ magicNumber"

section \<open>Parsing\<close>

text \<open>The tombstone byte and the four checksum bytes, which no reader checks.\<close>

definition read_tomb :: "byte list \<Rightarrow> (bool \<times> byte list) option res" where
  "read_tomb buf =
     (case buf of [] \<Rightarrow> Inr None
      | t # r \<Rightarrow> if length r < 4 then Inr None else Inr (Some (t = 1, drop 4 r)))"

text \<open>What follows the key in a record: value, timestamp, tombstone.\<close>

definition parse_rest :: "gostr \<Rightarrow> byte list \<Rightarrow> (entry \<times> byte list) option res" where
  "parse_rest key buf =
     bindo (read_str buf) (\<lambda>(val, r1).
     bindo (read_ts r1) (\<lambda>(ts, r2).
     bindo (read_tomb r2) (\<lambda>(tomb, r3).
       Inr (Some (\<lparr>e_key = key, e_val = val, e_ts = ts, e_tomb = tomb\<rparr>, r3)))))"

definition parseEntry :: "byte list \<Rightarrow> (entry \<times> byte list) option res" where
  "parseEntry buf = bindo (read_str buf) (\<lambda>(key, r). parse_rest key r)"

fun parse_index_items :: "nat \<Rightarrow> byte list \<Rightarrow> sparse_index \<Rightarrow> sparse_index res" where
  "parse_index_items 0 r si = Inr si"
| "parse_index_items (Suc c) r si =
     (case read_str r of
        Inl e \<Rightarrow> Inl e
      | Inr None \<Rightarrow> Inr si
      | Inr (Some (key, r1)) \<Rightarrow>
          (case uvarint r1 of (off, n) \<Rightarrow>
             if n \<le> 0 then Inr si
             else parse_index_items c (drop (nat n) r1) (si_Add si key off)))"

definition parseIndexBlock :: "byte list \<Rightarrow> sparse_index res" where
  "parseIndexBlock data =
     (case uvarint data of (step, n) \<Rightarrow>
        if n \<le> 0 then Inr (si_New 128)
        else
          (let r = drop (nat n) data in
           case uvarint r of (cnt, n') \<Rightarrow>
             if n' \<le> 0 then Inr (si_New (sint step))
             else parse_index_items (unat cnt) (drop (nat n') r) (si_New (sint step))))"

definition parseBloomBlock :: "byte list \<Rightarrow> int \<Rightarrow> bfilter option res" where
  "parseBloomBlock data len =
     (if len \<le> 0 then Inr None
      else bindr (slice data 0 len) (\<lambda>buf.
        if length buf = 1 \<and> buf ! 0 = 0 then Inr None else bf_Deserialize buf))"

section \<open>Parsing what was written\<close>

lemma read_tomb_put [simp, codec_simps]:
  "length crc = 4 \<Longrightarrow> read_tomb (bool_byte b # crc @ rest) = Inr (Some (b, rest))"
  by (simp add: read_tomb_def bool_byte_def)

lemma parse_rest_record:
  assumes "entry_fits e" "length crc = 4"
  shows "parse_rest (e_key e) (put_uvarint (of_nat (length (e_val e))) @ e_val e
     @ put_varint (e_ts e) @ bool_byte (e_tomb e) # crc @ rest) = Inr (Some (e, rest))"
  using assms by (simp add: parse_rest_def entry_fits_def)

lemma parseEntry_record [simp, codec_simps]:
  assumes "entry_fits e"
  shows "parseEntry (entry_record e @ rest) = Inr (Some (e, rest))"
proof -
  have "length (e_key e) < 2 ^ 63" using assms by (simp add: entry_fits_def)
  then show ?thesis
    using parse_rest_record [OF assms, of "put_u32 (crc32 (entry_fields e))" rest]
    by (simp add: parseEntry_def entry_record_def entry_fields_def)
qed

lemma entry_record_nonempty [simp]: "entry_record e \<noteq> []"
  by (simp add: entry_record_def)

lemma data_block_simps [simp]:
  "data_block [] = []" "data_block (e # es) = entry_record e @ data_block es"
  "data_block (xs @ ys) = data_block xs @ data_block ys"
  by (simp_all add: data_block_def)

text \<open>A successful parse leaves a shorter rest.\<close>

lemma read_tomb_shrinks: "read_tomb buf = Inr (Some (b, r)) \<Longrightarrow> length r \<le> length buf"
  by (auto simp: read_tomb_def split: list.splits if_splits)

lemma parse_rest_shrinks:
  assumes "parse_rest k buf = Inr (Some (e, r))"
  shows "length r < length buf"
  using assms unfolding parse_rest_def
  by (fastforce elim!: bindo_SomeE dest: read_str_shrinks read_ts_shrinks read_tomb_shrinks)

lemma parseEntry_shrinks:
  assumes "parseEntry buf = Inr (Some (e, r))"
  shows "length r < length buf"
  using assms unfolding parseEntry_def
  by (fastforce elim!: bindo_SomeE dest: read_str_shrinks parse_rest_shrinks)

section \<open>Index and bloom blocks\<close>

definition index_fits :: "sparse_index \<Rightarrow> bool" where
  "index_fits si \<longleftrightarrow> 0 < si_step si \<and> si_step si < 2 ^ 63 \<and> length (si_entries si) < 2 ^ 64
     \<and> (\<forall>x\<in>set (si_entries si). length (ie_key x) < 2 ^ 63)"

lemma parse_index_items_block:
  assumes "\<forall>x\<in>set xs. length (ie_key x) < 2 ^ 63"
  shows "parse_index_items (length xs) (concat (map index_item xs) @ rest) si
       = Inr (si\<lparr>si_entries := si_entries si @ xs\<rparr>)"
  using assms
proof (induction xs arbitrary: si)
  case (Cons x xs)
  then show ?case by (simp add: index_item_def si_Add_def)
qed simp

lemma parseIndexBlock_block:
  assumes "index_fits si"
  shows "parseIndexBlock (index_block si) = Inr si"
proof -
  have "take_bit 64 (length (si_entries si)) = length (si_entries si)"
    using assms by (intro take_bit_nat_eq_self) (simp add: index_fits_def)
  then have c: "unat (of_nat (length (si_entries si)) :: u64) = length (si_entries si)"
    by (simp add: unsigned_of_nat)
  have s: "sint (word_of_int (si_step si) :: u64) = si_step si"
    using assms by (intro sint_of_small) (auto simp: index_fits_def)
  have "si_New (si_step si) = \<lparr>si_entries = [], si_step = si_step si\<rparr>"
    using assms by (simp add: si_New_def index_fits_def)
  then show ?thesis
    using assms parse_index_items_block [of "si_entries si" "[]"] c s
    by (simp add: parseIndexBlock_def index_block_def index_fits_def)
qed

lemma bf_Serialize_length: "bf_wf f \<Longrightarrow> 10 \<le> length (bf_Serialize f)"
proof -
  assume "bf_wf f"
  then obtain k where k: "length (bf_bits f) = 2 ^ (k - 6)" by (auto simp: bf_wf_def)
  have "length (concat (map put_u64 bs)) = 8 * length bs" for bs by (induction bs) auto
  then have "8 \<le> length (concat (map put_u64 (bf_bits f)))" using k by simp
  moreover have "1 \<le> length (put_uvarint x)" for x by (simp add: Suc_leI)
  then have "1 + 1 \<le> length (put_uvarint (bf_numBits f)) + length (put_uvarint (word_of_int (bf_numHash f)))"
    by (intro add_mono)
  ultimately show ?thesis by (simp add: bf_Serialize_def)
qed

lemma parseBloomBlock_block:
  assumes "bf_wf f" "length (bf_bits f) * 8 \<le> 2 ^ 48"
  shows "parseBloomBlock (bf_Serialize f @ rest) (int (length (bf_Serialize f))) = Inr (Some f)"
  using bf_Serialize_length [OF assms(1)] bf_Deserialize_Serialize [OF assms, of "[]"]
  by (auto simp: parseBloomBlock_def)

end
