(* ===== verification/GoOS.thy ===== *)
theory GoOS
  imports Prelude
begin

text \<open>
  The operating system the engine runs on, as far as it is visible to it: a
  directory of files with their bytes, and which system calls succeed.  An
  operation takes an oracle \<open>os\<close> that answers for each call it makes; file
  names are relative to the engine's directory.
\<close>

section \<open>System calls and files\<close>

datatype oscall =
    OsMkdirAll
  | OsCreate gostr
  | OsOpen gostr
  | OsStat gostr
  | OsWrite gostr
  | OsSeek gostr
  | OsTruncate gostr nat
  | OsMmap gostr nat
  | OsMunmap gostr
  | OsSync gostr
  | OsRename gostr gostr
  | OsRemove gostr
  | OsReadDir
  | OsClose gostr

type_synonym os = "oscall \<Rightarrow> bool"

type_synonym fs = "(gostr \<times> byte list) list"

abbreviation os_ok :: os where
  "os_ok \<equiv> (\<lambda>_. True)"

definition fs_remove :: "gostr \<Rightarrow> fs \<Rightarrow> fs" where
  "fs_remove p fs = filter (\<lambda>(q, _). q \<noteq> p) fs"

lemma map_of_fs_remove [simp]:
  "map_of (fs_remove p fs) q = (if q = p then None else map_of fs q)"
  by (induction fs) (auto simp: fs_remove_def)

lemma distinct_fs_remove [simp]:
  "distinct (map fst fs) \<Longrightarrow> distinct (map fst (fs_remove p fs))"
  by (induction fs) (auto simp: fs_remove_def)

section \<open>Programs with errors over a state\<close>

text \<open>
  A step of the engine takes the state to a result and the state it left, also
  when it fails: the effects before an early return stay.
\<close>

type_synonym ('a, 's) prog = "'s \<Rightarrow> 'a res \<times> 's"

definition ret :: "'a \<Rightarrow> ('a, 's) prog" where
  "ret x s = (Inr x, s)"

definition raise :: "goerr \<Rightarrow> ('a, 's) prog" where
  "raise e s = (Inl e, s)"

definition andthen :: "('a, 's) prog \<Rightarrow> ('a \<Rightarrow> ('b, 's) prog) \<Rightarrow> ('b, 's) prog" where
  "andthen m f s = (case m s of (Inl e, s') \<Rightarrow> (Inl e, s') | (Inr x, s') \<Rightarrow> f x s')"

text \<open>A result computed from the state, the state unchanged; a change that cannot fail.\<close>

definition asks :: "('s \<Rightarrow> 'a res) \<Rightarrow> ('a, 's) prog" where
  "asks f s = (f s, s)"

definition update :: "('s \<Rightarrow> 's) \<Rightarrow> (unit, 's) prog" where
  "update f s = (Inr (), f s)"

text \<open>\<open>if err := call; err != nil { return err }\<close> for a call without other effect.\<close>

definition need :: "bool \<Rightarrow> goerr \<Rightarrow> (unit, 's) prog" where
  "need b e s = ((if b then Inr () else Inl e), s)"

lemma prog_simps [simp]:
  "andthen (ret x) f s = f x s"
  "andthen (raise e) g s = (Inl e, s)"
  "andthen (update h) f' s = f' () (h s)"
  "andthen (need b e) f'' s = (if b then f'' () s else (Inl e, s))"
  by (simp_all add: andthen_def ret_def raise_def update_def need_def)

lemma andthen_assoc [simp]: "andthen (andthen m f) g s = andthen m (\<lambda>x. andthen (f x) g) s"
  by (simp add: andthen_def split: prod.splits sum.splits)

lemma andthen_ok: "m s = (Inr x, s') \<Longrightarrow> andthen m f s = f x s'"
  by (simp add: andthen_def)

lemma andthen_err: "m s = (Inl e, s') \<Longrightarrow> andthen m f s = (Inl e, s')"
  by (simp add: andthen_def)

lemma andthen_asks [simp]:
  "andthen (asks g) f s = (case g s of Inl e \<Rightarrow> (Inl e, s) | Inr x \<Rightarrow> f x s)"
  by (simp add: andthen_def asks_def split: sum.splits)

lemma andthen_InrE:
  assumes "andthen m f s = (Inr y, t)"
  obtains x s' where "m s = (Inr x, s')" "f x s' = (Inr y, t)"
  using assms by (auto simp: andthen_def split: prod.splits sum.splits)

end
