(* ===== verification/SSTableWriter.thy ===== *)
theory SSTableWriter
  imports SSTableFormat GoOS
begin

text \<open>
  The table writer of \<open>internal/sstable/sstable.go\<close>: \<open>CreateWriter\<close>, \<open>Append\<close>
  with the growing memory mapping, and \<open>Close\<close>, which adds the index block,
  the bloom block and the footer.  The mapping is shared, so its bytes are the
  file's; they are brought into the file system by \<open>Close\<close>, since nobody opens
  the file before.  \<open>w_live\<close> is false once a failed \<open>grow\<close> has unmapped the
  old mapping without making a new one.
\<close>

definition initialMmapSize :: nat where
  "initialMmapSize = 8 * 2 ^ 20"

record writer =
  w_path :: gostr
  w_mmap :: "byte list"
  w_mmapCap :: nat
  w_live :: bool
  w_count :: nat
  w_bytePos :: nat
  w_index :: sparse_index
  w_bloom :: bfilter
  w_dataCRC :: u32

section \<open>CreateWriter\<close>

definition w_init :: "gostr \<Rightarrow> int \<Rightarrow> int \<Rightarrow> writer" where
  "w_init path expectedEntries step =
     \<lparr>w_path = path, w_mmap = replicate initialMmapSize 0, w_mmapCap = initialMmapSize,
      w_live = True, w_count = 0, w_bytePos = 0,
      w_index = si_New (if step \<le> 0 then 128 else step),
      w_bloom = bf_New expectedEntries 10, w_dataCRC = 0\<rparr>"

definition CreateWriter :: "os \<Rightarrow> gostr \<Rightarrow> int \<Rightarrow> int \<Rightarrow> (writer, fs) prog" where
  "CreateWriter os path expectedEntries step =
     andthen (need (os OsMkdirAll) ErrOS) (\<lambda>_.
     andthen (need (os (OsCreate path)) ErrOS) (\<lambda>_.
     andthen (update (AList.update path [])) (\<lambda>_.
     andthen (need (os (OsTruncate path initialMmapSize)) ErrOS) (\<lambda>_.
     andthen (update (AList.update path (replicate initialMmapSize 0))) (\<lambda>_.
     andthen (need (os (OsMmap path initialMmapSize)) ErrOS) (\<lambda>_.
     ret (w_init path expectedEntries step)))))))"

section \<open>Append\<close>

text \<open>\<open>for w.mmapCap <= target { w.mmapCap *= 2 }\<close>; the capacity is never 0.\<close>

function grow_cap :: "nat \<Rightarrow> nat \<Rightarrow> nat" where
  "grow_cap c target = (if 0 < c \<and> c \<le> target then grow_cap (c * 2) target else c)"
  by pat_completeness auto
termination
  by (relation "measure (\<lambda>(c, target). Suc target - c)") auto

declare grow_cap.simps [simp del]

definition w_grow :: "os \<Rightarrow> writer \<Rightarrow> nat \<Rightarrow> writer \<times> goerr option" where
  "w_grow os w target =
     (if \<not> os (OsMunmap (w_path w)) then (w, Some ErrOS)
      else
        (let cap = grow_cap (w_mmapCap w) target; w1 = w\<lparr>w_mmapCap := cap, w_live := False\<rparr> in
         if \<not> os (OsTruncate (w_path w) cap) then (w1, Some ErrOS)
         else if \<not> os (OsMmap (w_path w) cap) then (w1\<lparr>w_mmap := []\<rparr>, Some ErrOS)
         else (w1\<lparr>w_mmap := resize cap (w_mmap w), w_live := True\<rparr>, None)))"

text \<open>The part of \<open>Append\<close> after the mapping has room for the record.\<close>

definition w_store :: "writer \<Rightarrow> entry \<Rightarrow> byte list \<Rightarrow> writer \<times> goerr option" where
  "w_store w e scratch =
     (case copy_at (w_mmap w) (w_bytePos w) scratch of
        Inl err \<Rightarrow> (w, Some err)
      | Inr mm \<Rightarrow>
          (let w1 = w\<lparr>w_mmap := mm, w_dataCRC := crc32_update (w_dataCRC w) scratch,
                      w_bytePos := w_bytePos w + length scratch, w_count := w_count w + 1\<rparr> in
           case bf_Add (w_bloom w1) (e_key e) of
             Inl err \<Rightarrow> (w1, Some err)
           | Inr bf \<Rightarrow>
               (let w2 = w1\<lparr>w_bloom := bf\<rparr> in
                if si_ShouldIndex (w_index w2) (int (w_count w2) - 1)
                then (w2\<lparr>w_index := si_Add (w_index w2) (e_key e)
                        (of_nat (w_bytePos w2 - length scratch))\<rparr>, None)
                else (w2, None))))"

definition w_Append :: "os \<Rightarrow> writer \<Rightarrow> entry \<Rightarrow> writer \<times> goerr option" where
  "w_Append os w e =
     (let scratch = entry_record e; target = w_bytePos w + length scratch in
      if w_mmapCap w < target then
        (case w_grow os w target of
           (w1, Some err) \<Rightarrow> (w1, Some err)
         | (w1, None) \<Rightarrow> w_store w1 e scratch)
      else w_store w e scratch)"

section \<open>Close\<close>

definition w_file :: "writer \<Rightarrow> (byte list \<times> nat) res" where
  "w_file w =
     (let indexBuf = index_block (w_index w); bloomBuf = bloom_block (Some (w_bloom w));
          p0 = w_bytePos w; p1 = p0 + length indexBuf; p2 = p1 + length bloomBuf in
      bindr (copy_at (w_mmap w) p0 indexBuf) (\<lambda>m1.
      bindr (copy_at m1 p1 bloomBuf) (\<lambda>m2.
      bindr (copy_at m2 p2 (footer p0 p1 (w_dataCRC w))) (\<lambda>m3.
        Inr (m3, p2 + footerSize)))))"

text \<open>Writing through a mapping that is gone is a fault of the process.\<close>

definition w_Close :: "os \<Rightarrow> writer \<Rightarrow> (writer, fs) prog" where
  "w_Close os w =
     andthen (need (w_live w \<or> w_mmap w = []) (Panic NilDeref)) (\<lambda>_.
     andthen (asks (\<lambda>_. w_file w)) (\<lambda>(mm, pos).
     andthen (update (AList.update (w_path w) mm)) (\<lambda>_.
     andthen (need (os (OsTruncate (w_path w) pos)) ErrOS) (\<lambda>_.
     andthen (update (AList.update (w_path w) (resize pos mm))) (\<lambda>_.
     andthen (need (os (OsSync (w_path w))) ErrOS) (\<lambda>_.
     ret (w\<lparr>w_mmap := mm, w_bytePos := pos\<rparr>)))))))"

definition w_Info :: "writer \<Rightarrow> nat" where
  "w_Info w = w_bytePos w"

text \<open>Appending a list of entries, stopping at the first error.\<close>

fun w_append_all :: "os \<Rightarrow> writer \<Rightarrow> entry list \<Rightarrow> writer \<times> goerr option" where
  "w_append_all os w [] = (w, None)"
| "w_append_all os w (e # es) =
     (case w_Append os w e of
        (w1, Some err) \<Rightarrow> (w1, Some err)
      | (w1, None) \<Rightarrow> w_append_all os w1 es)"

text \<open>
  How both callers append: an error closes the writer, whose own error is
  dropped, and is returned.  A panic passes through.
\<close>

definition append_or_close :: "os \<Rightarrow> writer \<Rightarrow> entry \<Rightarrow> (writer, fs) prog" where
  "append_or_close os w e fs =
     (case w_Append os w e of
        (w1, None) \<Rightarrow> (Inr w1, fs)
      | (w1, Some (Panic f)) \<Rightarrow> (Inl (Panic f), fs)
      | (w1, Some err) \<Rightarrow>
          (case w_Close os w1 fs of
             (Inl (Panic f), fs1) \<Rightarrow> (Inl (Panic f), fs1)
           | (_, fs1) \<Rightarrow> (Inl err, fs1)))"

section \<open>What a table file holds\<close>

text \<open>The sparse index of a list of entries: every \<open>step\<close>-th key with its offset.\<close>

fun index_from :: "int \<Rightarrow> nat \<Rightarrow> nat \<Rightarrow> entry list \<Rightarrow> index_entry list" where
  "index_from step i off [] = []"
| "index_from step i off (e # es) =
     (if int i mod step = 0 then [\<lparr>ie_key = e_key e, ie_off = of_nat off\<rparr>] else [])
     @ index_from step (Suc i) (off + length (entry_record e)) es"

lemma index_from_snoc:
  "index_from step i off (es @ [e]) = index_from step i off es
     @ (if int (i + length es) mod step = 0
        then [\<lparr>ie_key = e_key e, ie_off = of_nat (off + length (data_block es))\<rparr>] else [])"
  by (induction es arbitrary: i off) (simp_all add: add.assoc algebra_simps)

definition table_file :: "int \<Rightarrow> bfilter \<Rightarrow> entry list \<Rightarrow> byte list" where
  "table_file step bf es =
     (let data = data_block es;
          idx = index_block \<lparr>si_entries = index_from step 0 0 es, si_step = step\<rparr>
      in data @ idx @ bloom_block (Some bf)
         @ footer (length data) (length data + length idx) (crc32 data))"

section \<open>The writer's invariant\<close>

text \<open>
  After appending \<open>es\<close> the mapping starts with the data block of \<open>es\<close>, and the
  counters, the running checksum, the index and the filter are those of \<open>es\<close>.
\<close>

definition w_inv :: "int \<Rightarrow> int \<Rightarrow> writer \<Rightarrow> entry list \<Rightarrow> bool" where
  "w_inv n step w es \<longleftrightarrow>
     w_live w \<and> 0 < step \<and> length (w_mmap w) = w_mmapCap w \<and> initialMmapSize \<le> w_mmapCap w
     \<and> w_count w = length es \<and> w_bytePos w = length (data_block es) \<and> w_bytePos w \<le> w_mmapCap w
     \<and> take (length (data_block es)) (w_mmap w) = data_block es
     \<and> w_dataCRC w = crc32 (data_block es)
     \<and> w_index w = \<lparr>si_entries = index_from step 0 0 es, si_step = step\<rparr>
     \<and> bloom.add_all (bf_New n 10) (map e_key es) = Inr (w_bloom w)"

lemma initialMmapSize_pos [simp]: "0 < initialMmapSize"
  by (simp add: initialMmapSize_def)

lemma w_inv_init:
  "w_inv n (if step \<le> 0 then 128 else step) (w_init path n step) []"
  by (simp add: w_inv_def w_init_def si_New_def)

lemma grow_cap_gt: "0 < c \<Longrightarrow> target < grow_cap c target"
proof (induction c target rule: grow_cap.induct)
  case (1 c target)
  then show ?case by (subst grow_cap.simps) auto
qed

lemma grow_cap_ge: "c \<le> grow_cap c target"
proof (induction c target rule: grow_cap.induct)
  case (1 c target)
  then show ?case by (subst grow_cap.simps) auto
qed

lemma w_store_inv:
  assumes inv: "w_inv n step w es"
    and room: "w_bytePos w + length (entry_record e) \<le> w_mmapCap w"
  shows "\<exists>w'. w_store w e (entry_record e) = (w', None) \<and> w_inv n step w' (es @ [e])
     \<and> w_path w' = w_path w \<and> w_mmapCap w' = w_mmapCap w"
proof -
  define mm where "mm = take (w_bytePos w) (w_mmap w) @ entry_record e
      @ drop (w_bytePos w + length (entry_record e)) (w_mmap w)"
  have cp: "copy_at (w_mmap w) (w_bytePos w) (entry_record e) = Inr mm"
    using inv room by (simp add: w_inv_def copy_at_fits mm_def)
  have bloom: "bf_wf (w_bloom w)"
    using inv bloom.add_all_members [of "bf_New n 10" "map e_key es"] by (auto simp: w_inv_def)
  obtain bf where bf: "bf_Add (w_bloom w) (e_key e) = Inr bf"
    using bf_Add_total [OF bloom] by blast
  have all: "bloom.add_all (bf_New n 10) (map e_key (es @ [e])) = Inr bf"
    using inv bf by (simp add: w_inv_def bloom.add_all_snoc)
  have len: "length mm = w_mmapCap w"
    using inv copy_at_length [OF cp] by (simp add: w_inv_def)
  have pre: "take (w_bytePos w + length (entry_record e)) mm = data_block (es @ [e])"
    using inv by (simp add: w_inv_def mm_def)
  show ?thesis
    using inv cp bf all len pre room
    by (auto simp: w_store_def w_inv_def Let_def si_ShouldIndex_def index_from_snoc si_Add_def
        crc32_append)
qed

lemma w_Append_inv:
  assumes inv: "w_inv n step w es"
  shows "\<exists>w'. w_Append os_ok w e = (w', None) \<and> w_inv n step w' (es @ [e]) \<and> w_path w' = w_path w"
proof (cases "w_mmapCap w < w_bytePos w + length (entry_record e)")
  case False
  then show ?thesis using w_store_inv [OF inv, of e] by (auto simp: w_Append_def Let_def)
next
  case True
  define target where "target = w_bytePos w + length (entry_record e)"
  define cap where "cap = grow_cap (w_mmapCap w) target"
  define g where "g = w\<lparr>w_mmapCap := cap, w_live := True, w_mmap := resize cap (w_mmap w)\<rparr>"
  have "0 < w_mmapCap w" using inv initialMmapSize_pos by (auto simp: w_inv_def simp del: initialMmapSize_pos)
  then have cap: "target < cap" "w_mmapCap w \<le> cap"
    by (simp_all add: cap_def grow_cap_gt grow_cap_ge)
  have "w_grow os_ok w target = (g, None)"
    by (simp add: w_grow_def Let_def cap_def g_def)
  moreover have "w_inv n step g es"
    using inv cap by (simp add: w_inv_def g_def resize_extend)
  moreover have "w_bytePos g + length (entry_record e) \<le> w_mmapCap g"
    using cap by (simp add: g_def target_def)
  ultimately show ?thesis
    using True w_store_inv [of n step g es e] by (auto simp: w_Append_def Let_def target_def g_def)
qed

lemma w_append_all_inv:
  "w_inv n step w es \<Longrightarrow>
     \<exists>w'. w_append_all os_ok w xs = (w', None) \<and> w_inv n step w' (es @ xs) \<and> w_path w' = w_path w"
proof (induction xs arbitrary: w es)
  case (Cons x xs)
  from w_Append_inv [OF Cons.prems, of x] obtain w1 where w1: "w_Append os_ok w x = (w1, None)"
      "w_inv n step w1 (es @ [x])" "w_path w1 = w_path w" by blast
  from Cons.IH [OF w1(2)] w1 show ?case by auto
qed auto

text \<open>
  \<open>Close\<close> writes the three trailing parts without growing the mapping.  When
  they fit, the file is the table file of the entries.
\<close>

definition w_trailer :: "writer \<Rightarrow> nat" where
  "w_trailer w = length (index_block (w_index w)) + length (bloom_block (Some (w_bloom w))) + footerSize"

lemma length_footer [simp]: "length (footer a b c) = footerSize"
  by (simp add: footer_def footerSize_def magicNumber_def)

lemma w_file_fits:
  assumes inv: "w_inv n step w es" and room: "w_bytePos w + w_trailer w \<le> w_mmapCap w"
  shows "\<exists>mm. w_file w = Inr (mm, w_bytePos w + w_trailer w)
     \<and> resize (w_bytePos w + w_trailer w) mm = table_file step (w_bloom w) es"
proof -
  define idx where "idx = index_block (w_index w)"
  define blm where "blm = bloom_block (Some (w_bloom w))"
  define p0 where "p0 = length (data_block es)"
  define ftr where "ftr = footer p0 (p0 + length idx) (w_dataCRC w)"
  define rest where "rest = drop p0 (w_mmap w)"
  have pos: "w_bytePos w = p0" using inv by (simp add: w_inv_def p0_def)
  have mm: "w_mmap w = data_block es @ rest"
    using inv unfolding w_inv_def rest_def p0_def by (metis append_take_drop_id)
  have len: "p0 + length rest = w_mmapCap w"
    using inv mm by (simp add: w_inv_def p0_def)
  have room': "length idx + length blm + footerSize \<le> length rest"
    using room len by (simp add: w_trailer_def idx_def blm_def pos)
  let ?m1 = "data_block es @ idx @ drop (length idx) rest"
  let ?m2 = "data_block es @ idx @ blm @ drop (length idx + length blm) rest"
  let ?m3 = "data_block es @ idx @ blm @ ftr @ drop (length idx + length blm + footerSize) rest"
  have c1: "copy_at (w_mmap w) p0 idx = Inr ?m1"
    using copy_at_append [of idx rest "data_block es"] room' by (simp add: mm p0_def)
  have c2: "copy_at ?m1 (p0 + length idx) blm = Inr ?m2"
    using copy_at_append [of blm "drop (length idx) rest" "data_block es @ idx"] room'
    by (simp add: p0_def add.commute)
  have c3: "copy_at ?m2 (p0 + length idx + length blm) ftr = Inr ?m3"
    using copy_at_append [of ftr "drop (length idx + length blm) rest" "data_block es @ idx @ blm"] room'
    by (simp add: p0_def ftr_def ac_simps)
  have f: "w_file w = Inr (?m3, p0 + length idx + length blm + footerSize)"
    unfolding w_file_def Let_def pos idx_def [symmetric] blm_def [symmetric]
    using c1 c2 c3 by (simp add: ftr_def)
  have w: "w_index w = \<lparr>si_entries = index_from step 0 0 es, si_step = step\<rparr>"
      "w_dataCRC w = crc32 (data_block es)"
    using inv by (simp_all add: w_inv_def)
  have "resize (p0 + length idx + length blm + footerSize) ?m3
      = data_block es @ idx @ blm @ ftr"
    using room' by (simp add: resize_cut p0_def ftr_def)
  also have "\<dots> = table_file step (w_bloom w) es"
    by (simp add: table_file_def Let_def idx_def blm_def ftr_def p0_def w)
  finally show ?thesis
    using f by (simp add: pos w_trailer_def idx_def blm_def add.assoc)
qed

text \<open>
  When the index block does not fit, the copy is cut short and the next slice
  expression is out of range: \<open>Close\<close> panics.
\<close>

lemma w_file_overflow:
  assumes inv: "w_inv n step w es"
    and full: "w_mmapCap w < w_bytePos w + length (index_block (w_index w))"
  shows "w_file w = Inl (Panic SliceBounds)"
proof -
  have "\<exists>m1. copy_at (w_mmap w) (w_bytePos w) (index_block (w_index w)) = Inr m1
      \<and> length m1 = w_mmapCap w"
    using inv copy_at_length by (fastforce simp: copy_at_def w_inv_def)
  then obtain m1 where m1: "copy_at (w_mmap w) (w_bytePos w) (index_block (w_index w)) = Inr m1"
      "length m1 = w_mmapCap w" by blast
  then have "copy_at m1 (w_bytePos w + length (index_block (w_index w))) b = Inl (Panic SliceBounds)" for b
    using full by (simp add: copy_at_def)
  with m1 show ?thesis by (simp add: w_file_def Let_def)
qed

end
