(* ===== verification/SSTable.thy ===== *)
theory SSTable
  imports SSTableWriter
begin

text \<open>
  Table readers of \<open>internal/sstable/sstable.go\<close>: the three ways of opening a
  file, point lookup, the full read and the iterator compaction uses.  The
  relation \<open>st_holds s es\<close> says that an open table holds the sorted entries
  \<open>es\<close>; the locale \<open>table_store\<close> is the contract the engine's read path uses.
\<close>

section \<open>State\<close>

record sstable =
  s_path :: gostr
  s_index :: sparse_index
  s_bloom :: "bfilter option"
  s_data :: "byte list option"
  s_dataSize :: int

section \<open>Opening\<close>

text \<open>
  The common end of the three functions: the index block lies between the two
  offsets, the bloom block between the second one and the footer.
\<close>

definition open_blocks :: "gostr \<Rightarrow> byte list \<Rightarrow> u64 \<Rightarrow> u64 \<Rightarrow> u64 \<Rightarrow> sstable res" where
  "open_blocks path data indexOffset bloomOffset tail =
     bindr (slice data (uint indexOffset) (uint bloomOffset)) (\<lambda>indexBuf.
     bindr (parseIndexBlock indexBuf) (\<lambda>si.
     (let bloomLen = of_nat (length data) - bloomOffset - tail in
     bindr (slice data (uint bloomOffset) (int (length data))) (\<lambda>bloomBuf.
     bindr (parseBloomBlock bloomBuf (sint bloomLen)) (\<lambda>bf.
       Inr \<lparr>s_path = path, s_index = si, s_bloom = bf, s_data = Some data,
            s_dataSize = sint indexOffset\<rparr>)))))"

definition openV1 :: "os \<Rightarrow> gostr \<Rightarrow> byte list \<Rightarrow> u64 \<Rightarrow> u64 \<Rightarrow> sstable res" where
  "openV1 os path data indexOffset bloomOffset =
     (if \<not> os (OsMmap path (length data)) then Inl ErrOS
      else open_blocks path data indexOffset bloomOffset 20)"

text \<open>Opening, stat, the size check and the mapping, shared by \<open>Open\<close> and \<open>OpenNoVerify\<close>.\<close>

definition map_file :: "os \<Rightarrow> fs \<Rightarrow> gostr \<Rightarrow> byte list res" where
  "map_file os fs path =
     (if \<not> os (OsOpen path) then Inl ErrOS
      else case map_of fs path of
        None \<Rightarrow> Inl ErrOS
      | Some data \<Rightarrow>
          if \<not> os (OsStat path) then Inl ErrOS
          else if length data < footerSize then Inl ErrTooSmall
          else if \<not> os (OsMmap path (length data)) then Inl ErrOS
          else Inr data)"

definition footer_of :: "byte list \<Rightarrow> byte list" where
  "footer_of data = drop (length data - footerSize) data"

definition st_Open :: "os \<Rightarrow> fs \<Rightarrow> gostr \<Rightarrow> sstable res" where
  "st_Open os fs path =
     bindr (map_file os fs path) (\<lambda>data.
       (let f = footer_of data in
        bindr (get_u64 (take 8 f)) (\<lambda>indexOffset.
        bindr (get_u64 (take 8 (drop 8 f))) (\<lambda>bloomOffset.
        if take 4 (drop 20 f) \<noteq> magicNumber then
          (if take 4 (drop 16 f) = magicV1 then openV1 os path data indexOffset bloomOffset
           else Inl ErrMagic)
        else
          bindr (get_u32 (take 4 (drop 16 f))) (\<lambda>dataCRC.
          bindr (slice data 0 (sint indexOffset)) (\<lambda>block.
          if crc32 block \<noteq> dataCRC then Inl ErrCRC
          else open_blocks path data indexOffset bloomOffset (of_nat footerSize)))))))"

definition st_OpenNoVerify :: "os \<Rightarrow> fs \<Rightarrow> gostr \<Rightarrow> sstable res" where
  "st_OpenNoVerify os fs path =
     bindr (map_file os fs path) (\<lambda>data.
       (let f = footer_of data in
        bindr (get_u64 (take 8 f)) (\<lambda>indexOffset.
        bindr (get_u64 (take 8 (drop 8 f))) (\<lambda>bloomOffset.
        if take 4 (drop 20 f) = magicNumber then
          open_blocks path data indexOffset bloomOffset (of_nat footerSize)
        else if take 4 (drop 16 f) = magicV1 then openV1 os path data indexOffset bloomOffset
        else Inl ErrMagic))))"

section \<open>Reading\<close>

text \<open>
  The scan of \<open>Get\<close>: it stops at a cut-short field or at the first key above
  the one looked for.  The buffer reaches to the end of the file, so the loop
  does not stop at the end of the data block.
\<close>

function get_scan :: "byte list \<Rightarrow> gostr \<Rightarrow> entry option res" where
  "get_scan buf key =
     (if buf = [] then Inr None
      else case read_str buf of
        Inl err \<Rightarrow> Inl err
      | Inr None \<Rightarrow> Inr None
      | Inr (Some (thisKey, r)) \<Rightarrow>
          if key < thisKey then Inr None
          else (case parse_rest thisKey r of
              Inl err \<Rightarrow> Inl err
            | Inr None \<Rightarrow> Inr None
            | Inr (Some (e, r')) \<Rightarrow>
                if thisKey = key then Inr (Some e) else get_scan r' key))"
  by pat_completeness auto
termination
  by (relation "measure (\<lambda>(buf, key). length buf)")
    (auto dest!: read_str_shrinks parse_rest_shrinks)

declare get_scan.simps [simp del]

definition st_MayContain :: "sstable \<Rightarrow> gostr \<Rightarrow> bool res" where
  "st_MayContain s key =
     (case s_bloom s of None \<Rightarrow> Inr True | Some bf \<Rightarrow> bf_MayContain bf key)"

definition data_bytes :: "sstable \<Rightarrow> byte list" where
  "data_bytes s = (case s_data s of None \<Rightarrow> [] | Some d \<Rightarrow> d)"

definition st_Get :: "sstable \<Rightarrow> gostr \<Rightarrow> entry option res" where
  "st_Get s key =
     bindr (st_MayContain s key) (\<lambda>maybe.
       if \<not> maybe then Inr None
       else bindr (slice (data_bytes s) (sint (si_Lookup (s_index s) key)) (int (length (data_bytes s))))
         (\<lambda>buf. get_scan buf key))"

function parse_all :: "byte list \<Rightarrow> entry list res" where
  "parse_all buf =
     (if buf = [] then Inr []
      else case parseEntry buf of
        Inl err \<Rightarrow> Inl err
      | Inr None \<Rightarrow> Inr []
      | Inr (Some (e, r)) \<Rightarrow> bindr (parse_all r) (\<lambda>es. Inr (e # es)))"
  by pat_completeness auto
termination
  by (relation "measure length") (auto dest: parseEntry_shrinks)

declare parse_all.simps [simp del]

definition st_AllEntries :: "sstable \<Rightarrow> entry list res" where
  "st_AllEntries s =
     (case s_data s of
        None \<Rightarrow> Inl ErrNotMapped
      | Some d \<Rightarrow> bindr (slice d 0 (s_dataSize s)) parse_all)"

text \<open>An iterator is a table and a position; \<open>Next\<close> returns the entry and the advanced position.\<close>

definition it_Next :: "sstable \<Rightarrow> nat \<Rightarrow> (entry \<times> nat) option res" where
  "it_Next s pos =
     (if s_dataSize s \<le> int pos then Inr None
      else bindr (slice (data_bytes s) (int pos) (int (length (data_bytes s)))) (\<lambda>buf.
        bindo (parseEntry buf) (\<lambda>(e, r). Inr (Some (e, pos + (length buf - length r))))))"

definition st_Close :: "sstable \<Rightarrow> sstable" where
  "st_Close s = s\<lparr>s_data := None\<rparr>"

definition st_MinKey :: "sstable \<Rightarrow> gostr" where
  "st_MinKey s = (case si_entries (s_index s) of [] \<Rightarrow> [] | x # _ \<Rightarrow> ie_key x)"

definition st_MaxKey :: "sstable \<Rightarrow> gostr" where
  "st_MaxKey s =
     (let es = si_entries (s_index s) in if es = [] then [] else ie_key (es ! (length es - 1)))"

section \<open>The index of a sorted list of entries\<close>

lemma index_from_keys: "set (map ie_key (index_from step i off es)) \<subseteq> set (map e_key es)"
proof (induction es arbitrary: i off)
  case (Cons e es)
  then show ?case
    using Cons.IH [of "Suc i" "off + length (entry_record e)"] by (simp only: index_from.simps) auto
qed simp

lemma index_from_length: "length (index_from step i off es) \<le> length es"
proof (induction es arbitrary: i off)
  case (Cons e es)
  then show ?case using Cons.IH [of "Suc i" "off + length (entry_record e)"] by (auto intro: le_SucI)
qed simp

lemma index_from_sorted:
  "sorted_strict (map e_key es) \<Longrightarrow> sorted_strict (map ie_key (index_from step i off es))"
proof (induction es arbitrary: i off)
  case (Cons e es)
  then show ?case
    using index_from_keys [of step "Suc i" "off + length (entry_record e)" es] by fastforce
qed simp

text \<open>Every indexed offset is the start of the record of its key.\<close>

lemma index_from_offset:
  "x \<in> set (index_from step i off es) \<Longrightarrow>
     \<exists>j < length es. ie_key x = e_key (es ! j)
       \<and> ie_off x = of_nat (off + length (data_block (take j es)))"
proof (induction es arbitrary: i off)
  case (Cons e es)
  show ?case
  proof (cases "x \<in> set (index_from step (Suc i) (off + length (entry_record e)) es)")
    case True
    from Cons.IH [OF this] obtain j where "j < length es" "ie_key x = e_key (es ! j)"
        "ie_off x = of_nat (off + length (entry_record e) + length (data_block (take j es)))" by blast
    then show ?thesis by (intro exI [of _ "Suc j"]) (simp add: add.assoc)
  next
    case False
    with Cons.prems show ?thesis by (intro exI [of _ 0]) (auto split: if_splits)
  qed
qed simp

text \<open>The lookup offset is the start of a record whose key, and whose predecessors' keys, do not exceed the key.\<close>

lemma lookup_offset:
  assumes "sorted_strict (map e_key es)"
  shows "\<exists>j \<le> length es. si_Lookup \<lparr>si_entries = index_from step 0 0 es, si_step = step\<rparr> k
         = of_nat (length (data_block (take j es)))
     \<and> (\<forall>e\<in>set (take j es). e_key e < k)"
proof -
  define xs where "xs = filter (\<lambda>x. ie_key x \<le> k) (index_from step 0 0 es)"
  have L: "si_Lookup \<lparr>si_entries = index_from step 0 0 es, si_step = step\<rparr> k
      = (case xs of [] \<Rightarrow> 0 | x # ys \<Rightarrow> ie_off (last (x # ys)))"
    using index_from_sorted [OF assms] by (subst si_Lookup_floor) (auto simp: floor_offset_def xs_def)
  show ?thesis
  proof (cases "xs = []")
    case True
    with L show ?thesis by (intro exI [of _ 0]) simp
  next
    case False
    then have "last xs \<in> set xs" by simp
    then have x: "last xs \<in> set (index_from step 0 0 es)" "ie_key (last xs) \<le> k"
      by (auto simp: xs_def)
    obtain j where j: "j < length es" "ie_key (last xs) = e_key (es ! j)"
        "ie_off (last xs) = of_nat (length (data_block (take j es)))"
      using index_from_offset [OF x(1)] by auto
    have "e_key e < k" if "e \<in> set (take j es)" for e
    proof -
      obtain i where "i < j" "e = es ! i" using \<open>e \<in> set (take j es)\<close> j(1) by (auto simp: in_set_conv_nth)
      then have "e_key e < e_key (es ! j)"
        using assms j(1) by (auto simp: sorted_wrt_iff_nth_less)
      with x(2) j(2) show ?thesis by simp
    qed
    moreover have "si_Lookup \<lparr>si_entries = index_from step 0 0 es, si_step = step\<rparr> k = ie_off (last xs)"
      using L False by (cases xs) auto
    ultimately show ?thesis using j by (intro exI [of _ j]) auto
  qed
qed

section \<open>Scanning written records\<close>

lemma get_scan_record:
  assumes "entry_fits e"
  shows "get_scan (entry_record e @ rest) k =
    (if k < e_key e then Inr None else if e_key e = k then Inr (Some e) else get_scan rest k)"
proof -
  have len: "length (e_key e) < 2 ^ 63" using assms by (simp add: entry_fits_def)
  let ?tl = "put_uvarint (of_nat (length (e_val e))) @ e_val e @ put_varint (e_ts e)
     @ bool_byte (e_tomb e) # put_u32 (crc32 (entry_fields e)) @ rest"
  have r: "read_str (entry_record e @ rest) = Inr (Some (e_key e, ?tl))"
    using read_str_put [OF len, of ?tl] by (simp add: entry_record_def entry_fields_def)
  have p: "parse_rest (e_key e) ?tl = Inr (Some (e, rest))"
    using parse_rest_record [OF assms, of "put_u32 (crc32 (entry_fields e))" rest] by simp
  show ?thesis by (subst get_scan.simps) (simp add: r p)
qed

text \<open>The scan stops at the first record whose key is not below the key.\<close>

lemma get_scan_block:
  assumes "\<forall>e\<in>set es. entry_fits e"
  shows "get_scan (data_block es @ tail) k =
    (case find (\<lambda>e. k \<le> e_key e) es of
       None \<Rightarrow> get_scan tail k
     | Some e \<Rightarrow> if e_key e = k then Inr (Some e) else Inr None)"
  using assms
proof (induction es)
  case (Cons e es)
  then show ?case
    using get_scan_record [of e "data_block es @ tail" k] by auto
qed simp

lemma parse_all_block:
  "\<forall>e\<in>set es. entry_fits e \<Longrightarrow> parse_all (data_block es) = Inr es"
proof (induction es)
  case Nil
  show ?case by (subst parse_all.simps) simp
next
  case (Cons e es)
  then show ?case by (subst parse_all.simps) simp
qed

section \<open>Tables and their contents\<close>

definition bloom_covers :: "bfilter option \<Rightarrow> entry list \<Rightarrow> bool" where
  "bloom_covers b es \<longleftrightarrow>
     (\<forall>bf. b = Some bf \<longrightarrow> bf_wf bf \<and> (\<forall>e\<in>set es. bf_MayContain bf (e_key e) = Inr True))"

definition st_holds :: "sstable \<Rightarrow> entry list \<Rightarrow> bool" where
  "st_holds s es \<longleftrightarrow>
     (\<exists>step tail. 0 < step
        \<and> s_data s = Some (data_block es @ tail) \<and> length (data_block es @ tail) < 2 ^ 63
        \<and> s_dataSize s = int (length (data_block es))
        \<and> s_index s = \<lparr>si_entries = index_from step 0 0 es, si_step = step\<rparr>)
     \<and> bloom_covers (s_bloom s) es
     \<and> sorted_strict (map e_key es) \<and> (\<forall>e\<in>set es. entry_fits e)"

text \<open>
  The bytes after the data block do not answer for the key.  The scan reads
  them only for a key above every key of the table.
\<close>

definition st_clean :: "sstable \<Rightarrow> gostr \<Rightarrow> bool" where
  "st_clean s k \<longleftrightarrow>
     (case st_AllEntries s of Inl _ \<Rightarrow> False | Inr es \<Rightarrow> \<exists>e\<in>set es. k \<le> e_key e)
     \<or> get_scan (drop (nat (s_dataSize s)) (data_bytes s)) k = Inr None"

lemma st_MayContain_total: "st_holds s es \<Longrightarrow> \<exists>b. st_MayContain s k = Inr b"
  by (auto simp: st_holds_def bloom_covers_def st_MayContain_def bf_MayContain_spec split: option.splits)

lemma st_MayContain_present:
  "st_holds s es \<Longrightarrow> e \<in> set es \<Longrightarrow> st_MayContain s (e_key e) = Inr True"
  by (auto simp: st_holds_def bloom_covers_def st_MayContain_def split: option.splits)

lemma find_drop_smaller:
  "(\<forall>e\<in>set (take j es). e_key e < k) \<Longrightarrow>
     find (\<lambda>e. k \<le> e_key e) (drop j es) = find (\<lambda>e. k \<le> e_key e) es"
proof -
  assume "\<forall>e\<in>set (take j es). e_key e < k"
  then have "find (\<lambda>e. k \<le> e_key e) (take j es) = None"
    by (auto simp: find_None_iff not_le)
  then have "find (\<lambda>e. k \<le> e_key e) (take j es @ drop j es) = find (\<lambda>e. k \<le> e_key e) (drop j es)"
    by (simp only: find_append) simp
  then show ?thesis by simp
qed

text \<open>Lookup in terms of the contents: what the filter and the scan together decide.\<close>

lemma st_Get_cases:
  assumes "st_holds s es"
  shows "st_Get s k = bindr (st_MayContain s k) (\<lambda>m. if \<not> m then Inr None
     else (case find (\<lambda>e. k \<le> e_key e) es of
       None \<Rightarrow> get_scan (drop (nat (s_dataSize s)) (data_bytes s)) k
     | Some e \<Rightarrow> if e_key e = k then Inr (Some e) else Inr None))"
proof -
  obtain step tail where S: "0 < step" "s_data s = Some (data_block es @ tail)"
      "length (data_block es @ tail) < 2 ^ 63" "s_dataSize s = int (length (data_block es))"
      "s_index s = \<lparr>si_entries = index_from step 0 0 es, si_step = step\<rparr>"
      and sorted: "sorted_strict (map e_key es)" and fits: "\<forall>e\<in>set es. entry_fits e"
    using assms unfolding st_holds_def by blast
  obtain j where j: "j \<le> length es"
      "si_Lookup (s_index s) k = of_nat (length (data_block (take j es)))"
      "\<forall>e\<in>set (take j es). e_key e < k"
    using lookup_offset [OF sorted, of step k] S(5) by auto
  have split: "data_block es = data_block (take j es) @ data_block (drop j es)"
    by (metis append_take_drop_id data_block_simps(3))
  have small: "length (data_block (take j es)) < 2 ^ 63" using S(3) split by simp
  have off: "sint (si_Lookup (s_index s) k) = int (length (data_block (take j es)))"
    unfolding j(2) by (rule sint_of_nat_small [OF small])
  have d: "data_bytes s = data_block es @ tail" by (simp add: data_bytes_def S(2))
  have sl: "slice (data_bytes s) (sint (si_Lookup (s_index s) k)) (int (length (data_bytes s)))
      = Inr (data_block (drop j es) @ tail)"
    unfolding off d by (simp add: split slice_def)
  have scan: "get_scan (data_block (drop j es) @ tail) k =
      (case find (\<lambda>e. k \<le> e_key e) es of None \<Rightarrow> get_scan tail k
       | Some e \<Rightarrow> if e_key e = k then Inr (Some e) else Inr None)"
    using get_scan_block [of "drop j es" tail k] fits find_drop_smaller [OF j(3)]
    by (metis in_set_dropD)
  have tl: "drop (nat (s_dataSize s)) (data_bytes s) = tail" by (simp add: S(4) d)
  show ?thesis
    unfolding st_Get_def sl tl bindr_simps scan ..
qed

lemma find_sorted_present:
  assumes "sorted_strict (map e_key es)" "e \<in> set es"
  shows "find (\<lambda>x. e_key e \<le> e_key x) es = Some e"
  using assms
proof (induction es)
  case (Cons x es)
  then show ?case by (auto simp: not_le)
qed simp

lemma st_Get_present:
  assumes "st_holds s es" "e \<in> set es"
  shows "st_Get s (e_key e) = Inr (Some e)"
proof -
  have "sorted_strict (map e_key es)" using assms(1) by (simp add: st_holds_def)
  then show ?thesis
    using st_Get_cases [OF assms(1), of "e_key e"] st_MayContain_present [OF assms]
      find_sorted_present [OF _ assms(2)]
    by simp
qed

lemma find_no_key:
  assumes "find (\<lambda>e. k \<le> e_key e) es = Some x" "k \<notin> e_key ` set es"
  shows "e_key x \<noteq> k"
  using assms by (metis find_Some_iff imageI nth_mem)

lemma st_AllEntries_holds: "st_holds s es \<Longrightarrow> st_AllEntries s = Inr es"
  by (auto simp: st_holds_def st_AllEntries_def parse_all_block)

lemma st_clean_iff:
  assumes "st_holds s es"
  shows "st_clean s k \<longleftrightarrow>
     (\<exists>e\<in>set es. k \<le> e_key e) \<or> get_scan (drop (nat (s_dataSize s)) (data_bytes s)) k = Inr None"
  by (simp add: st_clean_def st_AllEntries_holds [OF assms])

lemma st_Get_absent:
  assumes "st_holds s es" "k \<notin> e_key ` set es" "st_clean s k"
  shows "st_Get s k = Inr None"
proof -
  obtain b where b: "st_MayContain s k = Inr b" using st_MayContain_total [OF assms(1)] by blast
  show ?thesis
  proof (cases "find (\<lambda>e. k \<le> e_key e) es")
    case None
    then have "\<not> (\<exists>e\<in>set es. k \<le> e_key e)" by (auto simp: find_None_iff)
    with assms(3) show ?thesis
      using st_Get_cases [OF assms(1), of k] b None by (auto simp: st_clean_iff [OF assms(1)])
  next
    case (Some x)
    then show ?thesis
      using st_Get_cases [OF assms(1), of k] b find_no_key [OF Some assms(2)] by simp
  qed
qed

text \<open>
  A key no larger than some key of the table needs no assumption; nor does any
  key when less than 130 bytes follow the data: the index block starts with the
  step, 128, which the scan takes for the length of a key.
\<close>

lemma uvarint_step: "uvarint (0x80 # 0x01 # r) = (128, 2)"
  by (simp add: uvarint_def)

lemma put_uvarint_128: "put_uvarint 128 = [0x80, 0x01]"
proof -
  have "drop_bit 7 (128 :: u64) = 1" by (simp add: drop_bit_eq_div flip: take_bit_eq_mod) 
  then show ?thesis by (subst put_uvarint.simps) (simp add: put_uvarint.simps [of 1])
qed

lemma get_scan_short_trailer:
  assumes "length r < 128"
  shows "get_scan (put_uvarint 128 @ r) k = Inr None"
  using assms by (subst get_scan.simps) (simp add: put_uvarint_128 uvarint_step read_str_def)

section \<open>Iteration\<close>

text \<open>From the start of a record the iterator yields it and moves to the next one.\<close>

lemma it_Next_record:
  assumes "st_holds s (xs @ e # ys)"
  shows "it_Next s (length (data_block xs))
       = Inr (Some (e, length (data_block xs) + length (entry_record e)))"
proof -
  obtain tail where d: "data_bytes s = data_block (xs @ e # ys) @ tail"
      and size: "s_dataSize s = int (length (data_block (xs @ e # ys)))"
    using assms by (auto simp: st_holds_def data_bytes_def)
  have fits: "entry_fits e" using assms by (auto simp: st_holds_def)
  have "0 < length (entry_record e)" by simp
  then have lt: "\<not> s_dataSize s \<le> int (length (data_block xs))"
    by (simp add: size del: length_greater_0_conv)
  have sl: "slice (data_bytes s) (int (length (data_block xs))) (int (length (data_bytes s)))
      = Inr (entry_record e @ data_block ys @ tail)"
    by (simp add: d slice_def)
  show ?thesis using lt sl parseEntry_record [OF fits, of "data_block ys @ tail"]
    by (simp add: it_Next_def)
qed

lemma it_Next_end:
  assumes "st_holds s es"
  shows "it_Next s (length (data_block es)) = Inr None"
  using assms by (auto simp: st_holds_def it_Next_def)

lemma it_Next_advances: "it_Next s pos = Inr (Some (e, pos')) \<Longrightarrow> pos < pos' \<and> int pos < s_dataSize s"
  by (auto simp: it_Next_def slice_def dest!: parseEntry_shrinks split: if_splits)

section \<open>Opening a written table\<close>

lemma footer_of_append: "length f = footerSize \<Longrightarrow> footer_of (xs @ f) = f"
  by (simp add: footer_of_def)

lemma footer_fields:
  "take 8 (footer a b c) = put_u64 (of_nat a)"
  "take 8 (drop 8 (footer a b c)) = put_u64 (of_nat b)"
  "take 4 (drop 16 (footer a b c)) = put_u32 c"
  "take 4 (drop 20 (footer a b c)) = magicNumber"
  by (simp_all add: footer_def magicNumber_def)

definition table_ok :: "int \<Rightarrow> bfilter \<Rightarrow> entry list \<Rightarrow> bool" where
  "table_ok step bf es \<longleftrightarrow> 0 < step \<and> step < 2 ^ 63 \<and> bf_wf bf \<and> length (bf_bits bf) * 8 \<le> 2 ^ 48
     \<and> (\<forall>e\<in>set es. bf_MayContain bf (e_key e) = Inr True)
     \<and> sorted_strict (map e_key es) \<and> (\<forall>e\<in>set es. entry_fits e)
     \<and> length (table_file step bf es) < 2 ^ 63"

definition opened :: "gostr \<Rightarrow> int \<Rightarrow> bfilter \<Rightarrow> entry list \<Rightarrow> sstable" where
  "opened path step bf es =
     \<lparr>s_path = path, s_index = \<lparr>si_entries = index_from step 0 0 es, si_step = step\<rparr>,
      s_bloom = Some bf, s_data = Some (table_file step bf es),
      s_dataSize = int (length (data_block es))\<rparr>"

lemma data_block_length: "length es \<le> length (data_block es)"
proof (induction es)
  case (Cons e es)
  have "0 < length (entry_record e)" by simp
  with Cons show ?case by (simp del: length_greater_0_conv)
qed simp

lemma open_blocks_table:
  assumes ok: "table_ok step bf es"
  defines "p0 \<equiv> length (data_block es)"
  defines "idx \<equiv> index_block \<lparr>si_entries = index_from step 0 0 es, si_step = step\<rparr>"
  shows "open_blocks path (table_file step bf es) (of_nat p0) (of_nat (p0 + length idx)) (of_nat footerSize)
       = Inr (opened path step bf es)"
proof -
  define blm where "blm = bloom_block (Some bf)"
  define ftr where "ftr = footer p0 (p0 + length idx) (crc32 (data_block es))"
  have tf: "table_file step bf es = data_block es @ idx @ blm @ ftr"
    by (simp add: table_file_def Let_def idx_def blm_def ftr_def p0_def)
  have len: "length (table_file step bf es) = p0 + length idx + length blm + footerSize"
    by (simp add: tf p0_def ftr_def)
  have small: "p0 + length idx + length blm + footerSize < 2 ^ 63"
    using ok len by (simp add: table_ok_def)
  have io: "uint (of_nat p0 :: u64) = int p0" "sint (of_nat p0 :: u64) = int p0"
    using small by (auto intro!: uint_of_nat_small sint_of_nat_small)
  have bo: "uint (of_nat (p0 + length idx) :: u64) = int (p0 + length idx)"
    using small by (intro uint_of_nat_small) simp
  have bl: "(of_nat (length (table_file step bf es)) - of_nat (p0 + length idx) - of_nat footerSize :: u64)
      = of_nat (length blm)" by (simp add: len)
  have bls: "sint (of_nat (length blm) :: u64) = int (length blm)"
    using small by (intro sint_of_nat_small) simp
  have "index_fits \<lparr>si_entries = index_from step 0 0 es, si_step = step\<rparr>"
    unfolding index_fits_def
  proof (intro conjI ballI)
    show "length (si_entries \<lparr>si_entries = index_from step 0 0 es, si_step = step\<rparr>) < 2 ^ 64"
      using index_from_length [of step 0 0 es] data_block_length [of es] small by (simp add: p0_def)
    fix x
    assume "x \<in> set (si_entries \<lparr>si_entries = index_from step 0 0 es, si_step = step\<rparr>)"
    then have "ie_key x \<in> e_key ` set es" using index_from_keys [of step 0 0 es] by auto
    then show "length (ie_key x) < 2 ^ 63" using ok by (auto simp: table_ok_def entry_fits_def)
  qed (use ok in \<open>auto simp: table_ok_def\<close>)
  note idx_ok = parseIndexBlock_block [OF this, folded idx_def]
  have s1: "slice (table_file step bf es) (int p0) (int (p0 + length idx)) = Inr idx"
    unfolding tf by (rule slice_mid) (simp_all add: p0_def)
  have s2: "slice (table_file step bf es) (int (p0 + length idx)) (int (length (table_file step bf es)))
      = Inr (blm @ ftr)"
    by (simp add: tf slice_def p0_def)
  have b: "parseBloomBlock (blm @ ftr) (int (length blm)) = Inr (Some bf)"
    using ok parseBloomBlock_block [of bf ftr] by (simp add: table_ok_def blm_def bloom_block_def)
  show ?thesis
    unfolding open_blocks_def io(1) bo Let_def bl bls s1 s2 bindr_simps idx_ok b
    using io(2) by (simp add: opened_def p0_def)
qed

lemma opened_holds: "table_ok step bf es \<Longrightarrow> st_holds (opened path step bf es) es"
  unfolding st_holds_def
proof (intro conjI exI)
  let ?tail = "drop (length (data_block es)) (table_file step bf es)"
  assume ok: "table_ok step bf es"
  have t: "table_file step bf es = data_block es @ ?tail" by (simp add: table_file_def Let_def)
  show "s_data (opened path step bf es) = Some (data_block es @ ?tail)"
    using t by (simp add: opened_def)
  show "length (data_block es @ ?tail) < 2 ^ 63"
    using ok by (subst t [symmetric]) (simp add: table_ok_def)
qed (auto simp: table_ok_def opened_def bloom_covers_def)

lemma table_footer:
  assumes "table_ok step bf es"
  shows "footerSize \<le> length (table_file step bf es)"
    and "footer_of (table_file step bf es) = footer (length (data_block es))
      (length (data_block es) + length (index_block \<lparr>si_entries = index_from step 0 0 es, si_step = step\<rparr>))
      (crc32 (data_block es))"
  by (simp_all add: table_file_def Let_def footer_of_def)

text \<open>Both ways of opening a written table give the same reader, which holds the entries.\<close>

lemma st_OpenNoVerify_table:
  assumes "table_ok step bf es" "map_of fs path = Some (table_file step bf es)"
  shows "st_OpenNoVerify os_ok fs path = Inr (opened path step bf es)"
proof -
  have "map_file os_ok fs path = Inr (table_file step bf es)"
    using assms table_footer(1) [OF assms(1)] by (simp add: map_file_def)
  then show ?thesis
    using open_blocks_table [OF assms(1)] get_put_u64 [of _ "[]"]
    by (simp add: st_OpenNoVerify_def table_footer(2) [OF assms(1)] footer_fields Let_def)
qed

lemma st_Open_table:
  assumes "table_ok step bf es" "map_of fs path = Some (table_file step bf es)"
  shows "st_Open os_ok fs path = Inr (opened path step bf es)"
proof -
  have "map_file os_ok fs path = Inr (table_file step bf es)"
    using assms table_footer(1) [OF assms(1)] by (simp add: map_file_def)
  moreover have "sint (of_nat (length (data_block es)) :: u64) = int (length (data_block es))"
    using assms(1) by (intro sint_of_nat_small) (simp add: table_ok_def table_file_def Let_def)
  moreover have "slice (table_file step bf es) 0 (int (length (data_block es))) = Inr (data_block es)"
    by (simp add: table_file_def Let_def)
  ultimately show ?thesis
    using open_blocks_table [OF assms(1)] get_put_u64 [of _ "[]"] get_put_u32 [of _ "[]"]
    by (simp add: st_Open_def table_footer(2) [OF assms(1)] footer_fields Let_def)
qed

section \<open>Writing a whole table\<close>

text \<open>
  The four parts fit into the first mapping, which is what \<open>Close\<close> relies on:
  it never grows the mapping.
\<close>

definition table_fits :: "int \<Rightarrow> entry list \<Rightarrow> bool" where
  "table_fits n es \<longleftrightarrow>
     length (data_block es) + length (index_block \<lparr>si_entries = index_from 128 0 0 es, si_step = 128\<rparr>)
       + length (bf_Serialize (bf_New n 10)) + footerSize \<le> initialMmapSize"

lemma length_words: "length (concat (map put_u64 bs)) = 8 * length bs"
  by (induction bs) auto

lemma bf_Serialize_shape: "same_shape f g \<Longrightarrow> length (bf_Serialize g) = length (bf_Serialize f)"
  by (simp add: same_shape_def bf_Serialize_def length_words)

lemma add_all_shape:
  "bf_wf f \<Longrightarrow> bloom.add_all f ks = Inr g \<Longrightarrow> length (bf_Serialize g) = length (bf_Serialize f)"
proof (induction ks arbitrary: f)
  case (Cons k ks)
  obtain f' where f': "bf_Add f k = Inr f'" "same_shape f f'" using bf_Add_spec [OF Cons.prems(1)] by blast
  with Cons show ?case by (auto simp: bf_Serialize_shape same_shape_wf)
qed simp

lemma bits_in_Serialize: "8 * length (bf_bits f) \<le> length (bf_Serialize f)"
  by (simp add: bf_Serialize_def length_words)

lemma w_inv_closes:
  assumes inv: "w_inv n 128 w es" and fits: "table_fits n es"
    and es: "sorted_strict (map e_key es)" "\<forall>e\<in>set es. entry_fits e"
  shows "\<exists>w'. w_Close os_ok w fs = (Inr w', AList.update (w_path w) (table_file 128 (w_bloom w) es)
        (AList.update (w_path w) (w_mmap w') fs))
      \<and> w_Info w' = length (table_file 128 (w_bloom w) es) \<and> table_ok 128 (w_bloom w) es"
proof -
  have all: "bloom.add_all (bf_New n 10) (map e_key es) = Inr (w_bloom w)"
    using inv by (simp add: w_inv_def)
  have ser: "length (bf_Serialize (w_bloom w)) = length (bf_Serialize (bf_New n 10))"
    by (rule add_all_shape [OF _ all]) simp
  have bloom: "bf_wf (w_bloom w)" "\<forall>e\<in>set es. bf_MayContain (w_bloom w) (e_key e) = Inr True"
    using bloom.add_all_members [of "bf_New n 10" "map e_key es"] all by auto
  have idx: "w_index w = \<lparr>si_entries = index_from 128 0 0 es, si_step = 128\<rparr>"
      "w_bytePos w = length (data_block es)" "initialMmapSize \<le> w_mmapCap w"
    using inv by (simp_all add: w_inv_def)
  have room: "w_bytePos w + w_trailer w \<le> w_mmapCap w"
    using fits idx ser by (simp add: table_fits_def w_trailer_def bloom_block_def)
  obtain mm where mm: "w_file w = Inr (mm, w_bytePos w + w_trailer w)"
      "resize (w_bytePos w + w_trailer w) mm = table_file 128 (w_bloom w) es"
    using w_file_fits [OF inv room] by blast
  have len: "length (table_file 128 (w_bloom w) es) = w_bytePos w + w_trailer w"
    unfolding mm(2) [symmetric] by simp
  have small: "w_bytePos w + w_trailer w \<le> initialMmapSize"
    using fits idx ser by (simp add: table_fits_def w_trailer_def bloom_block_def)
  have "8 * length (bf_bits (w_bloom w)) \<le> initialMmapSize"
    using bits_in_Serialize [of "w_bloom w"] fits ser by (simp add: table_fits_def)
  then have "table_ok 128 (w_bloom w) es"
    using es bloom len small by (simp add: table_ok_def initialMmapSize_def)
  moreover have "w_live w" using inv by (simp add: w_inv_def)
  ultimately show ?thesis using mm len by (simp add: w_Close_def ret_def w_Info_def)
qed

section \<open>The contract of the read path\<close>

locale table_store =
  fixes holds :: "'t \<Rightarrow> entry list \<Rightarrow> bool"
    and clean :: "'t \<Rightarrow> gostr \<Rightarrow> bool"
    and may :: "'t \<Rightarrow> gostr \<Rightarrow> bool res"
    and get :: "'t \<Rightarrow> gostr \<Rightarrow> entry option res"
  assumes keys_distinct: "holds t es \<Longrightarrow> distinct (map e_key es)"
    and may_total: "holds t es \<Longrightarrow> \<exists>b. may t k = Inr b"
    and may_present: "holds t es \<Longrightarrow> e \<in> set es \<Longrightarrow> may t (e_key e) = Inr True"
    and get_present: "holds t es \<Longrightarrow> e \<in> set es \<Longrightarrow> get t (e_key e) = Inr (Some e)"
    and get_absent: "holds t es \<Longrightarrow> k \<notin> e_key ` set es \<Longrightarrow> clean t k \<Longrightarrow> get t k = Inr None"
begin

text \<open>Probing the filter and then reading answers from the contents alone.\<close>

lemma lookup_contents:
  assumes "holds t es" "clean t k"
  shows "bindr (may t k) (\<lambda>m. if m then get t k else Inr None) = Inr (find (\<lambda>e. e_key e = k) es)"
proof (cases "k \<in> e_key ` set es")
  case True
  then obtain e where e: "e \<in> set es" "e_key e = k" by blast
  have "find (\<lambda>e. e_key e = k) es = Some e"
    using keys_distinct [OF assms(1)] e
    by (induction es) (auto simp: image_iff)
  then show ?thesis
    using may_present [OF assms(1) e(1)] get_present [OF assms(1) e(1)] e(2) by simp
next
  case False
  then have "find (\<lambda>e. e_key e = k) es = None" by (auto simp: find_None_iff)
  moreover obtain b where "may t k = Inr b" using may_total [OF assms(1)] by blast
  ultimately show ?thesis using get_absent [OF assms(1) False assms(2)] by simp
qed

end

interpretation sst: table_store st_holds st_clean st_MayContain st_Get
proof unfold_locales
  fix t es
  show "st_holds t es \<Longrightarrow> distinct (map e_key es)"
    by (simp add: st_holds_def sorted_strict_iff)
qed (auto intro: st_MayContain_total st_MayContain_present st_Get_present st_Get_absent)

end
