(* ===== verification/GoFmt.thy ===== *)
theory GoFmt
  imports Prelude
begin

text \<open>
  The names of table files: the decimal verbs of Go's \<open>fmt\<close> the source uses,
  \<open>strconv.Atoi\<close>, \<open>strings.HasSuffix\<close> and \<open>strings.SplitN\<close> on a dash.  Names
  of different numbers differ, and the level is read back from a name.
\<close>

section \<open>Decimal numbers\<close>

definition digit :: "nat \<Rightarrow> byte" where
  "digit d = of_nat (48 + d)"

fun dec :: "nat \<Rightarrow> gostr" where
  "dec n = (if n < 10 then [digit n] else dec (n div 10) @ [digit (n mod 10)])"

declare dec.simps [simp del]

text \<open>\<open>%d\<close>, and \<open>%08d\<close>, whose zeros follow a sign and whose width counts it.\<close>

definition fmt_d :: "int \<Rightarrow> gostr" where
  "fmt_d i = (if i < 0 then 45 # dec (nat (- i)) else dec (nat i))"

definition pad0 :: "nat \<Rightarrow> gostr \<Rightarrow> gostr" where
  "pad0 n s = replicate (n - length s) 48 @ s"

definition fmt_08d :: "int \<Rightarrow> gostr" where
  "fmt_08d i = (if i < 0 then 45 # pad0 7 (dec (nat (- i))) else pad0 8 (dec (nat i)))"

text \<open>\<open>Atoi\<close>: an optional sign, then digits only; out of range is an error.\<close>

definition is_digit :: "byte \<Rightarrow> bool" where
  "is_digit b \<longleftrightarrow> 48 \<le> b \<and> b \<le> 57"

definition undec :: "gostr \<Rightarrow> nat" where
  "undec s = foldl (\<lambda>n b. n * 10 + (unat b - 48)) 0 s"

definition atoi :: "gostr \<Rightarrow> int option" where
  "atoi s =
     (let neg = (s \<noteq> [] \<and> hd s = 45); ds = (if s \<noteq> [] \<and> (hd s = 45 \<or> hd s = 43) then tl s else s);
          v = (if neg then - int (undec ds) else int (undec ds)) in
      if ds = [] \<or> \<not> list_all is_digit ds \<or> v < - (2 ^ 63) \<or> 2 ^ 63 \<le> v then None else Some v)"

section \<open>File names\<close>

definition sst_suffix :: gostr where
  "sst_suffix = [46, 115, 115, 116]"

definition has_suffix :: "gostr \<Rightarrow> gostr \<Rightarrow> bool" where
  "has_suffix s suf \<longleftrightarrow> length suf \<le> length s \<and> drop (length s - length suf) s = suf"

text \<open>\<open>Sprintf("0-%d.sst", id)\<close> and \<open>Sprintf("%d-%08d.sst", level, id)\<close>.\<close>

definition flush_name :: "int \<Rightarrow> gostr" where
  "flush_name n = [48, 45] @ fmt_d n @ sst_suffix"

definition compact_name :: "int \<Rightarrow> int \<Rightarrow> gostr" where
  "compact_name level n = fmt_d level @ [45] @ fmt_08d n @ sst_suffix"

text \<open>The part of a name before its first dash, if it has one.\<close>

definition before_dash :: "gostr \<Rightarrow> gostr option" where
  "before_dash s = (if 45 \<in> set s then Some (takeWhile (\<lambda>b. b \<noteq> 45) s) else None)"

section \<open>Reading back\<close>

lemma unat_digit: "d < 10 \<Longrightarrow> unat (digit d) = 48 + d"
  by (simp add: digit_def unsigned_of_nat take_bit_nat_eq_self del: of_nat_add of_nat_numeral)

lemma is_digit_digit: "d < 10 \<Longrightarrow> is_digit (digit d)"
  by (simp add: is_digit_def word_le_nat_alt unat_digit)

lemma dec_digits: "\<forall>b\<in>set (dec n). is_digit b"
proof (induction n rule: dec.induct)
  case (1 n)
  then show ?case by (subst dec.simps) (auto simp: is_digit_digit)
qed

lemma dec_nonempty [simp]: "dec n \<noteq> []"
  by (subst dec.simps) simp

lemma undec_dec [simp]: "undec (dec n) = n"
proof (induction n rule: dec.induct)
  case (1 n)
  show ?case
  proof (cases "n < 10")
    case True
    then show ?thesis by (simp add: dec.simps [of n] undec_def unat_digit)
  next
    case False
    then have "undec (dec n) = undec (dec (n div 10)) * 10 + n mod 10"
      by (simp add: dec.simps [of n] undec_def unat_digit)
    with 1 [OF False] show ?thesis by simp
  qed
qed

lemma undec_pad0 [simp]: "undec (pad0 n s) = undec s"
proof -
  have "foldl (\<lambda>n b. n * 10 + (unat b - 48)) 0 (replicate k (48 :: byte)) = 0" for k
    by (induction k) simp_all
  then show ?thesis by (simp add: undec_def pad0_def)
qed

lemma not_dash: "is_digit b \<Longrightarrow> b \<noteq> 45"
  by (auto simp: is_digit_def)

lemma atoi_dec:
  assumes "n < 2 ^ 63"
  shows "atoi (dec n) = Some (int n)"
proof -
  have d: "is_digit (hd (dec n))" using dec_digits [of n] by simp
  then have "hd (dec n) \<noteq> 45" "hd (dec n) \<noteq> 43" by (auto simp: is_digit_def)
  moreover have "int n < 2 ^ 63" using assms by simp
  ultimately show ?thesis
    using dec_digits [of n] by (simp add: atoi_def list_all_iff)
qed

lemma before_dash_dec: "before_dash (dec n @ 45 # r) = Some (dec n)"
proof -
  have "\<forall>b\<in>set (dec n). b \<noteq> 45" using dec_digits [of n] not_dash by blast
  then show ?thesis by (simp add: before_dash_def takeWhile_append2)
qed

text \<open>The level of a table is read back from its name.\<close>

definition name_level :: "gostr \<Rightarrow> int option" where
  "name_level s = (case before_dash s of None \<Rightarrow> None | Some p \<Rightarrow> atoi p)"

lemma name_level_compact:
  assumes "0 \<le> level" "level < 2 ^ 63"
  shows "name_level (compact_name level n) = Some level"
  using assms atoi_dec [of "nat level"]
  by (simp add: name_level_def compact_name_def fmt_d_def before_dash_dec)

lemma name_level_flush: "name_level (flush_name n) = Some 0"
proof -
  have "flush_name n = dec 0 @ 45 # fmt_d n @ sst_suffix"
    by (simp add: flush_name_def dec.simps [of 0] digit_def)
  then show ?thesis by (simp add: name_level_def before_dash_dec atoi_dec)
qed

lemma has_suffix_append [simp]: "has_suffix (s @ suf) suf"
  by (simp add: has_suffix_def)

lemma has_suffix_names [simp]:
  "has_suffix (flush_name n) sst_suffix" "has_suffix (compact_name level n) sst_suffix"
  using has_suffix_append [of "[48, 45] @ fmt_d n"] has_suffix_append [of "fmt_d level @ [45] @ fmt_08d n"]
  by (simp_all add: flush_name_def compact_name_def)

section \<open>Names of different numbers\<close>

lemma dec_inj: "dec m = dec n \<Longrightarrow> m = n"
  by (metis undec_dec)

lemma fmt_08d_nonneg: "0 \<le> i \<Longrightarrow> undec (fmt_08d i) = nat i"
  by (simp add: fmt_08d_def)

lemma compact_name_inj:
  assumes "0 \<le> m" "0 \<le> n" "compact_name level m = compact_name level n"
  shows "m = n"
proof -
  have "fmt_08d m = fmt_08d n" using assms(3) by (simp add: compact_name_def)
  then show ?thesis using fmt_08d_nonneg [OF assms(1)] fmt_08d_nonneg [OF assms(2)] assms by simp
qed

lemma flush_name_inj:
  assumes "0 \<le> m" "0 \<le> n" "flush_name m = flush_name n"
  shows "m = n"
  using assms dec_inj [of "nat m" "nat n"] by (simp add: flush_name_def fmt_d_def)

lemma compact_name_level:
  assumes "0 \<le> l" "l < 2 ^ 63" "0 \<le> l'" "l' < 2 ^ 63" "compact_name l m = compact_name l' n"
  shows "l = l'"
  using name_level_compact [OF assms(1,2), of m] name_level_compact [OF assms(3,4), of n] assms(5) by simp

end
