(* ===== verification/IOUring.thy ===== *)
theory IOUring
  imports Prelude
begin

text \<open>
  The submission and completion rings of \<open>internal/wal/io_uring_linux.go\<close>.  The
  rings and the entry arrays are memory shared with the kernel; the kernel's
  side of them, \<open>io_uring_setup\<close> and \<open>io_uring_enter\<close>, is a parameter.
  A run of \<open>reap\<close> that does not return is the value \<open>None\<close>.
\<close>

section \<open>State\<close>

datatype sq_op = OP_NOP | OP_WRITE | OP_FSYNC

record sqe =
  se_op :: sq_op
  se_off :: u64
  se_buf :: "byte list"
  se_len :: u32
  se_user :: u64

record cqe =
  ce_user :: u64
  ce_res :: "32 word"

record iouring =
  r_sqes :: "sqe list"
  r_cqes :: "cqe list"
  r_sqHead :: u32
  r_sqTail :: u32
  r_sqMask :: u32
  r_sqEntries :: u32
  r_cqHead :: u32
  r_cqTail :: u32
  r_cqMask :: u32
  r_offset :: i64
  r_sqLocalTail :: u32
  r_writeBufs :: "byte list option list"
  r_wbHead :: nat
  r_wbTail :: nat

definition iouringDepth :: nat where "iouringDepth = 256"

text \<open>
  What \<open>io_uring_setup\<close> returned (\<open>None\<close> when both attempts failed), and
  \<open>io_uring_enter\<close> with its two counts: the rings and the file it leaves, an
  interrupted wait, or another error number.
\<close>

record ring_params =
  p_sqEntries :: u32
  p_cqEntries :: u32
  p_sqMask :: u32
  p_cqMask :: u32

datatype entered = Done iouring "byte list" | EINTR iouring "byte list" | Errno

record kernel =
  k_setup :: "ring_params option"
  k_enter :: "u32 \<Rightarrow> u32 \<Rightarrow> iouring \<Rightarrow> byte list \<Rightarrow> entered"

section \<open>newIORing\<close>

definition zero_sqe :: sqe where
  "zero_sqe = \<lparr>se_op = OP_NOP, se_off = 0, se_buf = [], se_len = 0, se_user = 0\<rparr>"

definition zero_cqe :: cqe where
  "zero_cqe = \<lparr>ce_user = 0, ce_res = 0\<rparr>"

definition newIORing :: "kernel \<Rightarrow> iouring res" where
  "newIORing k =
     (case k_setup k of
        None \<Rightarrow> Inl ErrRing
      | Some p \<Rightarrow>
          Inr \<lparr>r_sqes = replicate (unat (p_sqEntries p)) zero_sqe,
               r_cqes = replicate (unat (p_cqEntries p)) zero_cqe,
               r_sqHead = 0, r_sqTail = 0, r_sqMask = p_sqMask p, r_sqEntries = p_sqEntries p,
               r_cqHead = 0, r_cqTail = 0, r_cqMask = p_cqMask p,
               r_offset = 0, r_sqLocalTail = 0,
               r_writeBufs = replicate iouringDepth None, r_wbHead = 0, r_wbTail = 0\<rparr>)"

section \<open>reap\<close>

text \<open>
  The inner loop.  The entry it reads is the one at \<open>head\<close> in every round: the
  index does not move with \<open>i\<close>.
\<close>

text \<open>A completed write drops the reference to its buffer.\<close>

definition reap_mark :: "cqe \<Rightarrow> iouring \<Rightarrow> iouring" where
  "reap_mark cqe r =
     (let idx = uint (ce_user cqe AND 0x7fffffff) - 1 in
      if 0 \<le> idx \<and> idx < int (length (r_writeBufs r))
      then r\<lparr>r_writeBufs := (r_writeBufs r)[nat idx := None], r_wbHead := r_wbHead r + 1\<rparr>
      else r)"

fun reap_cqes :: "nat \<Rightarrow> u32 \<Rightarrow> u32 \<Rightarrow> iouring \<Rightarrow> iouring \<times> goerr option" where
  "reap_cqes 0 i head r = (r, None)"
| "reap_cqes (Suc n) i head r =
     (let slot = unat (head AND r_cqMask r) in
      if length (r_cqes r) \<le> slot then (r, Some (Panic SliceBounds))
      else
        (let cqe = r_cqes r ! slot in
         if ce_res cqe <s 0 then (r\<lparr>r_cqHead := head + i + 1\<rparr>, Some ErrRing)
         else reap_cqes n (i + 1) head (reap_mark cqe r)))"

text \<open>The entries between \<open>head\<close> and the tail, at most \<open>count\<close> of them.\<close>

definition reap_some :: "nat \<Rightarrow> u32 \<Rightarrow> iouring \<Rightarrow> iouring \<times> nat \<times> goerr option" where
  "reap_some cnt head r =
     (let n = min (unat (r_cqTail r - head)) cnt in
      case reap_cqes n 0 head r of
        (r1, Some err) \<Rightarrow> (r1, cnt, Some err)
      | (r1, None) \<Rightarrow> (r1\<lparr>r_cqHead := head + of_nat n\<rparr>, cnt - n, None))"

type_synonym ring_run = "((iouring \<times> byte list) \<times> goerr option) option"

partial_function (option) reap :: "kernel \<Rightarrow> nat \<Rightarrow> iouring \<Rightarrow> byte list \<Rightarrow> ring_run" where
  "reap k cnt r f =
     (if cnt = 0 then Some ((r, f), None)
      else if r_cqHead r = r_cqTail r then
        (case k_enter k 0 (of_nat cnt) r f of
           Errno \<Rightarrow> Some ((r, f), Some ErrRing)
         | EINTR r1 f1 \<Rightarrow> reap k cnt r1 f1
         | Done r1 f1 \<Rightarrow>
             (case reap_some cnt (r_cqHead r) r1 of
                (r2, c, Some err) \<Rightarrow> Some ((r2, f1), Some err)
              | (r2, c, None) \<Rightarrow> reap k c r2 f1))
      else
        (case reap_some cnt (r_cqHead r) r of
           (r2, c, Some err) \<Rightarrow> Some ((r2, f), Some err)
         | (r2, c, None) \<Rightarrow> reap k c r2 f))"

section \<open>flush, submitWrite, close\<close>

definition ring_flush :: "kernel \<Rightarrow> iouring \<Rightarrow> byte list \<Rightarrow> ring_run" where
  "ring_flush k r f =
     (let toSubmit = r_sqTail r - r_sqHead r in
      if toSubmit = 0 then Some ((r, f), None)
      else
        (case k_enter k toSubmit toSubmit r f of
           Errno \<Rightarrow> Some ((r, f), Some ErrRing)
         | EINTR r1 f1 \<Rightarrow> Some ((r1, f1), Some ErrRing)
         | Done r1 f1 \<Rightarrow> reap k (unat toSubmit) r1 f1))"

text \<open>The two entries \<open>submitWrite\<close> queues: the write and the sync that should follow it.\<close>

definition ring_push :: "iouring \<Rightarrow> byte list \<Rightarrow> iouring res" where
  "ring_push r bytes =
     (let idx = r_wbTail r mod length (r_writeBufs r);
          r1 = r\<lparr>r_writeBufs := (r_writeBufs r)[idx := Some bytes], r_wbTail := r_wbTail r + 1\<rparr>;
          userData = of_nat (idx + 1);
          slot = unat (r_sqLocalTail r AND r_sqMask r);
          slot2 = unat ((r_sqLocalTail r + 1) AND r_sqMask r) in
      if bytes = [] then Inl (Panic IndexRange)
      else if length (r_sqes r) \<le> slot \<or> length (r_sqes r) \<le> slot2 then Inl (Panic IndexRange)
      else
        Inr (r1\<lparr>r_sqes := (r_sqes r)
                   [slot := \<lparr>se_op = OP_WRITE, se_off = r_offset r, se_buf = bytes,
                            se_len = of_nat (length bytes), se_user = userData\<rparr>,
                    slot2 := \<lparr>se_op = OP_FSYNC, se_off = 0, se_buf = [], se_len = 0,
                             se_user = userData OR 0x80000000\<rparr>],
                r_sqLocalTail := r_sqLocalTail r + 2,
                r_sqTail := r_sqLocalTail r + 2,
                r_offset := r_offset r + of_nat (length bytes)\<rparr>))"

definition submitWrite :: "kernel \<Rightarrow> iouring \<Rightarrow> byte list \<Rightarrow> byte list \<Rightarrow> ring_run" where
  "submitWrite k r f bytes =
     (let submitted = r_sqLocalTail r - r_sqHead r in
      case (if r_sqEntries r < submitted + 2 then ring_flush k r f else Some ((r, f), None)) of
        None \<Rightarrow> None
      | Some ((r1, f1), Some err) \<Rightarrow> Some ((r1, f1), Some err)
      | Some ((r1, f1), None) \<Rightarrow>
          (case ring_push r1 bytes of
             Inl err \<Rightarrow> Some ((r1, f1), Some err)
           | Inr r2 \<Rightarrow> Some ((r2, f1), None)))"

text \<open>\<open>close\<close> flushes, ignoring the error, and unmaps the rings; what stays is the file.\<close>

definition ring_close :: "kernel \<Rightarrow> iouring \<Rightarrow> byte list \<Rightarrow> byte list option" where
  "ring_close k r f = (case ring_flush k r f of None \<Rightarrow> None | Some ((r1, f1), err) \<Rightarrow> Some f1)"

section \<open>Other platforms\<close>

text \<open>
  \<open>io_uring_stub.go\<close>: without Linux there is no ring and every operation is an error
  but \<open>close\<close>.  A log on such a platform is the log over a kernel that has no
  io_uring.
\<close>

definition stub_newIORing :: "unit res" where
  "stub_newIORing = Inl ErrRing"

definition stub_submitWrite :: "byte list \<Rightarrow> goerr option" where
  "stub_submitWrite bytes = Some ErrRing"

definition stub_flush :: "goerr option" where
  "stub_flush = Some ErrRing"

definition stub_close :: "unit \<Rightarrow> unit" where
  "stub_close r = r"

lemma stub_is_no_kernel: "k_setup k = None \<Longrightarrow> newIORing k = (case stub_newIORing of Inl e \<Rightarrow> Inl e | Inr _ \<Rightarrow> newIORing k)"
  by (simp add: newIORing_def stub_newIORing_def)

section \<open>Properties of the ring\<close>

text \<open>
  The ring's invariant: the tail the kernel sees is the local one, no more
  entries are queued than there are slots, and the mask selects a slot.
\<close>

definition ring_wf :: "iouring \<Rightarrow> bool" where
  "ring_wf r \<longleftrightarrow>
     r_sqTail r = r_sqLocalTail r \<and> length (r_sqes r) = unat (r_sqEntries r)
     \<and> 0 < r_sqEntries r \<and> r_sqMask r = r_sqEntries r - 1
     \<and> length (r_writeBufs r) = iouringDepth
     \<and> unat (r_sqTail r - r_sqHead r) \<le> unat (r_sqEntries r)"

definition ring_room :: "iouring \<Rightarrow> bool" where
  "ring_room r \<longleftrightarrow> \<not> r_sqEntries r < r_sqLocalTail r - r_sqHead r + 2"

lemma newIORing_wf:
  assumes "newIORing k = Inr r" "k_setup k = Some p" "0 < p_sqEntries p" "p_sqMask p = p_sqEntries p - 1"
  shows "ring_wf r"
  using assms by (auto simp: newIORing_def ring_wf_def)

lemma slot_in_range:
  assumes "ring_wf r"
  shows "unat (x AND r_sqMask r) < length (r_sqes r)"
proof -
  have "unat (x AND r_sqMask r) \<le> unat (r_sqMask r)"
    using word_and_le1 [of x "r_sqMask r"] by (simp add: word_le_nat_alt)
  also have "unat (r_sqMask r) < unat (r_sqEntries r)"
  proof -
    have "r_sqEntries r \<noteq> 0" "0 < unat (r_sqEntries r)"
      using assms by (auto simp: ring_wf_def word_less_nat_alt)
    then show ?thesis using assms unat_minus_one [of "r_sqEntries r"] by (simp add: ring_wf_def)
  qed
  finally show ?thesis using assms by (simp add: ring_wf_def)
qed

lemma ring_push_total:
  assumes "ring_wf r" "bytes \<noteq> []"
  shows "\<exists>r'. ring_push r bytes = Inr r' \<and> r_sqHead r' = r_sqHead r \<and> r_sqTail r' = r_sqLocalTail r + 2
     \<and> r_offset r' = r_offset r + of_nat (length bytes)"
  using assms slot_in_range [OF assms(1), of "r_sqLocalTail r"]
    slot_in_range [OF assms(1), of "r_sqLocalTail r + 1"]
  by (simp add: ring_push_def Let_def not_le)

lemma ring_push_wf:
  assumes "ring_wf r" "ring_room r" "ring_push r bytes = Inr r'"
  shows "ring_wf r'"
proof -
  define d where "d = r_sqLocalTail r - r_sqHead r"
  have d: "r_sqLocalTail r + 2 - r_sqHead r = d + 2" by (simp add: d_def)
  have "d + 2 \<le> r_sqEntries r"
    using assms(2) by (simp add: ring_room_def d_def not_less)
  then have "unat (r_sqLocalTail r + 2 - r_sqHead r) \<le> unat (r_sqEntries r)"
    unfolding d by (simp only: word_le_nat_alt)
  then show ?thesis
    using assms(1,3) by (auto simp: ring_wf_def ring_push_def Let_def split: if_splits)
qed

text \<open>A write for which the ring has room is only queued: the file does not change.\<close>

lemma submitWrite_queues:
  assumes "ring_wf r" "ring_room r" "bytes \<noteq> []"
  shows "\<exists>r'. submitWrite k r f bytes = Some ((r', f), None) \<and> ring_wf r'"
proof -
  obtain r' where r': "ring_push r bytes = Inr r'" using ring_push_total [OF assms(1,3)] by blast
  have "\<not> r_sqEntries r < r_sqLocalTail r - r_sqHead r + 2" using assms(2) by (simp add: ring_room_def)
  with r' show ?thesis
    using ring_push_wf [OF assms(1,2) r'] by (simp add: submitWrite_def Let_def)
qed

text \<open>
  Only the completion at \<open>head\<close> is looked at: when it succeeded, the batch
  counts as reaped whatever the others say.
\<close>

lemma reap_mark_simps [simp]:
  "r_cqes (reap_mark c r) = r_cqes r" "r_cqMask (reap_mark c r) = r_cqMask r"
  "r_cqTail (reap_mark c r) = r_cqTail r" "r_sqHead (reap_mark c r) = r_sqHead r"
  "r_sqTail (reap_mark c r) = r_sqTail r"
  by (simp_all add: reap_mark_def Let_def)

lemma reap_cqes_first:
  assumes "unat (head AND r_cqMask r) < length (r_cqes r)"
    and "\<not> ce_res (r_cqes r ! unat (head AND r_cqMask r)) <s 0"
  shows "snd (reap_cqes n i head r) = None \<and> r_cqes (fst (reap_cqes n i head r)) = r_cqes r
     \<and> r_cqTail (fst (reap_cqes n i head r)) = r_cqTail r
     \<and> r_sqHead (fst (reap_cqes n i head r)) = r_sqHead r \<and> r_sqTail (fst (reap_cqes n i head r)) = r_sqTail r"
  using assms
proof (induction n arbitrary: i r)
  case (Suc n)
  let ?r = "reap_mark (r_cqes r ! unat (head AND r_cqMask r)) r"
  have eq: "reap_cqes (Suc n) i head r = reap_cqes n (i + 1) head ?r"
    using Suc.prems by (simp add: Let_def not_le)
  show ?case using Suc.IH [of ?r "i + 1"] Suc.prems unfolding eq by simp
qed simp

lemma reap_done:
  assumes "0 < cnt" "unat (r_cqTail r - r_cqHead r) = cnt"
    and "unat (r_cqHead r AND r_cqMask r) < length (r_cqes r)"
    and "\<not> ce_res (r_cqes r ! unat (r_cqHead r AND r_cqMask r)) <s 0"
  shows "\<exists>r'. reap k cnt r f = Some ((r', f), None) \<and> r_sqHead r' = r_sqHead r \<and> r_sqTail r' = r_sqTail r"
proof -
  obtain r1 where r1: "reap_cqes cnt 0 (r_cqHead r) r = (r1, None)" "r_sqHead r1 = r_sqHead r" "r_sqTail r1 = r_sqTail r"
    using reap_cqes_first [OF assms(3,4), of cnt 0] by (metis prod.collapse)
  have "r_cqHead r \<noteq> r_cqTail r" using assms(1,2) by auto
  moreover have "reap_some cnt (r_cqHead r) r = (r1\<lparr>r_cqHead := r_cqHead r + of_nat cnt\<rparr>, 0, None)"
    using r1(1) assms(2) by (simp add: reap_some_def Let_def)
  ultimately show ?thesis
    using assms(1) r1(2,3) by (subst reap.simps) (simp add: reap.simps [of _ 0])
qed

end
