(* ===== verification/WAL.thy ===== *)
theory WAL
  imports EntryCodec GoOS IOUring
begin

text \<open>
  The write-ahead log of \<open>internal/wal/wal.go\<close>: the format of a batch, the log
  with its growing shared mapping and its four sync modes, the goroutine of the
  asynchronous mode, and replay.  The mapping is shared and as long as the
  file, so its bytes are the file's: \<open>wa_file\<close> is what another process, or the
  next one, would see.  \<open>wa_synced\<close> is the file as of the last sync that
  succeeded, what a power failure is sure to leave.
\<close>

section \<open>State\<close>

datatype sync_mode = SyncAlways | SyncPeriodic | SyncAsync | SyncIouring

definition walVersion :: byte where "walVersion = 1"
definition wal_initialMmapSize :: nat where "wal_initialMmapSize = 64 * 2 ^ 20"

text \<open>
  \<open>wa_map\<close> is the length of \<open>w.mmap\<close>, \<open>None\<close> for nil; \<open>wa_live\<close> is false once
  its memory has been unmapped.  \<open>wa_signal\<close> is the one slot of \<open>asyncCh\<close>,
  \<open>wa_chClosed\<close> that it has been closed, \<open>wa_dirty\<close> the local variable of the
  goroutine and \<open>wa_done\<close> that it has returned.
\<close>

record wal =
  wa_path :: gostr
  wa_file :: "byte list"
  wa_synced :: "byte list"
  wa_open :: bool
  wa_map :: "nat option"
  wa_live :: bool
  wa_writeAt :: nat
  wa_mode :: sync_mode
  wa_pending :: nat
  wa_signal :: bool
  wa_chClosed :: bool
  wa_dirty :: bool
  wa_done :: bool
  wa_flushErr :: bool
  wa_ring :: "iouring option"

definition map_len :: "wal \<Rightarrow> nat" where
  "map_len w = (case wa_map w of None \<Rightarrow> 0 | Some n \<Rightarrow> n)"

section \<open>New\<close>

definition wal_init :: "gostr \<Rightarrow> sync_mode \<Rightarrow> byte list \<Rightarrow> nat \<Rightarrow> wal" where
  "wal_init path mode file fileSize =
     \<lparr>wa_path = path, wa_file = file, wa_synced = [], wa_open = True,
      wa_map = Some (length file), wa_live = True, wa_writeAt = fileSize, wa_mode = mode,
      wa_pending = 0, wa_signal = False, wa_chClosed = False, wa_dirty = False, wa_done = False,
      wa_flushErr = False, wa_ring = None\<rparr>"

text \<open>
  When the ring cannot be made, the error path closes a log that has no ring,
  and \<open>Close\<close> reads through the nil pointer.
\<close>

definition wal_New :: "os \<Rightarrow> kernel \<Rightarrow> gostr \<Rightarrow> sync_mode \<Rightarrow> (wal, fs) prog" where
  "wal_New os k path mode =
     andthen (need (os (OsOpen path)) ErrOS) (\<lambda>_.
     andthen (asks (\<lambda>fs. Inr (case map_of fs path of None \<Rightarrow> [] | Some d \<Rightarrow> d))) (\<lambda>old.
     andthen (update (AList.update path old)) (\<lambda>_.
     andthen (need (os (OsStat path)) (Panic NilDeref)) (\<lambda>_.
     andthen (if old = [] then andthen (need (os (OsWrite path)) ErrOS) (\<lambda>_. update (AList.update path [walVersion]))
              else need (mode \<noteq> SyncIouring) ErrExistingWAL) (\<lambda>_.
     (let data = (if old = [] then [walVersion] else old);
          mmapLen = (if length data \<le> 1 then wal_initialMmapSize else length data) in
     andthen (need (os (OsTruncate path mmapLen)) ErrOS) (\<lambda>_.
     andthen (update (AList.update path (resize mmapLen data))) (\<lambda>_.
     andthen (need (os (OsMmap path mmapLen)) ErrOS) (\<lambda>_.
     (let w = wal_init path mode (resize mmapLen data) (length data) in
      if mode = SyncIouring then
        (case newIORing k of
           Inl _ \<Rightarrow> raise (Panic NilDeref)
         | Inr r \<Rightarrow> ret (w\<lparr>wa_ring := Some r\<rparr>))
      else ret w))))))))))"

section \<open>The batch format\<close>

definition batch_data :: "entry list \<Rightarrow> byte list" where
  "batch_data es = concat (map entry_fields es)"

definition serializeEntries :: "entry list \<Rightarrow> byte list" where
  "serializeEntries es =
     put_uvarint (of_nat (length es)) @ put_u32 (crc32 (batch_data es)) @ batch_data es"

text \<open>The sizes from which the buffer's capacity is computed.\<close>

function uvarint_count7 :: "u64 \<Rightarrow> nat" where
  "uvarint_count7 v = (if v = 0 then 0 else uvarint_count7 (drop_bit 7 v) + 1)"
  by pat_completeness auto
termination
proof (relation "measure unat")
  fix v :: u64
  assume "v \<noteq> 0"
  then have "0 < unat v" by (simp add: unat_gt_0)
  then show "(drop_bit 7 v, v) \<in> measure unat" by (simp add: unat_drop7)
qed simp

declare uvarint_count7.simps [simp del]

definition uvarintSize :: "u64 \<Rightarrow> nat" where
  "uvarintSize v = (if v = 0 then 1 else uvarint_count7 v)"

definition varintSize :: "i64 \<Rightarrow> nat" where
  "varintSize v = (let uv = push_bit 1 v in uvarintSize (if v <s 0 then NOT uv else uv))"

definition batch_total :: "entry list \<Rightarrow> nat" where
  "batch_total es =
     sum_list (map (\<lambda>e. length (e_key e) + length (e_val e) + 16
       + uvarintSize (of_nat (length (e_key e))) + uvarintSize (of_nat (length (e_val e)))
       + varintSize (e_ts e) + 1) es)"

section \<open>Appending\<close>

text \<open>
  \<open>newSize := len(w.mmap) * 2; for newSize < need { newSize *= 2 }\<close>.  The loop is
  on Go's \<open>int\<close>, a signed word of the platform's width: \<open>grow_loop\<close>.  The log
  uses \<open>grow_size\<close>, the same loop on sizes that do not wrap around; \<open>WALLog\<close> shows
  that they agree up to a quarter of the range, \<open>2 ^ 62\<close> bytes on 64-bit platforms.
  From 0 neither ends.
\<close>

partial_function (option) grow_loop :: "'w::len word \<Rightarrow> 'w word \<Rightarrow> 'w word option" where
  "grow_loop newSize target = (if newSize <s target then grow_loop (newSize * 2) target else Some newSize)"

partial_function (option) grow_size :: "nat \<Rightarrow> nat \<Rightarrow> nat option" where
  "grow_size c target = (if c < target then grow_size (c * 2) target else Some c)"

definition wal_grow :: "os \<Rightarrow> wal \<Rightarrow> nat \<Rightarrow> wal \<times> goerr option" where
  "wal_grow os w target =
     (case grow_size (map_len w * 2) target of
        None \<Rightarrow> (w, Some Hang)
      | Some newSize \<Rightarrow>
          if \<not> wa_live w \<or> \<not> os (OsMunmap (wa_path w)) then (w, Some ErrOS)
          else
            (let w1 = w\<lparr>wa_live := False\<rparr> in
             if \<not> os (OsTruncate (wa_path w) newSize) then (w1, Some ErrOS)
             else
               (let w2 = w1\<lparr>wa_file := resize newSize (wa_file w)\<rparr> in
                if \<not> os (OsMmap (wa_path w) newSize) then (w2, Some ErrOS)
                else (w2\<lparr>wa_map := Some newSize, wa_live := True\<rparr>, None))))"

definition wal_copy :: "wal \<Rightarrow> byte list \<Rightarrow> wal \<times> goerr option" where
  "wal_copy w buf =
     (if \<not> wa_live w then (w, Some (Panic NilDeref))
      else case copy_at (wa_file w) (wa_writeAt w) buf of
        Inl err \<Rightarrow> (w, Some err)
      | Inr f \<Rightarrow> (w\<lparr>wa_file := f, wa_writeAt := wa_writeAt w + min (length buf) (length (wa_file w) - wa_writeAt w)\<rparr>,
                 None))"

definition writeToMmap :: "os \<Rightarrow> wal \<Rightarrow> byte list \<Rightarrow> wal \<times> goerr option" where
  "writeToMmap os w buf =
     (let target = wa_writeAt w + length buf in
      if map_len w < target then
        (case wal_grow os w target of
           (w1, Some err) \<Rightarrow> (w1, Some err)
         | (w1, None) \<Rightarrow> wal_copy w1 buf)
      else wal_copy w buf)"

definition syncFile :: "os \<Rightarrow> wal \<Rightarrow> wal \<times> goerr option" where
  "syncFile os w =
     (if os (OsSync (wa_path w)) then (w\<lparr>wa_synced := wa_file w\<rparr>, None) else (w, Some ErrOS))"

definition wal_AppendRaw :: "os \<Rightarrow> kernel \<Rightarrow> wal \<Rightarrow> byte list \<Rightarrow> wal \<times> goerr option" where
  "wal_AppendRaw os k w buf =
     (case wa_mode w of
        SyncIouring \<Rightarrow>
          (case wa_ring w of
             None \<Rightarrow> (w, Some (Panic NilDeref))
           | Some r \<Rightarrow>
               (case submitWrite k r (wa_file w) buf of
                  None \<Rightarrow> (w, Some Hang)
                | Some ((r1, f1), err) \<Rightarrow> (w\<lparr>wa_ring := Some r1, wa_file := f1\<rparr>, err)))
      | SyncAsync \<Rightarrow>
          (case writeToMmap os w buf of
             (w1, Some err) \<Rightarrow> (w1, Some err)
           | (w1, None) \<Rightarrow>
               if wa_chClosed w1 then (w1, Some (Panic ClosedChan))
               else (w1\<lparr>wa_signal := True\<rparr>, if wa_flushErr w1 then Some ErrOS else None))
      | SyncPeriodic \<Rightarrow>
          (case writeToMmap os w buf of
             (w1, Some err) \<Rightarrow> (w1, Some err)
           | (w1, None) \<Rightarrow>
               (let w2 = w1\<lparr>wa_pending := wa_pending w1 + 1\<rparr> in
                if 100 \<le> wa_pending w2 then syncFile os (w2\<lparr>wa_pending := 0\<rparr>) else (w2, None)))
      | SyncAlways \<Rightarrow>
          (case writeToMmap os w buf of
             (w1, Some err) \<Rightarrow> (w1, Some err)
           | (w1, None) \<Rightarrow> syncFile os w1))"

definition wal_AppendBatch :: "os \<Rightarrow> kernel \<Rightarrow> wal \<Rightarrow> entry list \<Rightarrow> wal \<times> goerr option" where
  "wal_AppendBatch os k w es = wal_AppendRaw os k w (serializeEntries es)"

definition wal_Append :: "os \<Rightarrow> kernel \<Rightarrow> wal \<Rightarrow> entry \<Rightarrow> wal \<times> goerr option" where
  "wal_Append os k w e = wal_AppendBatch os k w [e]"

section \<open>The asynchronous writer\<close>

definition aw_flush :: "os \<Rightarrow> wal \<Rightarrow> wal" where
  "aw_flush os w = (case syncFile os w of (w1, None) \<Rightarrow> w1 | (w1, Some _) \<Rightarrow> w1\<lparr>wa_flushErr := True\<rparr>)"

definition aw_recv :: "wal \<Rightarrow> wal" where
  "aw_recv w = w\<lparr>wa_signal := False, wa_dirty := True\<rparr>"

definition aw_tick :: "os \<Rightarrow> wal \<Rightarrow> wal" where
  "aw_tick os w = (if wa_dirty w then (aw_flush os w)\<lparr>wa_dirty := False\<rparr> else w)"

definition aw_stop :: "os \<Rightarrow> wal \<Rightarrow> wal" where
  "aw_stop os w = (if wa_dirty w then aw_flush os w else w)\<lparr>wa_done := True\<rparr>"

text \<open>
  One round of the goroutine's \<open>select\<close>: a token, the closed and empty channel,
  or the ticker.
\<close>

inductive aw_step :: "os \<Rightarrow> wal \<Rightarrow> wal \<Rightarrow> bool" for os where
  aw_recv: "\<not> wa_done w \<Longrightarrow> wa_signal w \<Longrightarrow> aw_step os w (aw_recv w)"
| aw_stop: "\<not> wa_done w \<Longrightarrow> \<not> wa_signal w \<Longrightarrow> wa_chClosed w \<Longrightarrow> aw_step os w (aw_stop os w)"
| aw_tick: "\<not> wa_done w \<Longrightarrow> aw_step os w (aw_tick os w)"

section \<open>Replay\<close>

definition read_fields :: "byte list \<Rightarrow> (entry \<times> byte list) option res" where
  "read_fields buf =
     bindo (read_str buf) (\<lambda>(key, r1).
     bindo (read_str r1) (\<lambda>(val, r2).
     bindo (read_ts r2) (\<lambda>(ts, r3).
       (case r3 of [] \<Rightarrow> Inr None
        | t # r4 \<Rightarrow> Inr (Some (\<lparr>e_key = key, e_val = val, e_ts = ts, e_tomb = (t = 1)\<rparr>, r4))))))"

fun replay_batch :: "nat \<Rightarrow> byte list \<Rightarrow> (entry list \<times> byte list) option res" where
  "replay_batch 0 buf = Inr (Some ([], buf))"
| "replay_batch (Suc n) buf =
     bindo (read_fields buf) (\<lambda>(e, r).
     bindo (replay_batch n r) (\<lambda>(es, r'). Inr (Some (e # es, r'))))"

lemma read_fields_shrinks: "read_fields buf = Inr (Some (e, r)) \<Longrightarrow> length r < length buf"
  unfolding read_fields_def
  by (fastforce elim!: bindo_SomeE dest: read_str_shrinks read_ts_shrinks split: list.splits)

lemma replay_batch_shrinks: "replay_batch n buf = Inr (Some (es, r)) \<Longrightarrow> length r \<le> length buf"
proof (induction n arbitrary: buf es)
  case (Suc n)
  then show ?case by (fastforce elim!: bindo_SomeE dest: read_fields_shrinks)
qed simp

text \<open>
  \<open>make([]memtable.Entry, 0, numEntries)\<close> panics when the capacity exceeds the
  address space: an entry takes 48 bytes, and the limit of 64-bit platforms is
  \<open>2 ^ 48\<close>.
\<close>

function replay_loop :: "byte list \<Rightarrow> entry list res" where
  "replay_loop buf =
     (if buf = [] then Inr []
      else case uvarint buf of (numEntries, n) \<Rightarrow>
        if n \<le> 0 then Inr []
        else
          (let b1 = drop (nat n) buf in
           if length b1 < 4 then Inr []
           else
             bindr (get_u32 (take 4 b1)) (\<lambda>storedCRC.
               (let start = drop 4 b1 in
                if 2 ^ 48 < unat numEntries * 48 then Inl (Panic MakeLen)
                else case replay_batch (unat numEntries) start of
                  Inl err \<Rightarrow> Inl err
                | Inr None \<Rightarrow> Inr []
                | Inr (Some (es, r)) \<Rightarrow>
                    if crc32 (take (length start - length r) start) \<noteq> storedCRC then Inr []
                    else bindr (replay_loop r) (\<lambda>rest. Inr (es @ rest))))))"
  by pat_completeness auto
termination
  by (relation "measure length") (auto dest!: replay_batch_shrinks)

declare replay_loop.simps [simp del]

definition wal_body :: "byte list \<Rightarrow> byte list" where
  "wal_body buf = (case buf of [] \<Rightarrow> [] | b # bs \<Rightarrow> if b = walVersion then bs else buf)"

definition wal_Replay :: "wal \<Rightarrow> entry list res" where
  "wal_Replay w =
     bindr (slice (take (map_len w) (wa_file w)) 0 (int (wa_writeAt w))) (\<lambda>buf.
       if \<not> wa_live w then Inl (Panic NilDeref) else replay_loop (wal_body buf))"

section \<open>Reset and Close\<close>

definition ring_shut :: "kernel \<Rightarrow> wal \<Rightarrow> byte list res" where
  "ring_shut k w =
     (case wa_ring w of
        None \<Rightarrow> Inl (Panic NilDeref)
      | Some r \<Rightarrow> (case ring_close k r (wa_file w) of None \<Rightarrow> Inl Hang | Some f \<Rightarrow> Inr f))"

text \<open>The second half of \<open>Reset\<close>, once the old mapping and the old ring are gone.\<close>

definition wal_renew :: "os \<Rightarrow> kernel \<Rightarrow> wal \<Rightarrow> wal \<times> goerr option" where
  "wal_renew os k w =
     (let path = wa_path w in
      if \<not> os (OsTruncate path 0) then (w, Some ErrOS)
      else
        (let w1 = w\<lparr>wa_file := []\<rparr> in
         if \<not> os (OsSeek path) then (w1, Some ErrOS)
         else if \<not> os (OsWrite path) then (w1, Some ErrOS)
         else
           (let w2 = w1\<lparr>wa_file := [walVersion]\<rparr> in
            if \<not> os (OsTruncate path wal_initialMmapSize) then (w2, Some ErrOS)
            else
              (let w3 = w2\<lparr>wa_file := resize wal_initialMmapSize [walVersion]\<rparr> in
               if \<not> os (OsMmap path wal_initialMmapSize) then (w3, Some ErrOS)
               else
                 (let w4 = w3\<lparr>wa_map := Some wal_initialMmapSize, wa_live := True, wa_writeAt := 1\<rparr> in
                  if wa_mode w = SyncIouring then
                    (case newIORing k of
                       Inl err \<Rightarrow> (w4, Some err)
                     | Inr r \<Rightarrow> (w4\<lparr>wa_ring := Some r\<rparr>, None))
                  else (w4, None))))))"

definition wal_Reset :: "os \<Rightarrow> kernel \<Rightarrow> wal \<Rightarrow> wal \<times> goerr option" where
  "wal_Reset os k w =
     (if wa_map w = None \<or> \<not> wa_live w \<or> \<not> os (OsMunmap (wa_path w)) then (w, Some ErrOS)
      else
        (let w1 = w\<lparr>wa_map := None, wa_live := False\<rparr> in
         if wa_mode w = SyncIouring then
           (case ring_shut k w1 of
              Inl err \<Rightarrow> (w1, Some err)
            | Inr f \<Rightarrow> wal_renew os k (w1\<lparr>wa_file := f\<rparr>))
         else wal_renew os k w1))"

text \<open>Waiting for the asynchronous writer: it takes the token that is left, then stops.\<close>

definition aw_drain :: "os \<Rightarrow> wal \<Rightarrow> wal" where
  "aw_drain os w = aw_stop os (if wa_signal w then aw_recv w else w)"

definition wal_shut :: "os \<Rightarrow> wal \<Rightarrow> wal \<times> goerr option" where
  "wal_shut os w =
     (let w1 = w\<lparr>wa_map := None, wa_live := False\<rparr> in
      if \<not> wa_open w \<or> \<not> os (OsTruncate (wa_path w) (wa_writeAt w)) then (w1\<lparr>wa_open := False\<rparr>, Some ErrOS)
      else
        (w1\<lparr>wa_file := resize (wa_writeAt w) (wa_file w), wa_open := False\<rparr>,
         if os (OsClose (wa_path w)) then None else Some ErrOS))"

definition wal_Close :: "os \<Rightarrow> kernel \<Rightarrow> wal \<Rightarrow> wal \<times> goerr option" where
  "wal_Close os k w =
     (case wa_mode w of
        SyncAsync \<Rightarrow>
          if wa_chClosed w then (w, Some (Panic ClosedChan))
          else
            (let w1 = aw_drain os (w\<lparr>wa_chClosed := True\<rparr>) in
             if wa_flushErr w1 then (w1, Some ErrOS) else wal_shut os w1)
      | SyncIouring \<Rightarrow>
          (case wa_ring w of
             None \<Rightarrow> (w, Some (Panic NilDeref))
           | Some r \<Rightarrow>
               (case ring_flush k r (wa_file w) of
                  None \<Rightarrow> (w, Some Hang)
                | Some ((r1, f1), _) \<Rightarrow>
                    (let w1 = w\<lparr>wa_ring := Some r1, wa_file := f1\<rparr> in
                     case ring_shut k w1 of
                       Inl err \<Rightarrow> (w1, Some err)
                     | Inr f \<Rightarrow> wal_shut os (w1\<lparr>wa_file := f\<rparr>))))
      | _ \<Rightarrow> wal_shut os w)"

section \<open>The size functions\<close>

lemma uvarint_count7_length: "v \<noteq> 0 \<Longrightarrow> uvarint_count7 v = length (put_uvarint v)"
proof (induction v rule: put_uvarint.induct)
  case (1 v)
  show ?case
  proof (cases "v < 0x80")
    case True
    then have "unat (drop_bit 7 v) = 0" by (simp add: unat_drop7 word_less_nat_alt)
    then have "drop_bit 7 v = 0" by (simp only: unat_eq_0)
    then show ?thesis
      using True "1.prems" by (simp add: uvarint_count7.simps [of v] put_uvarint.simps [of v] uvarint_count7.simps [of 0])
  next
    case False
    then have "128 \<le> unat v" by (simp add: word_less_nat_alt)
    then have "unat (drop_bit 7 v) \<noteq> 0" by (simp add: unat_drop7)
    then have "drop_bit 7 v \<noteq> 0" by (metis unat_0)
    with "1.IH" [OF False] show ?thesis
      using False "1.prems" by (simp add: uvarint_count7.simps [of v] put_uvarint.simps [of v])
  qed
qed

lemma uvarintSize_length: "uvarintSize v = length (put_uvarint v)"
  using uvarint_count7_length [of v] by (simp add: uvarintSize_def put_uvarint.simps [of 0])

lemma varintSize_length: "varintSize t = length (put_varint t)"
  by (simp add: varintSize_def put_varint_def zigzag_def uvarintSize_length Let_def)

lemma entry_fields_length:
  "length (entry_fields e) = length (e_key e) + length (e_val e)
     + uvarintSize (of_nat (length (e_key e))) + uvarintSize (of_nat (length (e_val e)))
     + varintSize (e_ts e) + 1"
  by (simp add: entry_fields_def uvarintSize_length varintSize_length)

text \<open>The capacity is enough: building the buffer never reallocates it.\<close>

lemma serializeEntries_capacity: "length (serializeEntries es) \<le> batch_total es + 8"
proof -
  have d: "length (batch_data es) + 16 * length es = batch_total es"
    by (induction es) (simp_all add: batch_data_def batch_total_def entry_fields_length)
  show ?thesis
  proof (cases es)
    case Nil
    then show ?thesis by (simp add: serializeEntries_def batch_data_def put_uvarint.simps)
  next
    case (Cons x xs)
    have "length (put_uvarint (of_nat (length es))) \<le> 10" by (rule put_uvarint_length)
    with d Cons show ?thesis by (simp add: serializeEntries_def)
  qed
qed

section \<open>Replaying what was serialised\<close>

lemma read_fields_entry:
  assumes "entry_fits e"
  shows "read_fields (entry_fields e @ rest) = Inr (Some (e, rest))"
  using assms by (simp add: read_fields_def entry_fields_def entry_fits_def bool_byte_def)

lemma read_fields_cut:
  assumes "entry_fits e" "m < length (entry_fields e)"
  shows "read_fields (take m (entry_fields e)) = Inr None"
proof -
  have fit: "length (e_key e) < 2 ^ 63" "length (e_val e) < 2 ^ 63"
    using assms(1) by (simp_all add: entry_fits_def)
  note whole = read_str_put [OF fit(1)] read_str_put [OF fit(2)]
  note cut = read_str_cut [OF fit(1)] read_str_cut [OF fit(2)]
  have fields: "entry_fields e = (put_uvarint (of_nat (length (e_key e))) @ e_key e)
      @ ((put_uvarint (of_nat (length (e_val e))) @ e_val e) @ (put_varint (e_ts e) @ [bool_byte (e_tomb e)]))"
    by (simp add: entry_fields_def)
  show ?thesis
    using assms(2) unfolding fields read_fields_def
    apply (rule bindo_cut)
      apply (simp add: whole)
     apply (erule cut)
    apply (erule bindo_cut)
      apply (simp add: whole)
     apply (erule cut)
    apply (erule bindo_cut)
      apply simp
     apply (erule read_ts_cut)
    apply simp
    done
qed

lemma replay_batch_all:
  "\<forall>e\<in>set es. entry_fits e \<Longrightarrow> replay_batch (length es) (batch_data es @ rest) = Inr (Some (es, rest))"
proof (induction es)
  case (Cons e es)
  then show ?case
    using read_fields_entry [of e "batch_data es @ rest"] by (simp add: batch_data_def)
qed (simp add: batch_data_def)

lemma replay_batch_cut:
  "\<forall>e\<in>set es. entry_fits e \<Longrightarrow> m < length (batch_data es) \<Longrightarrow>
     replay_batch (length es) (take m (batch_data es)) = Inr None"
proof (induction es arbitrary: m)
  case (Cons e es)
  have d: "batch_data (e # es) = entry_fields e @ batch_data es" by (simp add: batch_data_def)
  have fit: "entry_fits e" using Cons.prems by simp
  have "bindo (read_fields (take m (entry_fields e @ batch_data es)))
      (\<lambda>(x, r). bindo (replay_batch (length es) r) (\<lambda>(es, r'). Inr (Some (x # es, r')))) = Inr None"
  proof (rule bindo_cut)
    show "m < length (entry_fields e @ batch_data es)" using Cons.prems(2) d by simp
    show "read_fields (entry_fields e @ r) = Inr (Some (e, r))" for r
      by (rule read_fields_entry [OF fit])
    show "read_fields (take m (entry_fields e)) = Inr None" if "m < length (entry_fields e)" for m
      by (rule read_fields_cut [OF fit that])
    show "bindo (replay_batch (length es) (take m (batch_data es))) (\<lambda>(es, r'). Inr (Some (e # es, r'))) = Inr None"
      if "m < length (batch_data es)" for m
      using Cons.IH [OF _ that] Cons.prems(1) by simp
  qed
  then show ?case by (simp only: d list.size add_Suc_right add_0_right replay_batch.simps)
qed (simp add: batch_data_def)

definition batch_fits :: "entry list \<Rightarrow> bool" where
  "batch_fits es \<longleftrightarrow> (\<forall>e\<in>set es. entry_fits e) \<and> length es * 48 \<le> 2 ^ 48"

lemma batch_fits_count: "batch_fits es \<Longrightarrow> unat (of_nat (length es) :: u64) = length es"
  by (intro unat_of_nat_small) (simp add: batch_fits_def)

lemma replay_loop_Nil [simp]: "replay_loop [] = Inr []"
  by (simp add: replay_loop.simps)

lemma replay_loop_batch:
  assumes "batch_fits es"
  shows "replay_loop (serializeEntries es @ rest) = bindr (replay_loop rest) (\<lambda>ys. Inr (es @ ys))"
proof -
  have "get_u32 (take 4 (put_u32 (crc32 (batch_data es)) @ batch_data es @ rest))
      = Inr (crc32 (batch_data es))"
    using get_put_u32 [of _ "[]"] by simp
  moreover have "replay_batch (length es) (batch_data es @ rest) = Inr (Some (es, rest))"
    using assms by (intro replay_batch_all) (simp add: batch_fits_def)
  ultimately show ?thesis
    using assms batch_fits_count [OF assms]
    by (subst replay_loop.simps) (simp add: serializeEntries_def batch_fits_def Let_def)
qed

text \<open>A batch whose end is missing is dropped as a whole, and so is what precedes no whole batch.\<close>

lemma replay_loop_cut:
  assumes fit: "batch_fits es" and m: "m < length (serializeEntries es)"
  shows "replay_loop (take m (serializeEntries es)) = Inr []"
proof -
  let ?h = "put_uvarint (of_nat (length es) :: u64)"
  let ?b = "put_u32 (crc32 (batch_data es)) @ batch_data es"
  have ser: "serializeEntries es = ?h @ ?b" by (simp add: serializeEntries_def)
  consider "m < length ?h" | "length ?h \<le> m" "m < length ?h + 4" | "length ?h + 4 \<le> m" by linarith
  then show ?thesis
  proof cases
    case 1
    then show ?thesis by (subst replay_loop.simps) (simp add: ser uvarint_cut)
  next
    case 2
    then have "length (take (m - length ?h) ?b) < 4" by simp
    with 2 show ?thesis by (subst replay_loop.simps) (simp add: ser Let_def)
  next
    case 3
    have t: "take (m - length ?h) ?b
        = put_u32 (crc32 (batch_data es)) @ take (m - length ?h - 4) (batch_data es)"
      using 3 by simp
    have "m - length ?h - 4 < length (batch_data es)" using m 3 by (simp add: ser)
    then have "replay_batch (length es) (take (m - length ?h - 4) (batch_data es)) = Inr None"
      using fit by (intro replay_batch_cut) (simp_all add: batch_fits_def)
    moreover have "get_u32 (take 4 (put_u32 (crc32 (batch_data es)) @ take (m - length ?h - 4) (batch_data es)))
        = Inr (crc32 (batch_data es))"
      using get_put_u32 [of _ "[]"] by simp
    moreover have "take m (?h @ ?b) = ?h @ take (m - length ?h) ?b" using 3 by simp
    ultimately show ?thesis
      using fit batch_fits_count [OF fit]
      by (subst replay_loop.simps) (simp add: ser t batch_fits_def Let_def)
  qed
qed

end
