(* ===== verification/Manifest.thy ===== *)
theory Manifest
  imports SSTable GoFmt WAL
begin

text \<open>
  What the engine keeps on disk (\<open>internal/lsm/lsm.go\<close>): the files of its
  directory and the manifest, which lists the table files of every level; and
  the functions that write the manifest and rebuild the levels from it or, when
  there is none, from the file names.  The manifest is held as the value its
  JSON text denotes; an absent or unreadable one is \<open>None\<close>.
\<close>

record disk =
  d_files :: fs
  d_manifest :: "gostr list list option"
  d_tmp :: "gostr list list option"

definition empty_disk :: disk where
  "empty_disk = \<lparr>d_files = [], d_manifest = None, d_tmp = None\<rparr>"

text \<open>\<open>"wal.log"\<close>, \<open>"MANIFEST"\<close>, \<open>"MANIFEST.tmp"\<close>; the directory itself is the empty name.\<close>

definition wal_name :: gostr where
  "wal_name = [119, 97, 108, 46, 108, 111, 103]"

definition manifest_name :: gostr where
  "manifest_name = [77, 65, 78, 73, 70, 69, 83, 84]"

definition tmp_name :: gostr where
  "tmp_name = manifest_name @ [46, 116, 109, 112]"

section \<open>Writing and reading the manifest\<close>

definition snapshot :: "sstable list list \<Rightarrow> gostr list list" where
  "snapshot levels = map (map s_path) levels"

definition writeManifest :: "os \<Rightarrow> sstable list list \<Rightarrow> (unit, disk) prog" where
  "writeManifest os levels =
     andthen (need (os (OsWrite tmp_name)) ErrOS) (\<lambda>_.
     andthen (update (\<lambda>d. d\<lparr>d_tmp := Some (snapshot levels)\<rparr>)) (\<lambda>_.
     andthen (need (os (OsOpen tmp_name)) ErrOS) (\<lambda>_.
     andthen (need (os (OsRename tmp_name manifest_name)) ErrOS) (\<lambda>_.
     andthen (update (\<lambda>d. d\<lparr>d_manifest := d_tmp d, d_tmp := None\<rparr>)) (\<lambda>_.
     need (os (OsOpen [])) ErrOS)))))"

definition readManifest :: "os \<Rightarrow> disk \<Rightarrow> gostr list list option" where
  "readManifest os d = (if os (OsOpen manifest_name) then d_manifest d else None)"

section \<open>Loading the tables\<close>

text \<open>An error is skipped with \<open>continue\<close>; a panic is not an error.\<close>

definition tried :: "'a res \<Rightarrow> 'a option res" where
  "tried r = (case r of
     Inl (Panic f) \<Rightarrow> Inl (Panic f) | Inl Hang \<Rightarrow> Inl Hang | Inl _ \<Rightarrow> Inr None | Inr x \<Rightarrow> Inr (Some x))"

definition recoverOrphans :: "os \<Rightarrow> gostr set \<Rightarrow> fs \<Rightarrow> fs" where
  "recoverOrphans os known fs =
     (if \<not> os OsReadDir then fs
      else filter (\<lambda>(p, _). \<not> (has_suffix p sst_suffix \<and> p \<notin> known \<and> os (OsRemove p))) fs)"

fun open_tables :: "os \<Rightarrow> fs \<Rightarrow> gostr list \<Rightarrow> sstable list res" where
  "open_tables os fs [] = Inr []"
| "open_tables os fs (p # ps) =
     bindr (tried (st_Open os fs p)) (\<lambda>r.
     bindr (open_tables os fs ps) (\<lambda>ss.
       Inr (case r of None \<Rightarrow> ss | Some s \<Rightarrow> s # ss)))"

fun open_levels :: "os \<Rightarrow> fs \<Rightarrow> gostr list list \<Rightarrow> sstable list list res" where
  "open_levels os fs [] = Inr []"
| "open_levels os fs (ps # pss) =
     bindr (open_tables os fs ps) (\<lambda>ss. bindr (open_levels os fs pss) (\<lambda>sss. Inr (ss # sss)))"

text \<open>Without a manifest: every table file whose name starts with a level below the number of levels.\<close>

fun scan_dir :: "os \<Rightarrow> fs \<Rightarrow> nat \<Rightarrow> gostr list \<Rightarrow> sstable list list \<Rightarrow> sstable list list res" where
  "scan_dir os fs n [] levels = Inr levels"
| "scan_dir os fs n (p # ps) levels =
     (if \<not> has_suffix p sst_suffix then scan_dir os fs n ps levels
      else case name_level p of
        None \<Rightarrow> scan_dir os fs n ps levels
      | Some level \<Rightarrow>
          if level < 0 \<or> int n \<le> level then scan_dir os fs n ps levels
          else bindr (tried (st_Open os fs p)) (\<lambda>r.
            scan_dir os fs n ps
              (case r of None \<Rightarrow> levels
               | Some s \<Rightarrow> levels[nat level := levels ! nat level @ [s]])))"

text \<open>\<open>os.ReadDir\<close> lists the directory by name.\<close>

definition loadExistingSSTables :: "os \<Rightarrow> nat \<Rightarrow> disk \<Rightarrow> (sstable list list \<times> disk) res" where
  "loadExistingSSTables os n d =
     (case readManifest os d of
        Some files \<Rightarrow>
          if length files = n then
            bindr (open_levels os (d_files d) files) (\<lambda>levels.
              Inr (levels, d\<lparr>d_files := recoverOrphans os (set (concat files)) (d_files d)\<rparr>))
          else
            (if \<not> os OsReadDir then Inr (replicate n [], d)
             else bindr (scan_dir os (d_files d) n (sort (map fst (d_files d))) (replicate n []))
                    (\<lambda>levels. Inr (levels, d)))
      | None \<Rightarrow>
          (if \<not> os OsReadDir then Inr (replicate n [], d)
           else bindr (scan_dir os (d_files d) n (sort (map fst (d_files d))) (replicate n []))
                  (\<lambda>levels. Inr (levels, d))))"

section \<open>Writing and loading again\<close>

lemma writeManifest_ok:
  "writeManifest os_ok levels d = (Inr (), d\<lparr>d_manifest := Some (snapshot levels), d_tmp := None\<rparr>)"
  by (simp add: writeManifest_def need_def)

lemma writeManifest_files: "d_files (snd (writeManifest os levels d)) = d_files d"
  by (auto simp: writeManifest_def need_def)

lemma map_of_filter_key: "map_of (filter (\<lambda>(p, _). P p) fs) q = (if P q then map_of fs q else None)"
  by (induction fs) auto

text \<open>Orphans go, everything the manifest names and everything that is no table stays.\<close>

lemma map_of_recoverOrphans:
  "map_of (recoverOrphans os_ok known fs) q =
     (if has_suffix q sst_suffix \<and> q \<notin> known then None else map_of fs q)"
  using map_of_filter_key [of "\<lambda>p. \<not> (has_suffix p sst_suffix \<and> p \<notin> known)" fs q]
  by (simp add: recoverOrphans_def)

text \<open>A table opened from its file reads the file's bytes, so opening depends on that file alone.\<close>

lemma st_Open_cong: "map_of fs p = map_of fs' p \<Longrightarrow> st_Open os fs p = st_Open os fs' p"
  by (simp add: st_Open_def map_file_def)

definition table_at :: "fs \<Rightarrow> sstable \<Rightarrow> entry list \<Rightarrow> bool" where
  "table_at fs s es \<longleftrightarrow>
     (\<exists>bf. s = opened (s_path s) 128 bf es \<and> map_of fs (s_path s) = Some (table_file 128 bf es)
        \<and> table_ok 128 bf es)"

lemma table_at_holds: "table_at fs s es \<Longrightarrow> st_holds s es"
  using opened_holds by (metis table_at_def)

lemma table_at_Open: "table_at fs s es \<Longrightarrow> st_Open os_ok fs (s_path s) = Inr s"
  using st_Open_table by (metis table_at_def)

lemma table_at_other: "table_at fs s es \<Longrightarrow> map_of fs' (s_path s) = map_of fs (s_path s) \<Longrightarrow> table_at fs' s es"
  by (auto simp: table_at_def)

definition level_at :: "fs \<Rightarrow> sstable list \<Rightarrow> entry list list \<Rightarrow> bool" where
  "level_at fs ss ess \<longleftrightarrow> list_all2 (table_at fs) ss ess"

lemma open_tables_at: "level_at fs ss ess \<Longrightarrow> open_tables os_ok fs (map s_path ss) = Inr ss"
  unfolding level_at_def
  by (induction rule: list_all2_induct) (simp_all add: table_at_Open tried_def)

lemma open_levels_at:
  "list_all2 (level_at fs) sss esss \<Longrightarrow> open_levels os_ok fs (snapshot sss) = Inr sss"
  unfolding snapshot_def
  by (induction rule: list_all2_induct) (simp_all add: open_tables_at)

text \<open>What the manifest lists is loaded as it was, except for tables whose files are gone.\<close>

definition present :: "fs \<Rightarrow> sstable \<Rightarrow> bool" where
  "present fs s \<longleftrightarrow> map_of fs (s_path s) \<noteq> None"

lemma open_missing: "\<not> present fs s \<Longrightarrow> tried (st_Open os_ok fs (s_path s)) = Inr None"
  by (simp add: present_def st_Open_def map_file_def tried_def)

lemma open_tables_present:
  "\<forall>s\<in>set ss. present fs s \<longrightarrow> (\<exists>es. table_at fs s es) \<Longrightarrow>
     open_tables os_ok fs (map s_path ss) = Inr (filter (present fs) ss)"
proof (induction ss)
  case (Cons s ss)
  then show ?case
    using table_at_Open [of fs s] open_missing [of fs s]
    by (cases "present fs s") (auto simp: tried_def)
qed simp

lemma open_levels_present:
  "\<forall>s\<in>set (concat sss). present fs s \<longrightarrow> (\<exists>es. table_at fs s es) \<Longrightarrow>
     open_levels os_ok fs (snapshot sss) = Inr (map (filter (present fs)) sss)"
  unfolding snapshot_def by (induction sss) (simp_all add: open_tables_present)

lemma load_listed:
  assumes "d_manifest d = Some (snapshot sss)" "length sss = n"
    and "\<forall>s\<in>set (concat sss). present (d_files d) s \<longrightarrow> (\<exists>es. table_at (d_files d) s es)"
  shows "loadExistingSSTables os_ok n d
       = Inr (map (filter (present (d_files d))) sss,
              d\<lparr>d_files := recoverOrphans os_ok (set (concat (snapshot sss))) (d_files d)\<rparr>)"
  using assms(1,2) open_levels_present [OF assms(3)]
  by (simp add: loadExistingSSTables_def readManifest_def) (simp add: snapshot_def)

lemma load_snapshot:
  assumes "list_all2 (level_at (d_files d)) sss esss" "d_manifest d = Some (snapshot sss)" "length sss = n"
  shows "loadExistingSSTables os_ok n d
       = Inr (sss, d\<lparr>d_files := recoverOrphans os_ok (set (concat (snapshot sss))) (d_files d)\<rparr>)"
  using assms open_levels_at [OF assms(1)]
  by (simp add: loadExistingSSTables_def readManifest_def) (simp add: snapshot_def)

end
