(* ===== verification/GoHeap.thy ===== *)
theory GoHeap
  imports Prelude
begin

text \<open>
  Go's \<open>container/heap\<close> over a slice: \<open>up\<close>, \<open>down\<close>, \<open>Init\<close>, \<open>Push\<close> and
  \<open>Pop\<close>, parametrised by the client's \<open>Less\<close>.  The locale \<open>lt_by\<close> states
  what a client's \<open>Less\<close> must be for the heap to work (a comparison of keys in
  a linear order); its lemmas say that \<open>Pop\<close> returns a least element and that
  the operations keep the heap shape and the contents.
\<close>

section \<open>The package's operations\<close>

definition swap :: "'a list \<Rightarrow> nat \<Rightarrow> nat \<Rightarrow> 'a list" where
  "swap h i j = h[i := h ! j, j := h ! i]"

function heap_up :: "('a \<Rightarrow> 'a \<Rightarrow> bool) \<Rightarrow> 'a list \<Rightarrow> nat \<Rightarrow> 'a list" where
  "heap_up lt h j =
     (let i = (j - 1) div 2 in
      if i = j \<or> \<not> lt (h ! j) (h ! i) then h else heap_up lt (swap h i j) i)"
  by pat_completeness auto
termination
  by (relation "measure (\<lambda>(lt, h, j). j)") auto

text \<open>The child \<open>down\<close> compares with: the left one, or the right one when it is smaller.\<close>

definition small_child :: "('a \<Rightarrow> 'a \<Rightarrow> bool) \<Rightarrow> 'a list \<Rightarrow> nat \<Rightarrow> nat \<Rightarrow> nat" where
  "small_child lt h i n =
     (if 2 * i + 2 < n \<and> lt (h ! (2 * i + 2)) (h ! (2 * i + 1)) then 2 * i + 2 else 2 * i + 1)"

function heap_down :: "('a \<Rightarrow> 'a \<Rightarrow> bool) \<Rightarrow> 'a list \<Rightarrow> nat \<Rightarrow> nat \<Rightarrow> 'a list" where
  "heap_down lt h i n =
     (if n \<le> 2 * i + 1 then h
      else let j = small_child lt h i n in
        if \<not> lt (h ! j) (h ! i) then h else heap_down lt (swap h i j) j n)"
  by pat_completeness auto
termination
  by (relation "measure (\<lambda>(lt, h, i, n). n - i)") (auto simp: small_child_def)

declare heap_up.simps [simp del] heap_down.simps [simp del]

definition heap_init :: "('a \<Rightarrow> 'a \<Rightarrow> bool) \<Rightarrow> 'a list \<Rightarrow> 'a list" where
  "heap_init lt h =
     foldl (\<lambda>h i. heap_down lt h i (length h)) h (rev [0..<length h div 2])"

definition heap_push :: "('a \<Rightarrow> 'a \<Rightarrow> bool) \<Rightarrow> 'a list \<Rightarrow> 'a \<Rightarrow> 'a list" where
  "heap_push lt h x = heap_up lt (h @ [x]) (length h)"

text \<open>\<open>Pop\<close> swaps the root with the last element, sifts down and drops the last.\<close>

definition heap_pop :: "('a \<Rightarrow> 'a \<Rightarrow> bool) \<Rightarrow> 'a list \<Rightarrow> 'a \<times> 'a list" where
  "heap_pop lt h =
     (let n = length h - 1; h' = heap_down lt (swap h 0 n) 0 n in (h' ! n, take n h'))"

section \<open>Contents\<close>

lemma length_swap [simp]: "length (swap h i j) = length h"
  by (simp add: swap_def)

lemma mset_swap [simp]: "i < length h \<Longrightarrow> j < length h \<Longrightarrow> mset (swap h i j) = mset h"
  by (simp add: swap_def Multiset.mset_swap)

lemma nth_swap:
  "i < length h \<Longrightarrow> j < length h \<Longrightarrow> k < length h \<Longrightarrow>
     swap h i j ! k = (if k = i then h ! j else if k = j then h ! i else h ! k)"
  by (auto simp: swap_def nth_list_update)

lemma small_child_bounds:
  "2 * i + 1 < n \<Longrightarrow> i < small_child lt h i n \<and> small_child lt h i n < n"
  by (auto simp: small_child_def)

lemma parent_iff: "0 < c \<Longrightarrow> (c - 1) div 2 = i \<longleftrightarrow> c = 2 * i + 1 \<or> c = 2 * i + (2 :: nat)"
  by auto

lemma small_child_cases: "small_child lt h i n = 2 * i + 1 \<or> small_child lt h i n = 2 * i + 2"
  by (simp add: small_child_def)

lemma mset_heap_up: "j < length h \<Longrightarrow> mset (heap_up lt h j) = mset h"
proof (induction lt h j rule: heap_up.induct)
  case (1 lt h j)
  then show ?case
    by (subst heap_up.simps) (simp add: Let_def)
qed

lemma length_heap_up [simp]: "j < length h \<Longrightarrow> length (heap_up lt h j) = length h"
  by (metis mset_heap_up size_mset)

lemma mset_heap_down: "n \<le> length h \<Longrightarrow> mset (heap_down lt h i n) = mset h"
proof (induction lt h i n rule: heap_down.induct)
  case (1 lt h i n)
  show ?case
  proof (cases "2 * i + 1 < n")
    case True
    from small_child_bounds [OF this, of lt h] 1 show ?thesis
      by (subst heap_down.simps) (simp add: Let_def)
  qed (subst heap_down.simps, simp)
qed

lemma length_heap_down [simp]: "n \<le> length h \<Longrightarrow> length (heap_down lt h i n) = length h"
  by (metis mset_heap_down size_mset)

text \<open>\<open>down\<close> up to \<open>n\<close> leaves the positions from \<open>n\<close> on alone.\<close>

lemma heap_down_above: "n \<le> k \<Longrightarrow> k < length h \<Longrightarrow> heap_down lt h i n ! k = h ! k"
proof (induction lt h i n rule: heap_down.induct)
  case (1 lt h i n)
  show ?case
  proof (cases "2 * i + 1 < n")
    case True
    from small_child_bounds [OF this, of lt h] 1 show ?thesis
      by (subst heap_down.simps) (simp add: Let_def nth_swap)
  qed (subst heap_down.simps, simp)
qed

lemma mset_heap_init: "mset (heap_init lt h) = mset h"
proof -
  have "mset (foldl (\<lambda>h i. heap_down lt h i (length h)) h is) = mset h" for "is"
    by (induction "is" arbitrary: h) (simp_all add: mset_heap_down)
  then show ?thesis by (simp add: heap_init_def)
qed

lemma mset_heap_push: "mset (heap_push lt h x) = add_mset x (mset h)"
  by (simp add: heap_push_def mset_heap_up)

lemma mset_heap_pop:
  assumes "h \<noteq> []" "heap_pop lt h = (x, h')"
  shows "mset h = add_mset x (mset h')"
proof -
  define n where "n = length h - 1"
  define d where "d = heap_down lt (swap h 0 n) 0 n"
  have n: "n < length h" "length h = Suc n" using assms(1) by (cases h; simp add: n_def)+
  have d: "mset d = mset h" "length d = length h"
    using n by (simp_all add: d_def mset_heap_down)
  have "x = d ! n" "h' = take n d"
    using assms(2) by (auto simp: heap_pop_def Let_def n_def d_def)
  moreover have "d = take n d @ [d ! n]"
    using d n by (metis lessI take_Suc_conv_app_nth take_all_iff le_refl)
  ultimately show ?thesis using d(1) by (metis mset.simps(2) mset_append mset_single_iff_right
      add_mset_add_single mset.simps(1))
qed

lemma heap_pop_root:
  assumes "h \<noteq> []" "heap_pop lt h = (x, h')"
  shows "x = h ! 0"
  using assms heap_down_above [of "length h - 1" "length h - 1" "swap h 0 (length h - 1)" lt 0]
  by (auto simp: heap_pop_def Let_def nth_swap)

section \<open>The interface a client's \<open>Less\<close> meets\<close>

locale lt_by =
  fixes lt :: "'a \<Rightarrow> 'a \<Rightarrow> bool" and key :: "'a \<Rightarrow> 'k::linorder"
  assumes lt_iff: "lt x y \<longleftrightarrow> key x < key y"
begin

text \<open>
  Every position is at least its parent; \<open>except\<close> a position while it is sifted
  (its children are then compared with its parent).
\<close>

definition heap_from :: "nat \<Rightarrow> 'a list \<Rightarrow> nat \<Rightarrow> bool" where
  "heap_from m h n \<longleftrightarrow>
     (\<forall>c < n. 0 < c \<longrightarrow> m \<le> (c - 1) div 2 \<longrightarrow> key (h ! ((c - 1) div 2)) \<le> key (h ! c))"

definition is_heap :: "'a list \<Rightarrow> bool" where
  "is_heap h \<longleftrightarrow> heap_from 0 h (length h)"

definition down_inv :: "nat \<Rightarrow> 'a list \<Rightarrow> nat \<Rightarrow> nat \<Rightarrow> bool" where
  "down_inv m h i n \<longleftrightarrow>
     (\<forall>c < n. 0 < c \<longrightarrow> m \<le> (c - 1) div 2 \<longrightarrow> (c - 1) div 2 \<noteq> i \<longrightarrow>
        key (h ! ((c - 1) div 2)) \<le> key (h ! c))
   \<and> (\<forall>c < n. 0 < c \<longrightarrow> (c - 1) div 2 = i \<longrightarrow> 0 < i \<longrightarrow> m \<le> (i - 1) div 2 \<longrightarrow>
        key (h ! ((i - 1) div 2)) \<le> key (h ! c))"

definition up_inv :: "'a list \<Rightarrow> nat \<Rightarrow> bool" where
  "up_inv h j \<longleftrightarrow>
     (\<forall>c < length h. 0 < c \<longrightarrow> c \<noteq> j \<longrightarrow> key (h ! ((c - 1) div 2)) \<le> key (h ! c))
   \<and> (\<forall>c < length h. 0 < c \<longrightarrow> (c - 1) div 2 = j \<longrightarrow> 0 < j \<longrightarrow>
        key (h ! ((j - 1) div 2)) \<le> key (h ! c))"

lemma small_child_le:
  assumes "0 < c" "(c - 1) div 2 = i" "c < n"
  shows "key (h ! small_child lt h i n) \<le> key (h ! c)"
  using assms parent_iff [OF assms(1), of i] by (auto simp: small_child_def lt_iff)

lemma down_inv_step:
  assumes inv: "down_inv m h i n" and n: "n \<le> length h" "2 * i + 1 < n"
    and smaller: "lt (h ! small_child lt h i n) (h ! i)"
  shows "down_inv m (swap h i (small_child lt h i n)) (small_child lt h i n) n"
proof -
  define j where "j = small_child lt h i n"
  have j: "i < j" "j < n" "(j - 1) div 2 = i"
    using n small_child_bounds [of i n lt h] small_child_cases [of lt h i n] by (auto simp: j_def)
  define h' where "h' = swap h i j"
  have h': "h' ! c = (if c = i then h ! j else if c = j then h ! i else h ! c)" if "c < n" for c
    using that n j by (simp add: h'_def nth_swap)
  have one: "key (h' ! ((c - 1) div 2)) \<le> key (h' ! c)"
    if c: "c < n" "0 < c" "m \<le> (c - 1) div 2" "(c - 1) div 2 \<noteq> j" for c
  proof -
    have p: "(c - 1) div 2 < c" "(c - 1) div 2 < n" using c by auto
    consider (child) "(c - 1) div 2 = i" | (top) "c = i" | (far) "(c - 1) div 2 \<noteq> i" "c \<noteq> i" by blast
    then show ?thesis
    proof cases
      case child
      then show ?thesis
        using c p j smaller small_child_le [OF c(2) child c(1), of h]
        by (auto simp: h' lt_iff j_def [symmetric])
    next
      case top
      then have "key (h ! ((i - 1) div 2)) \<le> key (h ! j)"
        using inv c j by (simp add: down_inv_def)
      then show ?thesis using top c p j by (simp add: h')
    next
      case far
      then show ?thesis using inv c p j by (auto simp: h' down_inv_def)
    qed
  qed
  have two: "key (h' ! ((j - 1) div 2)) \<le> key (h' ! c)"
    if c: "c < n" "0 < c" "(c - 1) div 2 = j" "m \<le> (j - 1) div 2" for c
  proof -
    have "j < c" using c by (metis diff_less div_le_dividend le_less_trans zero_less_one)
    moreover have "key (h ! j) \<le> key (h ! c)"
      using inv c j by (auto simp: down_inv_def)
    ultimately show ?thesis using c j by (simp add: h')
  qed
  show ?thesis
    unfolding j_def [symmetric] h'_def [symmetric] down_inv_def using one two by blast
qed

lemma heap_from_down:
  assumes "down_inv m h i n" "n \<le> length h"
  shows "heap_from m (heap_down lt h i n) n"
  using assms
proof (induction "n - i" arbitrary: h i rule: less_induct)
  case less
  define j where "j = small_child lt h i n"
  have stop: "heap_from m h n"
    if "\<And>c. c < n \<Longrightarrow> 0 < c \<Longrightarrow> (c - 1) div 2 = i \<Longrightarrow> key (h ! i) \<le> key (h ! c)"
    using less.prems that unfolding heap_from_def down_inv_def by metis
  show ?case
  proof (cases "2 * i + 1 < n")
    case False
    then have "heap_down lt h i n = h" by (subst heap_down.simps) simp
    with False show ?thesis by (auto intro!: stop)
  next
    case True
    show ?thesis
    proof (cases "lt (h ! j) (h ! i)")
      case False
      then have "heap_down lt h i n = h"
        using True by (subst heap_down.simps) (simp add: Let_def j_def)
      moreover have "key (h ! i) \<le> key (h ! c)" if "c < n" "0 < c" "(c - 1) div 2 = i" for c
        using False small_child_le [OF that(2,3,1), of h] by (simp add: lt_iff j_def)
      ultimately show ?thesis by (simp add: stop)
    next
      case swap: True
      have "i < j" "j < n" using small_child_bounds [OF True, of lt h] by (auto simp: j_def)
      moreover have "down_inv m (swap h i j) j n"
        using down_inv_step [OF less.prems True] swap by (simp add: j_def)
      ultimately have "heap_from m (heap_down lt (swap h i j) j n) n"
        using less.prems(2) by (intro less.hyps) auto
      then show ?thesis
        using True swap by (subst heap_down.simps) (simp add: Let_def j_def)
    qed
  qed
qed

lemma is_heap_init: "is_heap (heap_init lt h)"
proof -
  let ?n = "length h"
  let ?step = "\<lambda>h i. heap_down lt h i (length h)"
  have "length g = ?n \<Longrightarrow> heap_from k g ?n \<Longrightarrow>
      heap_from 0 (foldl ?step g (rev [0..<k])) ?n" for k g
  proof (induction k arbitrary: g)
    case (Suc k)
    have "down_inv k g k ?n"
    proof -
      have "k \<le> (k - 1) div 2 \<Longrightarrow> k = 0" by linarith
      moreover have "k \<le> x \<Longrightarrow> x \<noteq> k \<Longrightarrow> Suc k \<le> x" for x :: nat by simp
      ultimately show ?thesis
        using Suc.prems(2) unfolding down_inv_def heap_from_def by auto
    qed
    then have "heap_from k (?step g k) ?n"
      using Suc.prems(1) heap_from_down [of k g k ?n] by simp
    with Suc.IH [of "?step g k"] Suc.prems(1) show ?case by simp
  qed simp
  moreover have "heap_from (?n div 2) h ?n"
    by (auto simp: heap_from_def)
  ultimately have *: "heap_from 0 (foldl ?step h (rev [0..<?n div 2])) ?n" by blast
  have "length (heap_init lt h) = ?n" by (metis mset_heap_init size_mset)
  with * show ?thesis by (simp add: is_heap_def heap_init_def)
qed

lemma up_inv_step:
  assumes inv: "up_inv h j" and j: "0 < j" "j < length h"
    and smaller: "lt (h ! j) (h ! ((j - 1) div 2))"
  shows "up_inv (swap h ((j - 1) div 2) j) ((j - 1) div 2)"
proof -
  define i where "i = (j - 1) div 2"
  have i: "i < j" using j by (auto simp: i_def)
  have ji: "key (h ! j) < key (h ! i)" using smaller by (simp add: lt_iff i_def)
  define h' where "h' = swap h i j"
  have h': "h' ! c = (if c = i then h ! j else if c = j then h ! i else h ! c)" if "c < length h" for c
    using that j i by (simp add: h'_def nth_swap)
  have gp: "key (h ! ((i - 1) div 2)) \<le> key (h ! i)" if "0 < i"
    using inv that i j by (auto simp: up_inv_def)
  have one: "key (h' ! ((c - 1) div 2)) \<le> key (h' ! c)"
    if c: "c < length h" "0 < c" "c \<noteq> i" for c
  proof -
    have p: "(c - 1) div 2 < length h" "(c - 1) div 2 < c" using c by auto
    consider (self) "c = j" | (child) "c \<noteq> j" "(c - 1) div 2 = j" | (sib) "c \<noteq> j" "(c - 1) div 2 = i"
      | (far) "c \<noteq> j" "(c - 1) div 2 \<noteq> j" "(c - 1) div 2 \<noteq> i" by blast
    then show ?thesis
    proof cases
      case self
      then have "(c - 1) div 2 = i" by (simp add: i_def)
      then show ?thesis
        using self ji c i j by (simp add: h' less_imp_le)
    next
      case child
      then have "key (h ! i) \<le> key (h ! c)"
        using inv c j by (simp add: up_inv_def i_def)
      then show ?thesis using child c p by (simp add: h')
    next
      case sib
      then have "key (h ! i) \<le> key (h ! c)" using inv c by (auto simp: up_inv_def)
      then show ?thesis
        using sib c p ji i by (simp add: h')
    next
      case far
      then show ?thesis using inv c p by (auto simp: h' up_inv_def)
    qed
  qed
  have two: "key (h' ! ((i - 1) div 2)) \<le> key (h' ! c)"
    if c: "c < length h" "0 < c" "(c - 1) div 2 = i" "0 < i" for c
  proof -
    have "(i - 1) div 2 < i" using c(4) by auto
    moreover have "key (h ! ((i - 1) div 2)) \<le> key (h ! c)" if "c \<noteq> j"
    proof -
      have "key (h ! i) \<le> key (h ! c)" using inv c that by (auto simp: up_inv_def)
      with gp [OF c(4)] show ?thesis by simp
    qed
    ultimately show ?thesis using c gp i j by (auto simp: h')
  qed
  show ?thesis
    unfolding i_def [symmetric] h'_def [symmetric] up_inv_def
    using one two by (simp add: h'_def)
qed

lemma is_heap_up:
  assumes "up_inv h j" "j < length h"
  shows "is_heap (heap_up lt h j)"
  using assms
proof (induction j arbitrary: h rule: less_induct)
  case (less j)
  define i where "i = (j - 1) div 2"
  show ?case
  proof (cases "i = j \<or> \<not> lt (h ! j) (h ! i)")
    case True
    then have "heap_up lt h j = h"
      by (subst heap_up.simps) (auto simp: Let_def i_def)
    moreover have "0 < j \<Longrightarrow> key (h ! i) \<le> key (h ! j)"
      using True by (auto simp: i_def lt_iff)
    then have "is_heap h"
      using less.prems(1) unfolding up_inv_def is_heap_def heap_from_def i_def by metis
    ultimately show ?thesis by simp
  next
    case False
    then have j: "0 < j" "i < j" by (auto simp: i_def)
    then have "up_inv (swap h i j) i"
      using up_inv_step [OF less.prems(1) j(1) less.prems(2)] False by (simp add: i_def)
    then have "is_heap (heap_up lt (swap h i j) i)"
      using less.IH [OF j(2)] less.prems j by simp
    then show ?thesis
      using False by (subst heap_up.simps) (simp add: Let_def i_def)
  qed
qed

lemma is_heap_push: "is_heap h \<Longrightarrow> is_heap (heap_push lt h x)"
  unfolding heap_push_def
  by (rule is_heap_up) (auto simp: up_inv_def is_heap_def heap_from_def nth_append)

lemma is_heap_pop:
  assumes "is_heap h" "h \<noteq> []" "heap_pop lt h = (x, h')"
  shows "is_heap h'"
proof -
  define n where "n = length h - 1"
  define g where "g = swap h 0 n"
  have n: "n < length h" "length g = length h" using assms(2) by (auto simp: n_def g_def)
  have h': "h' = take n (heap_down lt g 0 n)"
    using assms(3) by (simp add: heap_pop_def Let_def n_def g_def)
  have g: "g ! c = h ! c" if "0 < c" "c < n" for c
    using that n assms(2) nth_swap [of 0 h n c] by (auto simp: g_def)
  have "key (g ! ((c - 1) div 2)) \<le> key (g ! c)" if c: "c < n" "0 < c" "(c - 1) div 2 \<noteq> 0" for c
  proof -
    have "(c - 1) div 2 < n" using c by auto
    then show ?thesis using c n assms(1) by (auto simp: g is_heap_def heap_from_def)
  qed
  then have "down_inv 0 g 0 n" by (simp add: down_inv_def)
  then have "heap_from 0 (heap_down lt g 0 n) n"
    using n heap_from_down [of 0 g 0 n] by simp
  then show ?thesis
    using n by (auto simp: h' is_heap_def heap_from_def)
qed

lemma heap_root_le:
  assumes "is_heap h" "c < length h"
  shows "key (h ! 0) \<le> key (h ! c)"
  using assms(2)
proof (induction c rule: less_induct)
  case (less c)
  show ?case
  proof (cases "c = 0")
    case False
    then have "(c - 1) div 2 < c" by auto
    with less have "key (h ! 0) \<le> key (h ! ((c - 1) div 2))" by simp
    also have "\<dots> \<le> key (h ! c)"
      using assms(1) False less.prems by (auto simp: is_heap_def heap_from_def)
    finally show ?thesis .
  qed simp
qed

text \<open>\<open>Pop\<close> returns a least element and leaves the others.\<close>

lemma heap_pop_min:
  assumes "is_heap h" "h \<noteq> []" "heap_pop lt h = (x, h')"
  shows "\<forall>y \<in># mset h. key x \<le> key y"
  using heap_root_le [OF assms(1)] heap_pop_root [OF assms(2,3)]
  by (auto simp: in_set_conv_nth)

end

end
