(* ===== verification/Compaction.thy ===== *)
theory Compaction
  imports SSTable GoHeap GoFmt
begin

text \<open>
  \<open>internal/compaction/compaction.go\<close>: the size limit of a level and the k-way
  merge of tables through a heap of iterators into a sequence of new tables.
  The reference the merge is proved to implement is \<open>sort_key mkey\<close> of all
  input entries, the first entry of every key, cut into chunks.
\<close>

section \<open>LevelSize\<close>

text \<open>
  \<open>math.Pow(10, level)\<close> is exact while \<open>5 ^ level\<close> fits into a mantissa.  From
  level 19 on the conversion to \<open>int64\<close> is out of range, for which amd64 gives
  the least integer.  The product wraps.
\<close>

definition LevelMultiplier :: nat where "LevelMultiplier = 10"

definition LevelSize :: "int \<Rightarrow> nat \<Rightarrow> int" where
  "LevelSize baseSize level =
     sint (word_of_int baseSize
       * (if level \<le> 18 then of_nat (LevelMultiplier ^ level) else word_of_int (- (2 ^ 63))) :: i64)"

section \<open>The heap of iterators\<close>

record heap_entry =
  he_entry :: entry
  he_sst :: sstable
  he_pos :: nat

definition merge_less :: "heap_entry \<Rightarrow> heap_entry \<Rightarrow> bool" where
  "merge_less a b =
     (if e_key (he_entry a) \<noteq> e_key (he_entry b) then e_key (he_entry a) < e_key (he_entry b)
      else e_ts (he_entry b) <s e_ts (he_entry a))"

text \<open>One iterator per table that has an entry.\<close>

fun merge_heads :: "sstable list \<Rightarrow> heap_entry list res" where
  "merge_heads [] = Inr []"
| "merge_heads (s # ss) =
     (case it_Next s 0 of
        Inl err \<Rightarrow> Inl err
      | Inr None \<Rightarrow> merge_heads ss
      | Inr (Some (e, pos)) \<Rightarrow>
          bindr (merge_heads ss) (\<lambda>h. Inr (\<lparr>he_entry = e, he_sst = s, he_pos = pos\<rparr> # h)))"

text \<open>\<open>Pop\<close> the least entry and \<open>Push\<close> the next one of its iterator.\<close>

definition pull :: "heap_entry list \<Rightarrow> (entry \<times> heap_entry list) res" where
  "pull h =
     (case heap_pop merge_less h of (he, h1) \<Rightarrow>
        bindr (it_Next (he_sst he) (he_pos he)) (\<lambda>nxt.
          Inr (he_entry he,
               case nxt of
                 None \<Rightarrow> h1
               | Some (e, pos) \<Rightarrow>
                   heap_push merge_less h1 \<lparr>he_entry = e, he_sst = he_sst he, he_pos = pos\<rparr>)))"

section \<open>The output side\<close>

definition targetSize :: int where "targetSize = 4 * 2 ^ 20"
definition entriesPerChunk :: int where "entriesPerChunk = 100000"

record cstats =
  cs_BytesWritten :: nat
  cs_InputFiles :: nat
  cs_OutputFiles :: nat

record merge_out =
  o_w :: "writer option"
  o_chunkSize :: int
  o_fileID :: int
  o_paths :: "gostr list"
  o_stats :: cstats
  o_lastKey :: gostr

definition out_init :: "int \<Rightarrow> merge_out" where
  "out_init n =
     \<lparr>o_w = None, o_chunkSize = 0, o_fileID = n, o_paths = [],
      o_stats = \<lparr>cs_BytesWritten = 0, cs_InputFiles = 0, cs_OutputFiles = 0\<rparr>, o_lastKey = []\<rparr>"

definition flushChunk :: "os \<Rightarrow> merge_out \<Rightarrow> (merge_out, fs) prog" where
  "flushChunk os o1 =
     (case o_w o1 of
        None \<Rightarrow> ret o1
      | Some w \<Rightarrow>
          andthen (w_Close os w) (\<lambda>w1.
            ret (o1\<lparr>o_stats := (o_stats o1)\<lparr>cs_BytesWritten := cs_BytesWritten (o_stats o1) + w_Info w1,
                                         cs_OutputFiles := cs_OutputFiles (o_stats o1) + 1\<rparr>,
                    o_w := None, o_chunkSize := 0\<rparr>)))"

definition openChunk :: "os \<Rightarrow> int \<Rightarrow> merge_out \<Rightarrow> (writer \<times> merge_out, fs) prog" where
  "openChunk os level o1 =
     (case o_w o1 of
        Some w \<Rightarrow> ret (w, o1)
      | None \<Rightarrow>
          (let path = compact_name level (o_fileID o1); o2 = o1\<lparr>o_fileID := o_fileID o1 + 1\<rparr> in
           andthen (CreateWriter os path entriesPerChunk 128) (\<lambda>w.
             ret (w, o2\<lparr>o_w := Some w, o_paths := o_paths o2 @ [path]\<rparr>))))"

definition cost :: "entry \<Rightarrow> int" where
  "cost e = int (length (e_key e) + length (e_val e) + 16)"

text \<open>The body of the loop for one entry of the merged sequence.\<close>

definition emit :: "os \<Rightarrow> int \<Rightarrow> entry \<Rightarrow> merge_out \<Rightarrow> (merge_out, fs) prog" where
  "emit os level e o1 =
     (if e_key e = o_lastKey o1 then ret o1
      else if e_tomb e \<and> 6 \<le> level then ret (o1\<lparr>o_lastKey := e_key e\<rparr>)
      else
        andthen (if o_w o1 \<noteq> None \<and> targetSize < o_chunkSize o1 + cost e then flushChunk os o1 else ret o1) (\<lambda>o2.
        andthen (openChunk os level o2) (\<lambda>(w, o3).
        andthen (append_or_close os w e) (\<lambda>w1.
          ret (o3\<lparr>o_w := Some w1, o_chunkSize := o_chunkSize o3 + cost e, o_lastKey := e_key e\<rparr>)))))"

section \<open>DoCompact\<close>

text \<open>What the heap has still to read; it shrinks in every round.\<close>

definition heap_left :: "heap_entry list \<Rightarrow> nat" where
  "heap_left h = sum_mset (image_mset (\<lambda>he. Suc (nat (s_dataSize (he_sst he) - int (he_pos he)))) (mset h))"

lemma pull_shrinks:
  assumes "h \<noteq> []" "pull h = Inr (e, h')"
  shows "heap_left h' < heap_left h"
proof -
  obtain he h1 where pop: "heap_pop merge_less h = (he, h1)" by fastforce
  note m = mset_heap_pop [OF assms(1) pop]
  obtain nxt where nxt: "it_Next (he_sst he) (he_pos he) = Inr nxt"
      "h' = (case nxt of None \<Rightarrow> h1 | Some (e, pos) \<Rightarrow>
         heap_push merge_less h1 \<lparr>he_entry = e, he_sst = he_sst he, he_pos = pos\<rparr>)"
    using assms(2) pop by (auto simp: pull_def)
  show ?thesis
  proof (cases nxt)
    case None
    then show ?thesis using nxt(2) m by (simp add: heap_left_def)
  next
    case (Some p)
    then obtain e' pos where p: "nxt = Some (e', pos)" by (cases p) auto
    have "he_pos he < pos \<and> int (he_pos he) < s_dataSize (he_sst he)"
      using it_Next_advances nxt(1) p by blast
    then show ?thesis using nxt(2) m p by (simp add: heap_left_def mset_heap_push)
  qed
qed

function merge_loop :: "os \<Rightarrow> int \<Rightarrow> heap_entry list \<Rightarrow> merge_out \<Rightarrow> (merge_out, fs) prog" where
  "merge_loop os level h o1 fs =
     (if h = [] then (Inr o1, fs)
      else case pull h of
        Inl err \<Rightarrow> (Inl err, fs)
      | Inr (e, h') \<Rightarrow>
          (case emit os level e o1 fs of
             (Inl err, fs1) \<Rightarrow> (Inl err, fs1)
           | (Inr o2, fs1) \<Rightarrow> merge_loop os level h' o2 fs1))"
  by pat_completeness auto
termination
  by (relation "measure (\<lambda>(os, level, h, o1, fs). heap_left h)") (auto intro: pull_shrinks)

declare merge_loop.simps [simp del]

definition DoCompact :: "os \<Rightarrow> sstable list \<Rightarrow> int \<Rightarrow> int \<Rightarrow> (gostr list \<times> cstats option, fs) prog" where
  "DoCompact os ssts level n =
     (if ssts = [] then ret ([], None)
      else
        andthen (asks (\<lambda>_. merge_heads ssts)) (\<lambda>h0.
          (let h = heap_init merge_less h0 in
           if h = [] then ret ([], None)
           else
             andthen (merge_loop os level h (out_init n)) (\<lambda>o1.
             andthen (flushChunk os o1) (\<lambda>o2.
               ret (o_paths o2, Some ((o_stats o2)\<lparr>cs_InputFiles := length ssts\<rparr>)))))))"

definition CleanupSSTables :: "os \<Rightarrow> gostr list \<Rightarrow> fs \<Rightarrow> fs" where
  "CleanupSSTables os paths fs = foldl (\<lambda>fs p. if os (OsRemove p) then fs_remove p fs else fs) fs paths"

section \<open>The order of the merge\<close>

text \<open>Keys ascending, and for one key timestamps descending.\<close>

datatype mkey = MKey gostr i64

instantiation mkey :: linorder
begin

fun less_mkey :: "mkey \<Rightarrow> mkey \<Rightarrow> bool" where
  "less_mkey (MKey k t) (MKey k' t') \<longleftrightarrow> k < k' \<or> k = k' \<and> t' <s t"

definition less_eq_mkey :: "mkey \<Rightarrow> mkey \<Rightarrow> bool" where
  "less_eq_mkey x y \<longleftrightarrow> x < y \<or> x = (y :: mkey)"

instance
proof
  fix x y z :: mkey
  have asym: "\<not> (a < b \<and> b < a)" for a b :: mkey
    by (cases a; cases b) (auto simp: word_sless_alt)
  show "(x < y) = (x \<le> y \<and> \<not> y \<le> x)"
    using asym [of x y] by (cases x) (auto simp: less_eq_mkey_def word_sless_alt)
  show "x \<le> x" by (simp add: less_eq_mkey_def)
  show "x \<le> y \<Longrightarrow> y \<le> z \<Longrightarrow> x \<le> z"
    by (cases x; cases y; cases z) (auto simp: less_eq_mkey_def word_sless_alt)
  show "x \<le> y \<Longrightarrow> y \<le> x \<Longrightarrow> x = y" using asym [of x y] by (auto simp: less_eq_mkey_def)
  show "x \<le> y \<or> y \<le> x"
    by (cases x; cases y) (auto simp: less_eq_mkey_def word_sless_alt not_less le_less dest: signed_word_eqI)
qed

end

definition mkey :: "entry \<Rightarrow> mkey" where
  "mkey e = MKey (e_key e) (e_ts e)"

interpretation mh: lt_by merge_less "\<lambda>he. mkey (he_entry he)"
  by unfold_locales (auto simp: merge_less_def mkey_def)

end
