(* ===== verification/LSM.thy ===== *)
theory LSM
  imports Manifest Compaction
begin

text \<open>
  The engine of \<open>internal/lsm/lsm.go\<close>: opening with recovery, the write path,
  flushing the memtable, the two compactions, reading, the statistics and
  closing.  An operation is a program over the engine's state; the clock is an
  argument.  File names are relative to the engine's directory.
\<close>

section \<open>State\<close>

record stats =
  ss_WALBytesWritten :: int
  ss_SSTableBytesWritten :: int
  ss_CompactionBytesWritten :: int
  ss_FilesOpened :: int
  ss_BloomFilterSkips :: int
  ss_LevelSizes :: "int list"
  ss_NumLevels :: nat

text \<open>\<open>l_compactCh\<close> is the one slot of the channel that wakes the compaction goroutine.\<close>

record lsm =
  l_disk :: disk
  l_memtable :: memtable
  l_wal :: "wal option"
  l_flushThreshold :: int
  l_maxL0Files :: nat
  l_baseLevelSize :: int
  l_numLevels :: nat
  l_levels :: "sstable list list"
  l_stats :: stats
  l_closed :: bool
  l_nextID :: int
  l_compactCh :: bool

record options =
  op_FlushThreshold :: int
  op_NumLevels :: int
  op_WALSyncMode :: sync_mode
  op_NoWAL :: bool

text \<open>The files as another process would see them: the log's file is the one it has mapped.\<close>

definition disk_image :: "lsm \<Rightarrow> disk" where
  "disk_image L =
     (case l_wal L of
        None \<Rightarrow> l_disk L
      | Some w \<Rightarrow> (l_disk L)\<lparr>d_files := AList.update wal_name (wa_file w) (d_files (l_disk L))\<rparr>)"

section \<open>Running parts of the state\<close>

definition on_disk :: "('a, disk) prog \<Rightarrow> ('a, lsm) prog" where
  "on_disk m L = (case m (l_disk L) of (r, d) \<Rightarrow> (r, L\<lparr>l_disk := d\<rparr>))"

definition on_files :: "('a, fs) prog \<Rightarrow> ('a, lsm) prog" where
  "on_files m = on_disk (\<lambda>d. case m (d_files d) of (r, fs) \<Rightarrow> (r, d\<lparr>d_files := fs\<rparr>))"

definition on_wal :: "(wal \<Rightarrow> wal \<times> goerr option) \<Rightarrow> (unit, lsm) prog" where
  "on_wal f L =
     (case l_wal L of
        None \<Rightarrow> (Inr (), L)
      | Some w \<Rightarrow>
          (case f w of
             (w1, None) \<Rightarrow> (Inr (), L\<lparr>l_wal := Some w1\<rparr>)
           | (w1, Some err) \<Rightarrow> (Inl err, L\<lparr>l_wal := Some w1\<rparr>)))"

definition upd_stats :: "(stats \<Rightarrow> stats) \<Rightarrow> lsm \<Rightarrow> lsm" where
  "upd_stats f L = L\<lparr>l_stats := f (l_stats L)\<rparr>"

definition add_level_size :: "nat \<Rightarrow> int \<Rightarrow> lsm \<Rightarrow> lsm" where
  "add_level_size i n =
     upd_stats (\<lambda>s. s\<lparr>ss_LevelSizes := (ss_LevelSizes s)[i := ss_LevelSizes s ! i + n]\<rparr>)"

definition set_level :: "nat \<Rightarrow> sstable list \<Rightarrow> lsm \<Rightarrow> lsm" where
  "set_level i ss L = L\<lparr>l_levels := (l_levels L)[i := ss]\<rparr>"

definition lsm_writeManifest :: "os \<Rightarrow> (unit, lsm) prog" where
  "lsm_writeManifest os L = on_disk (writeManifest os (l_levels L)) L"

section \<open>Open\<close>

definition lsm_init :: "i64 \<Rightarrow> options \<Rightarrow> disk \<Rightarrow> lsm" where
  "lsm_init now opts d =
     (let n = (if op_NumLevels opts \<le> 0 then 7 else nat (op_NumLevels opts)) in
      \<lparr>l_disk = d, l_memtable = mt_New, l_wal = None,
       l_flushThreshold = (if op_FlushThreshold opts \<le> 0 then 4 * 2 ^ 20 else op_FlushThreshold opts),
       l_maxL0Files = 8, l_baseLevelSize = 2 ^ 20, l_numLevels = n,
       l_levels = replicate n [],
       l_stats = \<lparr>ss_WALBytesWritten = 0, ss_SSTableBytesWritten = 0, ss_CompactionBytesWritten = 0,
                  ss_FilesOpened = 0, ss_BloomFilterSkips = 0, ss_LevelSizes = replicate n 0, ss_NumLevels = 0\<rparr>,
       l_closed = False, l_nextID = sint now, l_compactCh = False\<rparr>)"

definition replay_into :: "entry list \<Rightarrow> memtable \<Rightarrow> memtable" where
  "replay_into es m =
     foldl (\<lambda>m e. if e_tomb e then mt_Delete m (e_key e) (e_ts e)
                  else mt_Put m (e_key e) (e_val e) (e_ts e)) m es"

definition recoverWAL :: "os \<Rightarrow> kernel \<Rightarrow> (unit, lsm) prog" where
  "recoverWAL os k L =
     (case l_wal L of
        None \<Rightarrow> (Inl (Panic NilDeref), L)
      | Some w \<Rightarrow>
          (case wal_Replay w of
             Inl err \<Rightarrow> (Inl err, L)
           | Inr es \<Rightarrow>
               (let L1 = L\<lparr>l_memtable := replay_into es (l_memtable L)\<rparr> in
                if es \<noteq> [] then on_wal (wal_Reset os k) L1 else (Inr (), L1))))"

definition lsm_load :: "os \<Rightarrow> (unit, lsm) prog" where
  "lsm_load os L =
     (case loadExistingSSTables os (l_numLevels L) (l_disk L) of
        Inl err \<Rightarrow> (Inl err, L)
      | Inr (levels, d) \<Rightarrow> (Inr (), L\<lparr>l_levels := levels, l_disk := d\<rparr>))"

definition level_sizes :: "sstable list list \<Rightarrow> int list" where
  "level_sizes levels = map (\<lambda>ss. sum_list (map s_dataSize ss)) levels"

definition updateLevelStats :: "lsm \<Rightarrow> lsm" where
  "updateLevelStats L = upd_stats (\<lambda>s. s\<lparr>ss_LevelSizes := level_sizes (l_levels L)\<rparr>) L"

text \<open>\<open>Open\<close> drops the error of \<open>writeManifest\<close>.\<close>

definition lsm_start :: "os \<Rightarrow> kernel \<Rightarrow> options \<Rightarrow> (unit, lsm) prog" where
  "lsm_start os k opts =
     andthen
       (if op_NoWAL opts then ret ()
        else
          andthen (on_files (wal_New os k wal_name (op_WALSyncMode opts))) (\<lambda>w.
          andthen (update (\<lambda>L. L\<lparr>l_wal := Some w\<rparr>)) (\<lambda>_. recoverWAL os k))) (\<lambda>_.
     andthen (lsm_load os) (\<lambda>_.
     andthen (update updateLevelStats) (\<lambda>_.
     (\<lambda>L. (Inr (), snd (lsm_writeManifest os L))))))"

definition lsm_Open :: "os \<Rightarrow> kernel \<Rightarrow> i64 \<Rightarrow> options \<Rightarrow> disk \<Rightarrow> lsm res \<times> disk" where
  "lsm_Open os k now opts d =
     (if \<not> os OsMkdirAll then (Inl ErrOS, d)
      else case lsm_start os k opts (lsm_init now opts d) of
        (Inl err, L) \<Rightarrow> (Inl err, disk_image L)
      | (Inr _, L) \<Rightarrow> (Inr L, disk_image L))"

section \<open>Compaction of level 0\<close>

text \<open>Closing and removing the inputs; errors of both are dropped.\<close>

fun drop_tables :: "os \<Rightarrow> nat \<Rightarrow> sstable list \<Rightarrow> lsm \<Rightarrow> lsm" where
  "drop_tables os i [] L = L"
| "drop_tables os i (s # ss) L =
     drop_tables os i ss
       (add_level_size i (- s_dataSize s)
         (if os (OsRemove (s_path s))
          then L\<lparr>l_disk := (l_disk L)\<lparr>d_files := fs_remove (s_path s) (d_files (l_disk L))\<rparr>\<rparr> else L))"

fun add_outputs :: "os \<Rightarrow> nat \<Rightarrow> gostr list \<Rightarrow> (unit, lsm) prog" where
  "add_outputs os i [] L = (Inr (), L)"
| "add_outputs os i (p # ps) L =
     (case st_OpenNoVerify os (d_files (l_disk L)) p of
        Inl err \<Rightarrow> (Inl err, L)
      | Inr s \<Rightarrow> add_outputs os i ps (add_level_size i (s_dataSize s) (set_level i (l_levels L ! i @ [s]) L)))"

definition note_compaction :: "cstats option \<Rightarrow> lsm \<Rightarrow> lsm" where
  "note_compaction st L =
     (case st of
        None \<Rightarrow> L
      | Some s \<Rightarrow>
          upd_stats (\<lambda>x. x\<lparr>ss_CompactionBytesWritten := ss_CompactionBytesWritten x + int (cs_BytesWritten s)\<rparr>)
            (L\<lparr>l_nextID := l_nextID L + int (cs_OutputFiles s)\<rparr>))"

definition key_min :: "sstable list \<Rightarrow> gostr" where
  "key_min ss = foldl (\<lambda>m s. if st_MinKey s < m then st_MinKey s else m) (st_MinKey (hd ss)) (tl ss)"

definition key_max :: "sstable list \<Rightarrow> gostr" where
  "key_max ss = foldl (\<lambda>m s. if m < st_MaxKey s then st_MaxKey s else m) (st_MaxKey (hd ss)) (tl ss)"

definition l0_count :: "nat \<Rightarrow> nat \<Rightarrow> nat" where
  "l0_count cnt maxL0 =
     (let n = cnt div 2; n1 = (if n < 1 then 1 else n) in if maxL0 div 2 < n1 then maxL0 div 2 else n1)"

definition apart :: "gostr \<Rightarrow> gostr \<Rightarrow> sstable \<Rightarrow> bool" where
  "apart minK maxK s \<longleftrightarrow> st_MaxKey s < minK \<or> maxK < st_MinKey s"

text \<open>
  Up to the manifest: the inputs are closed and removed, their merge takes their
  place.  \<open>sort.Slice\<close> by path; \<open>toCompact[0]\<close> panics when \<open>maxL0Files\<close> is below 2.
\<close>

definition l0_merge :: "os \<Rightarrow> (unit, lsm) prog" where
  "l0_merge os L =
     (let sorted = sort_key s_path (l_levels L ! 0);
          n = l0_count (length sorted) (l_maxL0Files L);
          toCompact = take n sorted; remaining = drop n sorted in
      if toCompact = [] \<or> length (l_levels L) \<le> 1 then (Inl (Panic IndexRange), L)
      else
        (let minK = key_min toCompact; maxK = key_max toCompact;
             overlapping = filter (\<lambda>s. \<not> apart minK maxK s) (l_levels L ! 1);
             nonOverlapping = filter (apart minK maxK) (l_levels L ! 1) in
         andthen (on_files (DoCompact os (toCompact @ overlapping) 1 (l_nextID L))) (\<lambda>(paths, st).
         andthen (update (note_compaction st)) (\<lambda>_.
         andthen (update (drop_tables os 0 toCompact)) (\<lambda>_.
         andthen (update (drop_tables os 1 overlapping)) (\<lambda>_.
         andthen (update (\<lambda>L. set_level 1 nonOverlapping (set_level 0 remaining L))) (\<lambda>_.
         add_outputs os 1 paths))))) L))"

definition compactL0ToL1 :: "os \<Rightarrow> (unit, lsm) prog" where
  "compactL0ToL1 os L =
     (if l_levels L ! 0 = [] then (Inr (), L)
      else andthen (l0_merge os) (\<lambda>_. lsm_writeManifest os) L)"

section \<open>Compaction of a level into the next\<close>

definition level_merge :: "os \<Rightarrow> nat \<Rightarrow> (unit, lsm) prog" where
  "level_merge os level L =
     (let files = l_levels L ! level; next = level + 1; nextFiles = l_levels L ! next in
      andthen (on_files (DoCompact os (files @ nextFiles) (int next) (l_nextID L))) (\<lambda>(paths, st).
      andthen (update (note_compaction st)) (\<lambda>_.
      andthen (update (drop_tables os level files)) (\<lambda>_.
      andthen (update (set_level level [])) (\<lambda>_.
      andthen (update (drop_tables os next nextFiles)) (\<lambda>_.
      andthen (update (set_level next [])) (\<lambda>_.
      add_outputs os next paths)))))) L)"

function compactLevel :: "os \<Rightarrow> nat \<Rightarrow> nat \<Rightarrow> (unit, lsm) prog" where
  "compactLevel os numLevels level L =
     (if level < 1 \<or> numLevels - 1 \<le> level then (Inr (), L)
      else if l_levels L ! level = [] then (Inr (), L)
      else
        (let next = level + 1 in
         case andthen (level_merge os level) (\<lambda>_. lsm_writeManifest os) L of
           (Inl err, L1) \<Rightarrow> (Inl err, L1)
         | (Inr _, L1) \<Rightarrow>
             if LevelSize (l_baseLevelSize L1) next < ss_LevelSizes (l_stats L1) ! next \<and> next < numLevels - 1
             then compactLevel os numLevels next L1 else (Inr (), L1)))"
  by pat_completeness auto
termination
  by (relation "measure (\<lambda>(os, numLevels, level, L). numLevels - level)") auto

declare compactLevel.simps [simp del]

text \<open>One round of the compaction goroutine; it drops the errors, but not a panic.\<close>

definition attempt :: "(unit, 's) prog \<Rightarrow> (unit, 's) prog" where
  "attempt m s =
     (case m s of
        (Inl (Panic f), s1) \<Rightarrow> (Inl (Panic f), s1)
      | (Inl Hang, s1) \<Rightarrow> (Inl Hang, s1)
      | (_, s1) \<Rightarrow> (Inr (), s1))"

fun tick_levels :: "os \<Rightarrow> nat list \<Rightarrow> (unit, lsm) prog" where
  "tick_levels os [] L = (Inr (), L)"
| "tick_levels os (i # is) L =
     andthen
       (if LevelSize (l_baseLevelSize L) i < ss_LevelSizes (l_stats L) ! i
        then attempt (compactLevel os (l_numLevels L) i) else ret ())
       (\<lambda>_. tick_levels os is) L"

text \<open>What a round does under the lock.\<close>

definition tick_body :: "os \<Rightarrow> (unit, lsm) prog" where
  "tick_body os L =
     andthen (if l_maxL0Files L < length (l_levels L ! 0) then attempt (compactL0ToL1 os) else ret ()) (\<lambda>_.
     tick_levels os [1..<l_numLevels L - 1]) L"

definition compaction_tick :: "os \<Rightarrow> (unit, lsm) prog" where
  "compaction_tick os L =
     (if \<not> l_compactCh L then (Inr (), L)
      else andthen (update (\<lambda>L. L\<lparr>l_compactCh := False\<rparr>)) (\<lambda>_. tick_body os) L)"

section \<open>Flush\<close>

fun append_entries :: "os \<Rightarrow> writer \<Rightarrow> entry list \<Rightarrow> (writer, fs) prog" where
  "append_entries os w [] fs = (Inr w, fs)"
| "append_entries os w (e # es) fs =
     (case append_or_close os w e fs of
        (Inl err, fs1) \<Rightarrow> (Inl err, fs1)
      | (Inr w1, fs1) \<Rightarrow> append_entries os w1 es fs1)"

text \<open>An error of \<open>Reset\<close> removes the new table file again.\<close>

definition reset_or_remove :: "os \<Rightarrow> kernel \<Rightarrow> gostr \<Rightarrow> (unit, lsm) prog" where
  "reset_or_remove os k p L =
     (case on_wal (wal_Reset os k) L of
        (Inr u, L1) \<Rightarrow> (Inr u, L1)
      | (Inl (Panic f), L1) \<Rightarrow> (Inl (Panic f), L1)
      | (Inl Hang, L1) \<Rightarrow> (Inl Hang, L1)
      | (Inl err, L1) \<Rightarrow>
          (Inl err, if os (OsRemove p)
             then L1\<lparr>l_disk := (l_disk L1)\<lparr>d_files := fs_remove p (d_files (l_disk L1))\<rparr>\<rparr> else L1))"

definition flushMemtable :: "os \<Rightarrow> kernel \<Rightarrow> (unit, lsm) prog" where
  "flushMemtable os k L =
     (if mt_Count (l_memtable L) = 0 then (Inr (), L)
      else
        (let (m1, es) = mt_Entries (l_memtable L); p = flush_name (l_nextID L) in
         andthen (update (\<lambda>L. L\<lparr>l_memtable := m1, l_nextID := l_nextID L + 1\<rparr>)) (\<lambda>_.
         andthen (on_files (CreateWriter os p (int (length es)) 128)) (\<lambda>w.
         andthen (on_files (append_entries os w es)) (\<lambda>w1.
         andthen (on_files (w_Close os w1)) (\<lambda>w2.
         andthen (update (upd_stats (\<lambda>s. s\<lparr>ss_SSTableBytesWritten := ss_SSTableBytesWritten s + int (w_Info w2)\<rparr>))) (\<lambda>_.
         andthen (update (\<lambda>L. L\<lparr>l_memtable := mt_New\<rparr>)) (\<lambda>_.
         andthen (reset_or_remove os k p) (\<lambda>_.
         andthen (add_outputs os 0 [p]) (\<lambda>_.
         andthen (lsm_writeManifest os) (\<lambda>_.
         andthen (update (\<lambda>L. L\<lparr>l_compactCh := True\<rparr>)) (\<lambda>_.
         (\<lambda>L. if l_maxL0Files L * 2 < length (l_levels L ! 0) then compactL0ToL1 os L else (Inr (), L)))))))))))) L))"

section \<open>Writing\<close>

text \<open>The loop of \<open>PutBatch\<close>: it extends the log's buffer and the memtable side by side.\<close>

fun put_loop :: "i64 \<Rightarrow> (gostr \<times> gostr) list \<Rightarrow> byte list \<times> memtable \<Rightarrow> byte list \<times> memtable" where
  "put_loop t [] acc = acc"
| "put_loop t ((key, val) # kvs) (buf, m) =
     put_loop (t + 1) kvs
       (buf @ put_uvarint (of_nat (length key)) @ key @ put_uvarint (of_nat (length val)) @ val
            @ put_varint t @ [0],
        mt_Put m key val t)"

fun put_plain :: "i64 \<Rightarrow> (gostr \<times> gostr) list \<Rightarrow> memtable \<Rightarrow> memtable" where
  "put_plain t [] m = m"
| "put_plain t ((key, val) # kvs) m = put_plain (t + 1) kvs (mt_Put m key val t)"

definition patch_crc :: "nat \<Rightarrow> byte list \<Rightarrow> byte list" where
  "patch_crc off buf =
     take off buf @ put_u32 (crc32 (drop (off + 4) buf)) @ drop (off + 4) buf"

definition put_estimate :: "(gostr \<times> gostr) list \<Rightarrow> int" where
  "put_estimate kvs = sum_list (map (\<lambda>(k, v). int (length k + length v + 16)) kvs)"

definition PutBatch :: "os \<Rightarrow> kernel \<Rightarrow> i64 \<Rightarrow> (gostr \<times> gostr) list \<Rightarrow> (unit, lsm) prog" where
  "PutBatch os k now kvs L =
     (if kvs = [] then (Inr (), L)
      else
        andthen
          (if l_wal L = None then update (\<lambda>L. L\<lparr>l_memtable := put_plain now kvs (l_memtable L)\<rparr>)
           else
             (let head = put_uvarint (of_nat (length kvs));
                  (buf, m) = put_loop now kvs (head @ [0, 0, 0, 0], l_memtable L) in
              andthen (update (\<lambda>L. L\<lparr>l_memtable := m\<rparr>)) (\<lambda>_.
              andthen (on_wal (\<lambda>w. wal_AppendRaw os k w (patch_crc (length head) buf))) (\<lambda>_.
              update (upd_stats (\<lambda>s. s\<lparr>ss_WALBytesWritten := ss_WALBytesWritten s + put_estimate kvs\<rparr>))))))
          (\<lambda>_ L. if l_flushThreshold L \<le> mt_Size (l_memtable L) then flushMemtable os k L else (Inr (), L)) L)"

definition lsm_Put :: "os \<Rightarrow> kernel \<Rightarrow> i64 \<Rightarrow> gostr \<Rightarrow> gostr \<Rightarrow> (unit, lsm) prog" where
  "lsm_Put os k now key val = PutBatch os k now [(key, val)]"

definition lsm_Delete :: "os \<Rightarrow> kernel \<Rightarrow> i64 \<Rightarrow> gostr \<Rightarrow> (unit, lsm) prog" where
  "lsm_Delete os k now key L =
     andthen
       (if l_wal L = None then ret ()
        else
          andthen (on_wal (\<lambda>w. wal_Append os k w \<lparr>e_key = key, e_val = [], e_ts = now, e_tomb = True\<rparr>)) (\<lambda>_.
          update (upd_stats (\<lambda>s. s\<lparr>ss_WALBytesWritten := ss_WALBytesWritten s + int (length key + 16)\<rparr>))))
       (\<lambda>_. update (\<lambda>L. L\<lparr>l_memtable := mt_Delete (l_memtable L) key now\<rparr>)) L"

section \<open>Reading\<close>

definition answer :: "entry \<Rightarrow> gostr option" where
  "answer e = (if e_tomb e then None else Some (e_val e))"

fun get_tables :: "sstable list \<Rightarrow> gostr \<Rightarrow> (entry option, lsm) prog" where
  "get_tables [] key L = (Inr None, L)"
| "get_tables (s # ss) key L =
     (case st_MayContain s key of
        Inl err \<Rightarrow> (Inl err, L)
      | Inr False \<Rightarrow>
          get_tables ss key (upd_stats (\<lambda>x. x\<lparr>ss_BloomFilterSkips := ss_BloomFilterSkips x + 1\<rparr>) L)
      | Inr True \<Rightarrow>
          (let L1 = upd_stats (\<lambda>x. x\<lparr>ss_FilesOpened := ss_FilesOpened x + 1\<rparr>) L in
           case st_Get s key of
             Inl err \<Rightarrow> (Inl err, L1)
           | Inr (Some e) \<Rightarrow> (Inr (Some e), L1)
           | Inr None \<Rightarrow> get_tables ss key L1))"

text \<open>Level by level, in each level in the order of the list.\<close>

fun get_levels :: "sstable list list \<Rightarrow> gostr \<Rightarrow> (entry option, lsm) prog" where
  "get_levels [] key L = (Inr None, L)"
| "get_levels (ss # sss) key L =
     (case get_tables ss key L of
        (Inl err, L1) \<Rightarrow> (Inl err, L1)
      | (Inr (Some e), L1) \<Rightarrow> (Inr (Some e), L1)
      | (Inr None, L1) \<Rightarrow> get_levels sss key L1)"

definition lsm_Get :: "gostr \<Rightarrow> (gostr option, lsm) prog" where
  "lsm_Get key L =
     (case mt_Get (l_memtable L) key of
        Some e \<Rightarrow> (Inr (answer e), L)
      | None \<Rightarrow>
          andthen (get_levels (take (l_numLevels L) (l_levels L)) key)
            (\<lambda>r. ret (case r of None \<Rightarrow> None | Some e \<Rightarrow> answer e)) L)"

section \<open>Statistics and closing\<close>

definition lsm_Stats :: "lsm \<Rightarrow> stats" where
  "lsm_Stats L = (l_stats L)\<lparr>ss_LevelSizes := level_sizes (l_levels L), ss_NumLevels := l_numLevels L\<rparr>"

definition FilesPerLevel :: "lsm \<Rightarrow> nat list" where
  "FilesPerLevel L = map length (l_levels L)"

definition TotalDataSize :: "lsm \<Rightarrow> int" where
  "TotalDataSize L = mt_Size (l_memtable L) + sum_list (map s_dataSize (concat (l_levels L)))"

text \<open>The report of the write amplification, a double.\<close>

definition WriteAmp :: "stats \<Rightarrow> rat" where
  "WriteAmp st =
     (let totalWritten = ss_SSTableBytesWritten st + ss_CompactionBytesWritten st;
          ingested = ss_WALBytesWritten st
      in if ingested = 0 then 0 else f64_round (f64_round (of_int totalWritten) / f64_round (of_int ingested)))"

text \<open>Neighbours, in the order of their first keys, of one level; a table without index entries panics.\<close>

fun neighbours_overlap :: "sstable list \<Rightarrow> bool" where
  "neighbours_overlap (s # t # ss) =
     (st_MinKey t \<le> st_MaxKey s \<or> neighbours_overlap (t # ss))"
| "neighbours_overlap _ = False"

fun levels_overlap :: "sstable list list \<Rightarrow> bool res" where
  "levels_overlap [] = Inr False"
| "levels_overlap (ss # sss) =
     (if length ss \<le> 1 then levels_overlap sss
      else if \<exists>s\<in>set ss. si_entries (s_index s) = [] then Inl (Panic IndexRange)
      else if neighbours_overlap (sort_key st_MinKey ss) then Inr True
      else levels_overlap sss)"

definition HasOverlappingLevels :: "lsm \<Rightarrow> bool res" where
  "HasOverlappingLevels L = levels_overlap (drop 1 (take (l_numLevels L) (l_levels L)))"

definition lsm_Close :: "os \<Rightarrow> kernel \<Rightarrow> (unit, lsm) prog" where
  "lsm_Close os k =
     andthen (update (\<lambda>L. L\<lparr>l_closed := True, l_levels := map (map st_Close) (l_levels L)\<rparr>))
       (\<lambda>_. on_wal (wal_Close os k))"

end
