(* ===== verification/MergeSpec.thy ===== *)
theory MergeSpec
  imports Compaction
begin

text \<open>
  The merge of \<open>Compaction\<close> against its reference.  The heap yields the
  entries of all inputs in the order of \<open>mkey\<close>; the output side keeps the first
  entry of every key and cuts what it keeps into chunks; every chunk becomes
  one table file.
\<close>

section \<open>Iterators\<close>

text \<open>What an iterator at a position has still to yield.\<close>

function iter_list :: "sstable \<Rightarrow> nat \<Rightarrow> entry list" where
  "iter_list s pos =
     (case it_Next s pos of
        Inl _ \<Rightarrow> []
      | Inr None \<Rightarrow> []
      | Inr (Some (e, pos')) \<Rightarrow> e # iter_list s pos')"
  by pat_completeness auto
termination
  by (relation "measure (\<lambda>(s, pos). nat (s_dataSize s - int pos))") (auto dest: it_Next_advances)

declare iter_list.simps [simp del]

lemma iter_list_holds: "st_holds s (xs @ ys) \<Longrightarrow> iter_list s (length (data_block xs)) = ys"
proof (induction ys arbitrary: xs)
  case Nil
  then show ?case using it_Next_end [of s xs] by (simp add: iter_list.simps)
next
  case (Cons y ys)
  have "iter_list s (length (data_block (xs @ [y]))) = ys" by (rule Cons.IH) (use Cons.prems in simp)
  then show ?case using it_Next_record [OF Cons.prems] by (subst iter_list.simps) simp
qed

definition he_rem :: "heap_entry \<Rightarrow> entry list" where
  "he_rem he = he_entry he # iter_list (he_sst he) (he_pos he)"

definition he_ok :: "heap_entry \<Rightarrow> bool" where
  "he_ok he \<longleftrightarrow> (\<exists>xs ys. st_holds (he_sst he) (xs @ he_entry he # ys)
     \<and> he_pos he = length (data_block (xs @ [he_entry he])))"

lemma he_okE:
  assumes "he_ok he"
  obtains xs ys where "st_holds (he_sst he) (xs @ he_entry he # ys)"
    "he_pos he = length (data_block (xs @ [he_entry he]))" "he_rem he = he_entry he # ys"
proof -
  from assms obtain xs ys where *: "st_holds (he_sst he) (xs @ he_entry he # ys)"
      "he_pos he = length (data_block (xs @ [he_entry he]))" by (auto simp: he_ok_def)
  have "iter_list (he_sst he) (he_pos he) = ys"
    using iter_list_holds [of "he_sst he" "xs @ [he_entry he]" ys] * by simp
  with * that show thesis by (simp add: he_rem_def)
qed

lemma he_next:
  assumes "he_ok he"
  shows "(it_Next (he_sst he) (he_pos he) = Inr None \<and> he_rem he = [he_entry he])
   \<or> (\<exists>he'. it_Next (he_sst he) (he_pos he) = Inr (Some (he_entry he', he_pos he'))
        \<and> he_sst he' = he_sst he \<and> he_ok he' \<and> he_rem he = he_entry he # he_rem he')"
proof -
  from assms obtain xs ys where h: "st_holds (he_sst he) (xs @ he_entry he # ys)"
      "he_pos he = length (data_block (xs @ [he_entry he]))" "he_rem he = he_entry he # ys"
    by (rule he_okE)
  show ?thesis
  proof (cases ys)
    case Nil
    then have "it_Next (he_sst he) (he_pos he) = Inr None"
      using it_Next_end [of "he_sst he" "xs @ [he_entry he]"] h by simp
    with Nil h(3) show ?thesis by simp
  next
    case (Cons e zs)
    define he' where "he' = \<lparr>he_entry = e, he_sst = he_sst he,
        he_pos = length (data_block ((xs @ [he_entry he]) @ [e]))\<rparr>"
    have st: "st_holds (he_sst he) ((xs @ [he_entry he]) @ e # zs)" using h(1) Cons by simp
    have "it_Next (he_sst he) (he_pos he) = Inr (Some (he_entry he', he_pos he'))"
      using it_Next_record [OF st] h(2) by (simp add: he'_def)
    moreover have "he_ok he'" unfolding he_ok_def using st
      by (intro exI [of _ "xs @ [he_entry he]"] exI [of _ zs]) (simp add: he'_def)
    moreover have "he_rem he' = ys"
      using iter_list_holds [of "he_sst he" "(xs @ [he_entry he]) @ [e]" zs] st Cons
      by (simp add: he_rem_def he'_def)
    moreover have "he_sst he' = he_sst he" by (simp add: he'_def)
    ultimately show ?thesis using h(3) by blast
  qed
qed

lemma he_rem_sorted:
  assumes "he_ok he" "x \<in> set (he_rem he)"
  shows "mkey (he_entry he) \<le> mkey x"
proof -
  from assms(1) obtain xs ys where h: "st_holds (he_sst he) (xs @ he_entry he # ys)"
      "he_rem he = he_entry he # ys" by (rule he_okE)
  have "sorted_strict (map e_key (xs @ he_entry he # ys))" using h(1) by (simp add: st_holds_def)
  then have "\<forall>y\<in>set ys. e_key (he_entry he) < e_key y" by (simp add: sorted_wrt_append)
  with assms(2) h(2) show ?thesis by (auto simp: mkey_def less_eq_mkey_def)
qed

section \<open>The merged sequence\<close>

definition heap_rem :: "heap_entry list \<Rightarrow> entry multiset" where
  "heap_rem h = sum_mset (image_mset (\<lambda>he. mset (he_rem he)) (mset h))"

lemma pull_ok:
  assumes "h \<noteq> []" "mh.is_heap h" "\<forall>he\<in>set h. he_ok he"
  shows "\<exists>e h'. pull h = Inr (e, h') \<and> mh.is_heap h' \<and> (\<forall>he\<in>set h'. he_ok he)
     \<and> heap_rem h = add_mset e (heap_rem h') \<and> (\<forall>x\<in>#heap_rem h'. mkey e \<le> mkey x)"
proof -
  obtain he h1 where pop: "heap_pop merge_less h = (he, h1)" by fastforce
  note m = mset_heap_pop [OF assms(1) pop]
  have sets: "set h = insert he (set h1)" using m by (metis set_mset_add_mset_insert set_mset_mset)
  have heap1: "mh.is_heap h1" by (rule mh.is_heap_pop [OF assms(2,1) pop])
  have least: "\<forall>y\<in>set h. mkey (he_entry he) \<le> mkey (he_entry y)"
    using mh.heap_pop_min [OF assms(2,1) pop] by simp
  have all: "\<forall>x\<in>#heap_rem h. mkey (he_entry he) \<le> mkey x"
    using least he_rem_sorted assms(3) by (fastforce simp: heap_rem_def intro: order_trans)
  have ok: "he_ok he" "\<forall>y\<in>set h1. he_ok y" using assms(3) sets by auto
  have rem: "heap_rem h = mset (he_rem he) + heap_rem h1" by (simp add: heap_rem_def m)
  from he_next [OF ok(1)] show ?thesis
  proof (elim disjE exE conjE)
    assume n: "it_Next (he_sst he) (he_pos he) = Inr None" "he_rem he = [he_entry he]"
    then have "pull h = Inr (he_entry he, h1)" by (simp add: pull_def pop)
    with n heap1 ok(2) rem all show ?thesis by auto
  next
    fix he'
    assume n: "it_Next (he_sst he) (he_pos he) = Inr (Some (he_entry he', he_pos he'))"
      "he_sst he' = he_sst he" "he_ok he'" "he_rem he = he_entry he # he_rem he'"
    define h2 where "h2 = heap_push merge_less h1 he'"
    have he': "\<lparr>he_entry = he_entry he', he_sst = he_sst he, he_pos = he_pos he'\<rparr> = he'"
      using n(2) by (cases he') simp
    have m2: "mset h2 = add_mset he' (mset h1)" by (simp add: h2_def mset_heap_push)
    then have s2: "set h2 = insert he' (set h1)" by (metis set_mset_add_mset_insert set_mset_mset)
    have "pull h = Inr (he_entry he, h2)" by (simp add: pull_def pop n(1) he' h2_def)
    moreover have "mh.is_heap h2" unfolding h2_def by (rule mh.is_heap_push [OF heap1])
    moreover have rem2: "heap_rem h = add_mset (he_entry he) (heap_rem h2)"
      using rem n(4) by (simp add: heap_rem_def m2)
    ultimately show ?thesis using s2 n(3) ok(2) all by auto
  qed
qed

function merge_list :: "heap_entry list \<Rightarrow> entry list res" where
  "merge_list h =
     (if h = [] then Inr []
      else case pull h of
        Inl err \<Rightarrow> Inl err
      | Inr (e, h') \<Rightarrow> bindr (merge_list h') (\<lambda>es. Inr (e # es)))"
  by pat_completeness auto
termination
  by (relation "measure heap_left") (auto intro: pull_shrinks)

declare merge_list.simps [simp del]

text \<open>The heap yields every entry that is left exactly once, in order.\<close>

lemma merge_list_ok:
  assumes "mh.is_heap h" "\<forall>he\<in>set h. he_ok he"
  shows "\<exists>es. merge_list h = Inr es \<and> mset es = heap_rem h \<and> sorted (map mkey es)"
  using assms
proof (induction "heap_left h" arbitrary: h rule: less_induct)
  case less
  show ?case
  proof (cases "h = []")
    case True
    then show ?thesis by (simp add: merge_list.simps heap_rem_def)
  next
    case False
    from pull_ok [OF this less.prems] obtain e h' where p: "pull h = Inr (e, h')" "mh.is_heap h'"
        "\<forall>he\<in>set h'. he_ok he" "heap_rem h = add_mset e (heap_rem h')"
        "\<forall>x\<in>#heap_rem h'. mkey e \<le> mkey x" by blast
    from less.hyps [OF pull_shrinks [OF False p(1)] p(2,3)] obtain es where
        es: "merge_list h' = Inr es" "mset es = heap_rem h'" "sorted (map mkey es)" by blast
    have "\<forall>x\<in>set es. mkey e \<le> mkey x" using p(5) es(2) by (metis set_mset_mset)
    then show ?thesis using False p es by (subst merge_list.simps) simp
  qed
qed

fun emits :: "os \<Rightarrow> int \<Rightarrow> entry list \<Rightarrow> merge_out \<Rightarrow> (merge_out, fs) prog" where
  "emits os level [] o1 fs = (Inr o1, fs)"
| "emits os level (e # es) o1 fs =
     (case emit os level e o1 fs of
        (Inl err, fs1) \<Rightarrow> (Inl err, fs1)
      | (Inr o2, fs1) \<Rightarrow> emits os level es o2 fs1)"

text \<open>The interleaved loop is the merged sequence followed by the output side.\<close>

lemma merge_loop_emits:
  "merge_list h = Inr es \<Longrightarrow> merge_loop os level h o1 fs = emits os level es o1 fs"
proof (induction "heap_left h" arbitrary: h es o1 fs rule: less_induct)
  case less
  show ?case
  proof (cases "h = []")
    case True
    with less.prems show ?thesis by (simp add: merge_list.simps merge_loop.simps)
  next
    case False
    with less.prems obtain e h' es' where p: "pull h = Inr (e, h')" "merge_list h' = Inr es'" "es = e # es'"
      by (subst (asm) merge_list.simps) (auto split: sum.splits)
    have "merge_loop os level h' o2 fs1 = emits os level es' o2 fs1" for o2 fs1
      by (rule less.hyps [OF pull_shrinks [OF False p(1)] p(2)])
    then show ?thesis using False p by (subst merge_loop.simps) (simp split: prod.splits sum.splits)
  qed
qed

lemma merge_heads_ok:
  "list_all2 st_holds ss ess \<Longrightarrow>
     \<exists>h. merge_heads ss = Inr h \<and> (\<forall>he\<in>set h. he_ok he) \<and> heap_rem h = mset (concat ess)"
proof (induction rule: list_all2_induct)
  case Nil
  show ?case by (simp add: heap_rem_def)
next
  case (Cons s ss es ess)
  then obtain h where h: "merge_heads ss = Inr h" "\<forall>he\<in>set h. he_ok he" "heap_rem h = mset (concat ess)"
    by blast
  show ?case
  proof (cases es)
    case Nil
    then have "it_Next s 0 = Inr None" using it_Next_end [of s "[]"] Cons.hyps(1) by simp
    with h Nil show ?thesis by simp
  next
    case (Cons e xs)
    define he where "he = \<lparr>he_entry = e, he_sst = s, he_pos = length (entry_record e)\<rparr>"
    have st: "st_holds s ([] @ e # xs)" using Cons \<open>st_holds s es\<close> by simp
    have "it_Next s 0 = Inr (Some (e, length (entry_record e)))" using it_Next_record [OF st] by simp
    moreover have "he_ok he" unfolding he_ok_def using st
      by (intro exI [of _ "[]"] exI [of _ xs]) (simp add: he_def)
    moreover have "he_rem he = es"
      using iter_list_holds [of s "[e]" xs] st Cons by (simp add: he_rem_def he_def)
    ultimately show ?thesis using h by (simp add: he_def [symmetric] heap_rem_def)
  qed
qed

section \<open>What is kept\<close>

fun kept :: "int \<Rightarrow> gostr \<Rightarrow> entry list \<Rightarrow> entry list" where
  "kept level lastKey [] = []"
| "kept level lastKey (e # es) =
     (if e_key e = lastKey then kept level lastKey es
      else if e_tomb e \<and> 6 \<le> level then kept level (e_key e) es
      else e # kept level (e_key e) es)"

definition newest :: "entry list \<Rightarrow> gostr \<Rightarrow> entry option" where
  "newest es k = find (\<lambda>e. e_key e = k) es"

lemma newest_None: "newest es k = None \<longleftrightarrow> k \<notin> e_key ` set es"
  by (auto simp: newest_def find_None_iff)

lemma newest_SomeD: "newest es k = Some e \<Longrightarrow> e \<in> set es \<and> e_key e = k"
  by (auto simp: newest_def find_Some_iff)

text \<open>In a merged sequence the first entry of a key is the newest.\<close>

lemma newest_ts:
  assumes "sorted (map mkey es)" "newest es k = Some e" "x \<in> set es" "e_key x = k"
  shows "sint (e_ts x) \<le> sint (e_ts e)"
  using assms
proof (induction es)
  case (Cons y es)
  show ?case
  proof (cases "e_key y = k")
    case True
    with Cons.prems(2) have "e = y" by (simp add: newest_def)
    with Cons.prems True show ?thesis
      by (auto simp: mkey_def less_eq_mkey_def word_sless_alt)
  next
    case False
    with Cons show ?thesis by (auto simp: newest_def)
  qed
qed simp

lemma keys_sorted: "sorted (map mkey es) \<Longrightarrow> sorted (map e_key es)"
proof (induction es)
  case (Cons e es)
  then show ?case by (force simp: mkey_def less_eq_mkey_def le_less)
qed simp

lemma kept_subset: "set (kept level lk es) \<subseteq> set es"
  by (induction level lk es rule: kept.induct) auto

lemma kept_sorted:
  assumes "sorted (map e_key es)" "\<forall>e\<in>set es. lk \<le> e_key e"
  shows "sorted_strict (map e_key (kept level lk es)) \<and> (\<forall>e\<in>set (kept level lk es). lk < e_key e)"
  using assms
proof (induction level lk es rule: kept.induct)
  case (2 level lk e es)
  have le: "\<forall>x\<in>set es. e_key e \<le> e_key x" "lk \<le> e_key e" using "2.prems" by auto
  show ?case
  proof (cases "e_key e = lk")
    case True
    with 2 show ?thesis by simp
  next
    case False
    then have lt: "lk < e_key e" using le(2) by simp
    show ?thesis
    proof (cases "e_tomb e \<and> 6 \<le> level")
      case True
      with "2.IH"(2) [OF False True] "2.prems" le lt False show ?thesis by (auto intro: less_trans)
    next
      case f: False
      with "2.IH"(3) [OF False f] "2.prems" le lt False show ?thesis by (auto intro: less_trans)
    qed
  qed
qed simp

text \<open>
  An entry is kept when it is the newest of its key, the key is not the one the
  scan started with (the empty string), and it is not a tombstone in the bottom
  level.
\<close>

lemma kept_iff:
  assumes "sorted (map e_key es)" "\<forall>e\<in>set es. lk \<le> e_key e"
  shows "e \<in> set (kept level lk es) \<longleftrightarrow>
     newest es (e_key e) = Some e \<and> e_key e \<noteq> lk \<and> \<not> (e_tomb e \<and> 6 \<le> level)"
  using assms
proof (induction level lk es rule: kept.induct)
  case (1 level lk)
  show ?case by (simp add: newest_def)
next
  case (2 level lk x es)
  have le: "\<forall>y\<in>set es. e_key x \<le> e_key y" "lk \<le> e_key x" "sorted (map e_key es)"
    using "2.prems" by auto
  have new: "newest (x # es) (e_key e) = (if e_key x = e_key e then Some x else newest es (e_key e))"
    by (simp add: newest_def)
  have later: "newest es (e_key e) = Some e \<Longrightarrow> e_key x \<le> e_key e"
    using le(1) newest_SomeD by blast
  show ?case
  proof (cases "e_key x = lk")
    case True
    with 2 new show ?thesis by auto
  next
    case False
    then have lt: "lk < e_key x" using le(2) by simp
    show ?thesis
    proof (cases "e_tomb x \<and> 6 \<le> level")
      case True
      have "e \<in> set (kept level (e_key x) es) \<longleftrightarrow>
          newest es (e_key e) = Some e \<and> e_key e \<noteq> e_key x \<and> \<not> (e_tomb e \<and> 6 \<le> level)"
        by (rule "2.IH"(2) [OF False True]) (use le in auto)
      then show ?thesis
        using False True new later lt by (cases "e_key x = e_key e") auto
    next
      case f: False
      have "e \<in> set (kept level (e_key x) es) \<longleftrightarrow>
          newest es (e_key e) = Some e \<and> e_key e \<noteq> e_key x \<and> \<not> (e_tomb e \<and> 6 \<le> level)"
        by (rule "2.IH"(3) [OF False f]) (use le in auto)
      moreover have "kept level lk (x # es) = x # kept level (e_key x) es" using False f by auto
      moreover have "e_key e = lk \<Longrightarrow> e_key x \<noteq> e_key e \<and> newest es (e_key e) \<noteq> Some e"
        using later lt by force
      ultimately show ?thesis
        using False f new by (cases "e_key x = e_key e") auto
    qed
  qed
qed

end
