(* ===== verification/CompactSpec.thy ===== *)
theory CompactSpec
  imports MergeSpec
begin

text \<open>
  The result of a compaction: the kept entries in chunks of about 4 MiB, one
  table file per chunk, named by consecutive numbers.
\<close>

section \<open>Chunks\<close>

definition chunk_size :: "entry list \<Rightarrow> int" where
  "chunk_size es = sum_list (map cost es)"

fun split_chunks :: "entry list \<Rightarrow> entry list \<Rightarrow> entry list list" where
  "split_chunks cur [] = (if cur = [] then [] else [cur])"
| "split_chunks cur (e # es) =
     (if cur \<noteq> [] \<and> targetSize < chunk_size cur + cost e then cur # split_chunks [e] es
      else split_chunks (cur @ [e]) es)"

lemma concat_split: "concat (split_chunks cur es) = cur @ es"
  by (induction cur es rule: split_chunks.induct) auto

lemma split_nonempty: "c \<in> set (split_chunks cur es) \<Longrightarrow> c \<noteq> []"
  by (induction cur es rule: split_chunks.induct) (auto split: if_splits)

text \<open>A chunk of more than one entry stays within the target size.\<close>

lemma split_bound:
  "length cur \<le> 1 \<or> chunk_size cur \<le> targetSize \<Longrightarrow> c \<in> set (split_chunks cur es) \<Longrightarrow>
     length c \<le> 1 \<or> chunk_size c \<le> targetSize"
proof (induction cur es rule: split_chunks.induct)
  case (1 cur)
  then show ?case by (auto split: if_splits)
next
  case (2 cur e es)
  show ?case
  proof (cases "cur \<noteq> [] \<and> targetSize < chunk_size cur + cost e")
    case True
    then show ?thesis using "2.IH"(1) [OF True] "2.prems" by auto
  next
    case False
    then have "length (cur @ [e]) \<le> 1 \<or> chunk_size (cur @ [e]) \<le> targetSize"
      by (auto simp: chunk_size_def)
    from "2.IH"(2) [OF False this] show ?thesis using False "2.prems" by auto
  qed
qed

section \<open>The state while entries are written\<close>

text \<open>The names of the first \<open>m\<close> outputs.\<close>

definition out_names :: "int \<Rightarrow> int \<Rightarrow> nat \<Rightarrow> gostr list" where
  "out_names level n m = map (\<lambda>i. compact_name level (n + int i)) [0..<m]"

definition written :: "fs \<Rightarrow> gostr \<Rightarrow> entry list \<Rightarrow> bool" where
  "written fs p es \<longleftrightarrow> (\<exists>bf. map_of fs p = Some (table_file 128 bf es) \<and> table_ok 128 bf es)"

text \<open>
  The chunks \<open>ds\<close> are written, \<open>cur\<close> is in the open writer, and no file but the
  outputs has changed since \<open>fs0\<close>.
\<close>

definition out_at :: "int \<Rightarrow> int \<Rightarrow> fs \<Rightarrow> merge_out \<Rightarrow> fs \<Rightarrow> entry list list \<Rightarrow> entry list \<Rightarrow> bool" where
  "out_at level n fs0 o1 fs ds cur \<longleftrightarrow>
     (case o_w o1 of
        None \<Rightarrow> cur = []
      | Some w \<Rightarrow> cur \<noteq> [] \<and> w_inv entriesPerChunk 128 w cur
                 \<and> w_path w = compact_name level (n + int (length ds)))
     \<and> o_chunkSize o1 = chunk_size cur
     \<and> o_fileID o1 = n + int (length ds) + (if cur = [] then 0 else 1)
     \<and> o_paths o1 = out_names level n (length ds + (if cur = [] then 0 else 1))
     \<and> cs_OutputFiles (o_stats o1) = length ds
     \<and> (\<forall>i < length ds. written fs (compact_name level (n + int i)) (ds ! i))
     \<and> (\<forall>q. q \<notin> set (o_paths o1) \<longrightarrow> map_of fs q = map_of fs0 q)"

lemma out_at_init: "out_at level n fs (out_init n) fs [] []"
  by (simp add: out_at_def out_init_def chunk_size_def out_names_def)

lemma out_names_Suc: "out_names level n (Suc m) = out_names level n m @ [compact_name level (n + int m)]"
  by (simp add: out_names_def)

lemma out_names_mono: "m \<le> m' \<Longrightarrow> set (out_names level n m) \<subseteq> set (out_names level n m')"
  by (auto simp: out_names_def)

lemma name_new:
  "0 \<le> n \<Longrightarrow> i < m \<Longrightarrow> compact_name level (n + int i) \<noteq> compact_name level (n + int m)"
  using compact_name_inj [of "n + int i" "n + int m" level] by auto

lemma written_other: "p \<noteq> q \<Longrightarrow> written (AList.update q x fs) p es \<longleftrightarrow> written fs p es"
  by (simp add: written_def)

text \<open>Closing the open chunk.\<close>

lemma flushChunk_ok:
  assumes at: "out_at level n fs0 o1 fs ds cur" and n: "0 \<le> n" and cur: "cur \<noteq> []"
    and fit: "table_fits entriesPerChunk cur" "sorted_strict (map e_key cur)" "\<forall>e\<in>set cur. entry_fits e"
  shows "\<exists>o2 fs2. flushChunk os_ok o1 fs = (Inr o2, fs2) \<and> out_at level n fs0 o2 fs2 (ds @ [cur]) []
     \<and> o_lastKey o2 = o_lastKey o1 \<and> o_w o2 = None"
proof -
  let ?p = "compact_name level (n + int (length ds))"
  obtain w where w: "o_w o1 = Some w" "w_inv entriesPerChunk 128 w cur" "w_path w = ?p"
    using at cur by (auto simp: out_at_def split: option.splits)
  obtain w' where w': "w_Close os_ok w fs = (Inr w', AList.update ?p (table_file 128 (w_bloom w) cur)
        (AList.update ?p (w_mmap w') fs))" "table_ok 128 (w_bloom w) cur"
    using w_inv_closes [OF w(2) fit] w(3) by auto
  define fs2 where "fs2 = AList.update ?p (table_file 128 (w_bloom w) cur) (AList.update ?p (w_mmap w') fs)"
  define o2 where "o2 = o1\<lparr>o_stats := (o_stats o1)\<lparr>cs_BytesWritten := cs_BytesWritten (o_stats o1) + w_Info w',
        cs_OutputFiles := cs_OutputFiles (o_stats o1) + 1\<rparr>, o_w := None, o_chunkSize := 0\<rparr>"
  have run: "flushChunk os_ok o1 fs = (Inr o2, fs2)"
    by (simp add: flushChunk_def w(1) andthen_def w'(1) o2_def fs2_def ret_def)
  have "written fs2 (compact_name level (n + int i)) ((ds @ [cur]) ! i)" if "i < length (ds @ [cur])" for i
  proof (cases "i = length ds")
    case True
    then show ?thesis using w'(2) by (auto simp: written_def fs2_def)
  next
    case False
    with that have "i < length ds" by simp
    then show ?thesis
      using at name_new [OF n, of i "length ds" level] by (simp add: out_at_def fs2_def written_other nth_append)
  qed
  then have "out_at level n fs0 o2 fs2 (ds @ [cur]) []"
    using at cur by (auto simp: out_at_def o2_def chunk_size_def fs2_def out_names_Suc)
  with run show ?thesis by (auto simp: o2_def)
qed

lemma openChunk_ok:
  assumes at: "out_at level n fs0 o1 fs ds cur"
  shows "\<exists>w o2 fs2. openChunk os_ok level o1 fs = (Inr (w, o2), fs2)
     \<and> w_inv entriesPerChunk 128 w cur \<and> w_path w = compact_name level (n + int (length ds))
     \<and> o_chunkSize o2 = chunk_size cur \<and> o_fileID o2 = n + int (length ds) + 1
     \<and> o_paths o2 = out_names level n (Suc (length ds)) \<and> o_stats o2 = o_stats o1
     \<and> (\<forall>p. p \<noteq> compact_name level (n + int (length ds)) \<longrightarrow> map_of fs2 p = map_of fs p)"
proof (cases "o_w o1")
  case (Some w)
  then have "openChunk os_ok level o1 fs = (Inr (w, o1), fs)" by (simp add: openChunk_def ret_def)
  then show ?thesis using at Some by (simp add: out_at_def split: if_splits)
next
  case None
  then have cur: "cur = []" using at by (simp add: out_at_def)
  let ?p = "compact_name level (n + int (length ds))"
  have id: "o_fileID o1 = n + int (length ds)" using at cur by (simp add: out_at_def)
  have "w_inv entriesPerChunk 128 (w_init ?p entriesPerChunk 128) []"
    using w_inv_init [of entriesPerChunk 128 ?p] by simp
  moreover have "w_path (w_init ?p entriesPerChunk 128) = ?p" by (simp add: w_init_def)
  moreover obtain fs2 where
    "openChunk os_ok level o1 fs = (Inr (w_init ?p entriesPerChunk 128, o1\<lparr>o_fileID := o_fileID o1 + 1,
        o_w := Some (w_init ?p entriesPerChunk 128), o_paths := o_paths o1 @ [?p]\<rparr>), fs2)"
    "\<forall>p. p \<noteq> ?p \<longrightarrow> map_of fs2 p = map_of fs p"
    using None by (simp add: openChunk_def CreateWriter_def id ret_def Let_def)
  ultimately show ?thesis
    using at cur by (auto simp: out_at_def out_names_Suc)
qed

lemma append_or_close_ok:
  assumes "w_inv n step w es"
  shows "\<exists>w'. append_or_close os_ok w e fs = (Inr w', fs) \<and> w_inv n step w' (es @ [e]) \<and> w_path w' = w_path w"
  using w_Append_inv [OF assms, of e] by (auto simp: append_or_close_def)

text \<open>Opening if need be and appending one entry.\<close>

lemma append_chunk_ok:
  assumes at: "out_at level n fs0 o1 fs ds cur" and n: "0 \<le> n"
  shows "\<exists>o2 fs2. andthen (openChunk os_ok level o1) (\<lambda>(w, o3).
        andthen (append_or_close os_ok w e) (\<lambda>w1.
          ret (o3\<lparr>o_w := Some w1, o_chunkSize := o_chunkSize o3 + cost e, o_lastKey := e_key e\<rparr>))) fs = (Inr o2, fs2)
     \<and> out_at level n fs0 o2 fs2 ds (cur @ [e]) \<and> o_lastKey o2 = e_key e"
proof -
  obtain w o3 fs2 where op: "openChunk os_ok level o1 fs = (Inr (w, o3), fs2)"
     "w_inv entriesPerChunk 128 w cur" "w_path w = compact_name level (n + int (length ds))"
     "o_chunkSize o3 = chunk_size cur" "o_fileID o3 = n + int (length ds) + 1"
     "o_paths o3 = out_names level n (Suc (length ds))" "o_stats o3 = o_stats o1"
     "\<forall>p. p \<noteq> compact_name level (n + int (length ds)) \<longrightarrow> map_of fs2 p = map_of fs p"
    using openChunk_ok [OF at] by blast
  obtain w1 where w1: "append_or_close os_ok w e fs2 = (Inr w1, fs2)" "w_inv entriesPerChunk 128 w1 (cur @ [e])"
     "w_path w1 = w_path w"
    using append_or_close_ok [OF op(2)] by blast
  define o2 where "o2 = o3\<lparr>o_w := Some w1, o_chunkSize := o_chunkSize o3 + cost e, o_lastKey := e_key e\<rparr>"
  have run: "andthen (openChunk os_ok level o1) (\<lambda>(w, o3).
        andthen (append_or_close os_ok w e) (\<lambda>w1.
          ret (o3\<lparr>o_w := Some w1, o_chunkSize := o_chunkSize o3 + cost e, o_lastKey := e_key e\<rparr>))) fs = (Inr o2, fs2)"
    by (simp add: andthen_def op(1) w1(1) o2_def ret_def)
  have old: "written fs2 (compact_name level (n + int i)) (ds ! i)" if "i < length ds" for i
    using at op(8) name_new [OF n that, of level] that by (simp add: out_at_def written_def)
  have "set (o_paths o1) \<subseteq> set (o_paths o2)"
    using at op(6) out_names_mono [of "length ds + (if cur = [] then 0 else 1)" "Suc (length ds)" level n]
    by (simp add: out_at_def o2_def)
  moreover have "compact_name level (n + int (length ds)) \<in> set (o_paths o2)"
    using op(6) by (simp add: o2_def out_names_Suc)
  ultimately have other: "map_of fs2 q = map_of fs0 q" if "q \<notin> set (o_paths o2)" for q
    using at op(8) that by (metis (no_types, lifting) out_at_def subset_iff)
  have "out_at level n fs0 o2 fs2 ds (cur @ [e])"
    using old other op w1 at by (simp add: out_at_def o2_def chunk_size_def)
  with run show ?thesis by (auto simp: o2_def)
qed

section \<open>One entry, all entries\<close>

text \<open>What one step of the loop leaves: the chunks closed so far and the open one.\<close>

fun next_chunk :: "entry list list \<times> entry list \<Rightarrow> entry \<Rightarrow> entry list list \<times> entry list" where
  "next_chunk (ds, cur) e =
     (if cur \<noteq> [] \<and> targetSize < chunk_size cur + cost e then (ds @ [cur], [e]) else (ds, cur @ [e]))"

definition chunk_fits :: "entry list \<Rightarrow> bool" where
  "chunk_fits es \<longleftrightarrow> table_fits entriesPerChunk es \<and> sorted_strict (map e_key es) \<and> (\<forall>e\<in>set es. entry_fits e)"

lemma emit_ok:
  assumes at: "out_at level n fs0 o1 fs ds cur" and n: "0 \<le> n"
    and new: "e_key e \<noteq> o_lastKey o1" "\<not> (e_tomb e \<and> 6 \<le> level)"
    and fit: "cur \<noteq> [] \<and> targetSize < chunk_size cur + cost e \<longrightarrow> chunk_fits cur"
  shows "\<exists>o2 fs2. emit os_ok level e o1 fs = (Inr o2, fs2)
     \<and> (case next_chunk (ds, cur) e of (ds', cur') \<Rightarrow> out_at level n fs0 o2 fs2 ds' cur')
     \<and> o_lastKey o2 = e_key e"
proof -
  have full: "o_w o1 \<noteq> None \<and> targetSize < o_chunkSize o1 + cost e \<longleftrightarrow>
      cur \<noteq> [] \<and> targetSize < chunk_size cur + cost e"
    using at by (auto simp: out_at_def split: option.splits)
  note em = emit_def if_not_P [OF new(1)] if_not_P [OF new(2)] full
  show ?thesis
  proof (cases "cur \<noteq> [] \<and> targetSize < chunk_size cur + cost e")
    case True
    then obtain o2 fs2 where fl: "flushChunk os_ok o1 fs = (Inr o2, fs2)"
        "out_at level n fs0 o2 fs2 (ds @ [cur]) []"
      using flushChunk_ok [OF at n] fit by (auto simp: chunk_fits_def)
    have fl': "andthen (flushChunk os_ok o1) f fs = f o2 fs2" for f :: "merge_out \<Rightarrow> (merge_out, fs) prog"
      by (rule andthen_ok) (rule fl(1))
    from append_chunk_ok [OF fl(2) n, of e] show ?thesis
      unfolding em if_P [OF True] fl' next_chunk.simps by simp
  next
    case False
    from append_chunk_ok [OF at n, of e] show ?thesis
      unfolding em if_not_P [OF False] next_chunk.simps by simp
  qed
qed

text \<open>The output side writes \<open>split_chunks\<close> of what is kept.\<close>

lemma emits_ok:
  assumes "out_at level n fs0 o1 fs ds cur" "0 \<le> n"
    and "\<forall>c\<in>set (split_chunks cur (kept level (o_lastKey o1) es)). chunk_fits c"
  shows "\<exists>o2 fs2 ds' cur'. emits os_ok level es o1 fs = (Inr o2, fs2)
     \<and> out_at level n fs0 o2 fs2 ds' cur' \<and> (cur' \<noteq> [] \<longrightarrow> chunk_fits cur')
     \<and> ds' @ (if cur' = [] then [] else [cur']) = ds @ split_chunks cur (kept level (o_lastKey o1) es)"
  using assms
proof (induction es arbitrary: o1 fs ds cur)
  case Nil
  then show ?case
    by (intro exI [of _ o1] exI [of _ fs] exI [of _ ds] exI [of _ cur]) simp
next
  case (Cons e es)
  show ?case
  proof (cases "e_key e = o_lastKey o1")
    case True
    then have "emit os_ok level e o1 fs = (Inr o1, fs)" by (simp add: emit_def ret_def)
    with Cons.IH [OF Cons.prems(1,2)] Cons.prems(3) True show ?thesis by simp
  next
    case key: False
    show ?thesis
    proof (cases "e_tomb e \<and> 6 \<le> level")
      case True
      let ?o = "o1\<lparr>o_lastKey := e_key e\<rparr>"
      have "emit os_ok level e o1 fs = (Inr ?o, fs)" using key True by (simp add: emit_def ret_def)
      moreover have "out_at level n fs0 ?o fs ds cur" using Cons.prems(1) by (simp add: out_at_def)
      ultimately show ?thesis using Cons.IH [of ?o fs ds cur] Cons.prems(2,3) key True by simp
    next
      case keep: False
      have k: "kept level (o_lastKey o1) (e # es) = e # kept level (e_key e) es" using key keep by auto
      have fit: "cur \<noteq> [] \<and> targetSize < chunk_size cur + cost e \<longrightarrow> chunk_fits cur"
        using Cons.prems(3) unfolding k by auto
      obtain o2 fs2 where em: "emit os_ok level e o1 fs = (Inr o2, fs2)" "o_lastKey o2 = e_key e"
          "case next_chunk (ds, cur) e of (ds', cur') \<Rightarrow> out_at level n fs0 o2 fs2 ds' cur'"
        using emit_ok [OF Cons.prems(1,2) key keep fit] by (elim exE conjE) (rule that)
      show ?thesis
      proof (cases "cur \<noteq> [] \<and> targetSize < chunk_size cur + cost e")
        case True
        with em have "out_at level n fs0 o2 fs2 (ds @ [cur]) [e]" by simp
        from Cons.IH [OF this Cons.prems(2)] True Cons.prems(3) em(1,2) show ?thesis
          unfolding k by simp
      next
        case False
        with em have "out_at level n fs0 o2 fs2 ds (cur @ [e])" by (auto split: if_splits)
        from Cons.IH [OF this Cons.prems(2)] False Cons.prems(3) em(1,2) show ?thesis
          unfolding k by auto
      qed
    qed
  qed
qed

section \<open>DoCompact\<close>

definition merge_of :: "entry list list \<Rightarrow> entry list \<Rightarrow> bool" where
  "merge_of ess es \<longleftrightarrow> mset es = mset (concat ess) \<and> sorted (map mkey es)"

text \<open>The files a compaction leaves: one per chunk, under the names it returns, and nothing else changed.\<close>

definition compacted :: "int \<Rightarrow> int \<Rightarrow> entry list list \<Rightarrow> fs \<Rightarrow> fs \<Rightarrow> bool" where
  "compacted level n cs fs fs' \<longleftrightarrow>
     (\<forall>i < length cs. written fs' (compact_name level (n + int i)) (cs ! i))
     \<and> (\<forall>q. q \<notin> set (out_names level n (length cs)) \<longrightarrow> map_of fs' q = map_of fs q)"

lemma merge_begin:
  assumes ssts: "list_all2 st_holds ssts ess"
  obtains h0 es where "merge_heads ssts = Inr h0" "merge_list (heap_init merge_less h0) = Inr es" "merge_of ess es"
    "h0 = [] \<longleftrightarrow> concat ess = []"
proof -
  obtain h0 where h0: "merge_heads ssts = Inr h0" "\<forall>he\<in>set h0. he_ok he" "heap_rem h0 = mset (concat ess)"
    using merge_heads_ok [OF ssts] by blast
  have mset: "mset (heap_init merge_less h0) = mset h0" by (simp add: mset_heap_init)
  then have sets: "set (heap_init merge_less h0) = set h0" by (metis set_mset_mset)
  obtain es where es: "merge_list (heap_init merge_less h0) = Inr es" "mset es = heap_rem (heap_init merge_less h0)"
      "sorted (map mkey es)"
    using merge_list_ok [OF mh.is_heap_init] h0(2) sets by blast
  have "merge_of ess es" using es(2,3) h0(3) by (simp add: merge_of_def heap_rem_def mset)
  moreover have "h0 = [] \<longleftrightarrow> heap_rem h0 = {#}" by (cases h0) (auto simp: heap_rem_def he_rem_def)
  then have "h0 = [] \<longleftrightarrow> concat ess = []" unfolding h0(3) mset_zero_iff .
  ultimately show thesis by (intro that [OF h0(1) es(1)])
qed

text \<open>The last chunk is written when the merge is done.\<close>

lemma flush_last:
  assumes "out_at level n fs o2 fs2 ds cur" "0 \<le> n" "cur \<noteq> [] \<longrightarrow> chunk_fits cur"
  shows "\<exists>o3 fs3. flushChunk os_ok o2 fs2 = (Inr o3, fs3)
     \<and> out_at level n fs o3 fs3 (ds @ (if cur = [] then [] else [cur])) []"
proof (cases "cur = []")
  case True
  then have "flushChunk os_ok o2 fs2 = (Inr o2, fs2)"
    using assms(1) by (simp add: flushChunk_def out_at_def ret_def split: option.splits)
  with assms(1) True show ?thesis by auto
next
  case False
  with flushChunk_ok [OF assms(1,2)] assms(3) show ?thesis by (auto simp: chunk_fits_def)
qed

lemma DoCompact_ok:
  assumes ssts: "list_all2 st_holds ssts ess" and n: "0 \<le> n"
    and fit: "\<And>es. merge_of ess es \<Longrightarrow> \<forall>c\<in>set (split_chunks [] (kept level [] es)). chunk_fits c"
  shows "\<exists>es st fs'. merge_of ess es
     \<and> DoCompact os_ok ssts level n fs
        = (Inr (out_names level n (length (split_chunks [] (kept level [] es))), st), fs')
     \<and> (concat ess = [] \<longrightarrow> st = None)
     \<and> (concat ess \<noteq> [] \<longrightarrow> (\<exists>s. st = Some s
            \<and> cs_OutputFiles s = length (split_chunks [] (kept level [] es)) \<and> cs_InputFiles s = length ssts))
     \<and> compacted level n (split_chunks [] (kept level [] es)) fs fs'"
proof -
  obtain h0 es where h0: "merge_heads ssts = Inr h0" "merge_list (heap_init merge_less h0) = Inr es" "h0 = [] \<longleftrightarrow> concat ess = []"
      and merge: "merge_of ess es"
    using merge_begin [OF ssts] by blast
  define h where "h = heap_init merge_less h0"
  have h: "h = [] \<longleftrightarrow> h0 = []" unfolding h_def by (metis mset_heap_init mset_zero_iff)
  show ?thesis
  proof (cases "h = []")
    case True
    then have "concat ess = []" using h h0(3) by simp
    moreover from this have "es = []" using merge unfolding merge_of_def by (metis mset_zero_iff)
    moreover have "DoCompact os_ok ssts level n fs = (Inr ([], None), fs)"
      using True h0(1) by (simp add: DoCompact_def ret_def h_def Let_def)
    ultimately show ?thesis using merge
      by (intro exI [of _ es] exI [of _ None] exI [of _ fs]) (simp add: out_names_def compacted_def)
  next
    case False
    then have ne: "concat ess \<noteq> []" using h h0(3) by simp
    then have ssne: "ssts \<noteq> []" using ssts by auto
    have last: "o_lastKey (out_init n) = []" by (simp add: out_init_def)
    let ?cs = "split_chunks [] (kept level [] es)"
    obtain o2 fs2 ds cur where em: "emits os_ok level es (out_init n) fs = (Inr o2, fs2)"
        "out_at level n fs o2 fs2 ds cur" "cur \<noteq> [] \<longrightarrow> chunk_fits cur"
        "ds @ (if cur = [] then [] else [cur]) = ?cs"
      using emits_ok [OF out_at_init [of level n fs] n, of es] fit [OF merge] last by auto
    obtain o3 fs3 where fl: "flushChunk os_ok o2 fs2 = (Inr o3, fs3)" "out_at level n fs o3 fs3 ?cs []"
      using flush_last [OF em(2) n em(3)] unfolding em(4) by blast
    define st where "st = (o_stats o3)\<lparr>cs_InputFiles := length ssts\<rparr>"
    have run: "DoCompact os_ok ssts level n fs = (Inr (o_paths o3, Some st), fs3)"
      using ssne False h0(1) merge_loop_emits [OF h0(2), of os_ok level "out_init n" fs] em(1) fl(1)
      by (simp add: DoCompact_def h_def [symmetric] Let_def andthen_def asks_def ret_def st_def)
    have "o_paths o3 = out_names level n (length ?cs)" "cs_OutputFiles st = length ?cs"
        "cs_InputFiles st = length ssts" "compacted level n ?cs fs fs3"
      using fl(2) by (simp_all add: out_at_def st_def compacted_def)
    with run merge ne show ?thesis by auto
  qed
qed

end
