(* ===== verification/TableSize.thy ===== *)
theory TableSize
  imports CompactSpec
begin

text \<open>
  Why \<open>Close\<close> may rely on the first mapping: a bound on the bytes of a table
  whose keys are at most 512 bytes and values at most 64 KiB long, and whose
  entries cost at most 4 MiB and 128 KiB together.  Every chunk of a compaction and
  every flush at the default threshold is of this size.
\<close>

definition entry_small :: "entry \<Rightarrow> bool" where
  "entry_small e \<longleftrightarrow> length (e_key e) \<le> 512 \<and> length (e_val e) \<le> 65536"

lemma entry_small_fits: "entry_small e \<Longrightarrow> entry_fits e"
  by (simp add: entry_small_def entry_fits_def)

lemma uvarint_short:
  assumes "n < 2 ^ 21"
  shows "length (put_uvarint (of_nat n :: u64)) \<le> 3"
proof -
  have "unat (of_nat n :: u64) = n" using assms by (intro unat_of_nat_small) simp
  then have "unat (of_nat n :: u64) < 2 ^ (7 * Suc 2)" using assms by simp
  from put_uvarint_length_le [OF this] show ?thesis by simp
qed

lemma entry_record_length:
  assumes "entry_small e"
  shows "int (length (entry_record e)) \<le> cost e + 5"
proof -
  have "length (put_uvarint (of_nat (length (e_key e)) :: u64)) \<le> 3"
    "length (put_uvarint (of_nat (length (e_val e)) :: u64)) \<le> 3"
    using assms by (auto simp: entry_small_def intro: uvarint_short)
  moreover have "length (put_varint (e_ts e)) \<le> 10" by (simp add: put_varint_def put_uvarint_length)
  ultimately show ?thesis by (simp add: entry_record_def entry_fields_def cost_def)
qed

lemma data_block_size:
  "\<forall>e\<in>set es. entry_small e \<Longrightarrow> int (length (data_block es)) \<le> chunk_size es + 5 * int (length es)"
proof (induction es)
  case (Cons e es)
  then show ?case using entry_record_length [of e] by (simp add: chunk_size_def)
qed (simp add: chunk_size_def)

lemma chunk_count: "16 * int (length es) \<le> chunk_size es"
  by (induction es) (simp_all add: chunk_size_def cost_def)

text \<open>One index entry for 128 entries, rounded up.\<close>

lemma index_count:
  "128 * length (index_from 128 i off es) \<le> length es + (if i mod 128 = 0 then 127 else i mod 128 - 1)"
proof (induction es arbitrary: i off)
  case (Cons e es)
  have z: "int i mod 128 = 0 \<longleftrightarrow> i mod 128 = 0"
    by (metis of_nat_eq_0_iff of_nat_numeral zmod_int)
  have "128 * length (index_from 128 (Suc i) (off + length (entry_record e)) es)
      \<le> length es + (if Suc i mod 128 = 0 then 127 else Suc i mod 128 - 1)" by (rule Cons.IH)
  then show ?case by (auto simp: z mod_Suc split: if_splits)
qed simp

lemma index_items_size:
  assumes "\<forall>e\<in>set es. entry_small e"
  shows "length (concat (map index_item (index_from 128 i off es))) \<le> 525 * length (index_from 128 i off es)"
proof -
  have one: "length (index_item x) \<le> 525" if "x \<in> set (index_from 128 i off es)" for x
  proof -
    have "ie_key x \<in> e_key ` set es" using index_from_keys [of 128 i off es] that by auto
    then have k: "length (ie_key x) \<le> 512" using assms by (auto simp: entry_small_def)
    then have "length (put_uvarint (of_nat (length (ie_key x)) :: u64)) \<le> 3" by (intro uvarint_short) simp
    with k show ?thesis using put_uvarint_length [of "ie_off x"] by (simp add: index_item_def)
  qed
  have "length (concat (map index_item xs)) \<le> 525 * length xs"
    if "\<forall>x\<in>set xs. length (index_item x) \<le> 525" for xs
    using that by (induction xs) auto
  with one show ?thesis by blast
qed

lemma bf_New_size:
  assumes "n \<le> 300000"
  shows "length (bf_Serialize (bf_New n 10)) \<le> 750020"
proof -
  define m where "m = (if n \<le> 0 then 1 else n)"
  define v where "v = (word_of_int (m * 10) :: u64)"
  have m0: "m * 10 \<noteq> 0" by (simp add: m_def)
  have "0 \<le> m * 10" "m * 10 < 2 ^ 63" using assms by (auto simp: m_def)
  then have "unat v = nat (m * 10)"
    unfolding v_def unsigned_of_int by (simp add: take_bit_int_eq_self)
  then have v: "unat v \<le> 3000000" using assms by (auto simp: m_def)
  obtain k where k: "6 \<le> k" "k \<le> 63" "(if nextPowerOf2 v < 64 then 64 else nextPowerOf2 v) = 2 ^ k"
      "k = 6 \<or> 2 ^ k < 2 * unat v"
    using bf_New_numBits [of "m * 10", folded v_def] m0 by blast
  have "(2 :: nat) ^ k < 6000000" using k(4) v by auto
  then have b: "unat (2 ^ k :: u64) div 64 \<le> 93750" using k(2) by (simp add: unat_two_power)
  have "length (bf_bits (bf_New n 10)) = unat ((2 ^ k :: u64) div 64)"
  proof -
    have "bf_bits (bf_New n 10)
        = replicate (unat ((if nextPowerOf2 v < 64 then 64 else nextPowerOf2 v) div 64)) 0"
      by (simp add: bf_New_def Let_def m_def v_def)
    then show ?thesis using k(3) by simp
  qed
  then have "length (bf_bits (bf_New n 10)) \<le> 93750" using b by (simp add: unat_div)
  then show ?thesis
    using put_uvarint_length [of "bf_numBits (bf_New n 10)"]
      put_uvarint_length [of "word_of_int (bf_numHash (bf_New n 10))"]
    by (simp add: bf_Serialize_def length_words)
qed

lemma table_fits_small:
  assumes small: "\<forall>e\<in>set es. entry_small e" and size: "chunk_size es \<le> 4 * 2 ^ 20 + 2 ^ 17" and n: "n \<le> 300000"
  shows "table_fits n es"
proof -
  define c where "c = length es"
  define x where "x = length (index_from 128 0 0 es)"
  have c: "c \<le> 270336" using chunk_count [of es] size by (simp add: c_def)
  have d: "int (length (data_block es)) \<le> chunk_size es + 5 * int c"
    using data_block_size [OF small] by (simp add: c_def)
  have x: "x \<le> 2113" using index_count [of 0 0 es] c by (simp add: x_def c_def)
  have i: "length (concat (map index_item (index_from 128 0 0 es))) \<le> 525 * x"
    unfolding x_def by (rule index_items_size [OF small])
  have h: "length (put_uvarint (128 :: u64)) + length (put_uvarint (of_nat x :: u64)) \<le> 20"
    using put_uvarint_length [of 128] put_uvarint_length [of "of_nat x"] by simp
  have "length (index_block \<lparr>si_entries = index_from 128 0 0 es, si_step = 128\<rparr>) \<le> 20 + 525 * x"
    using i h by (simp add: index_block_def x_def)
  moreover have "int (length (data_block es)) \<le> 5677056" using d size c by simp
  ultimately show ?thesis
    using bf_New_size [OF n] x by (simp add: table_fits_def footerSize_def initialMmapSize_def)
qed

text \<open>Every chunk of a compaction of small entries is written without trouble.\<close>

lemma chunk_size_single: "entry_small e \<Longrightarrow> chunk_size [e] \<le> 2 ^ 17"
  by (simp add: chunk_size_def cost_def entry_small_def)

lemma split_chunks_fit:
  assumes es: "sorted_strict (map e_key es)" "\<forall>e\<in>set es. entry_small e"
  shows "\<forall>c\<in>set (split_chunks [] es). chunk_fits c"
proof
  fix c
  assume c: "c \<in> set (split_chunks [] es)"
  then obtain xs ys where "split_chunks [] es = xs @ c # ys" by (meson split_list)
  then have eq: "es = concat xs @ c @ concat ys" using concat_split [of "[]" es] by simp
  have sub: "\<forall>e\<in>set c. entry_small e" using es(2) eq by auto
  have sorted: "sorted_strict (map e_key c)" using es(1) unfolding eq by (simp add: sorted_wrt_append)
  have "chunk_size c \<le> 4 * 2 ^ 20 + 2 ^ 17"
  proof (cases "length c \<le> 1")
    case True
    with split_nonempty [OF c] obtain e where "c = [e]" by (cases c) auto
    with chunk_size_single [of e] sub show ?thesis by simp
  next
    case False
    then have "chunk_size c \<le> targetSize" using split_bound [OF _ c] by (simp add: chunk_size_def)
    then show ?thesis by (simp add: targetSize_def)
  qed
  with sub sorted show "chunk_fits c"
    by (simp add: chunk_fits_def table_fits_small entriesPerChunk_def entry_small_fits)
qed

lemma merge_chunks_fit:
  assumes "merge_of ess es" "\<forall>e\<in>set (concat ess). entry_small e"
  shows "\<forall>c\<in>set (split_chunks [] (kept level [] es)). chunk_fits c"
proof (rule split_chunks_fit)
  have sorted: "sorted (map e_key es)" using assms(1) keys_sorted by (simp add: merge_of_def)
  show "sorted_strict (map e_key (kept level [] es))"
    using kept_sorted [OF sorted, of "[]" level] by simp
  have "set es = set (concat ess)" using assms(1) by (metis merge_of_def set_mset_mset)
  then show "\<forall>e\<in>set (kept level [] es). entry_small e"
    using assms(2) kept_subset [of level "[]" es] by blast
qed

end
