(* ===== verification/WALLog.thy ===== *)
theory WALLog
  imports WAL
begin

text \<open>
  What the log holds, over the definitions of \<open>WAL\<close>: the invariant \<open>wal_at\<close>
  between the log's state and the bytes appended, kept by every operation;
  replay of whole batches, of the zero bytes that pad the mapping and of what a
  crash leaves; which appends are durable in which sync mode; and the locale
  \<open>append_log\<close>, the contract the engine's write path and recovery use.
\<close>

section \<open>Sequences of batches\<close>

definition log_bytes :: "entry list list \<Rightarrow> byte list" where
  "log_bytes bs = concat (map serializeEntries bs)"

lemma log_bytes_simps [simp]:
  "log_bytes [] = []" "log_bytes (b # bs) = serializeEntries b @ log_bytes bs"
  "log_bytes (bs @ cs) = log_bytes bs @ log_bytes cs"
  by (simp_all add: log_bytes_def)

lemma replay_log:
  "\<forall>b\<in>set bs. batch_fits b \<Longrightarrow>
     replay_loop (log_bytes bs @ rest) = bindr (replay_loop rest) (\<lambda>ys. Inr (concat bs @ ys))"
proof (induction bs)
  case Nil
  show ?case by (cases "replay_loop rest") simp_all
next
  case (Cons b bs)
  then show ?case
    using replay_loop_batch [of b "log_bytes bs @ rest"] by (cases "replay_loop rest") simp_all
qed

lemma uvarint_zero: "uvarint (0 # r) = (0, 1)"
  by (simp add: uvarint_def)

text \<open>Five zero bytes read as an empty batch; so padding ends the replay without an entry.\<close>

lemma get_u32_zero: "get_u32 [0, 0, 0, 0] = Inr 0"
  by (simp add: get_u32_def)

lemma replay_zero_batch: "replay_loop ([0, 0, 0, 0, 0] @ r) = replay_loop r"
  by (subst replay_loop.simps)
    (cases "replay_loop r"; simp add: uvarint_zero get_u32_zero Let_def)

lemma replay_zero_batches: "replay_loop (replicate (5 * k) 0 @ r) = replay_loop r"
proof (induction k)
  case (Suc k)
  have "replicate (5 * Suc k) 0 @ r = [0, 0, 0, 0, 0] @ (replicate (5 * k) 0 @ r)"
    by (simp add: numeral_eq_Suc)
  then show ?case using Suc.IH replay_zero_batch by metis
qed simp

lemma replay_few_zeros:
  assumes "n < 5"
  shows "replay_loop (replicate n 0) = Inr []"
proof (cases n)
  case (Suc m)
  then show ?thesis
    using assms by (subst replay_loop.simps) (simp add: uvarint_zero Let_def)
qed simp

lemma replay_zeros: "replay_loop (replicate n 0) = Inr []"
proof -
  have "replicate n 0 = replicate (5 * (n div 5)) 0 @ replicate (n mod 5) (0 :: byte)"
    by (simp flip: replicate_add)
  then show ?thesis using replay_zero_batches [of "n div 5"] replay_few_zeros [of "n mod 5"] by simp
qed

corollary replay_padded:
  "\<forall>b\<in>set bs. batch_fits b \<Longrightarrow> replay_loop (log_bytes bs @ replicate n 0) = Inr (concat bs)"
  by (simp add: replay_log replay_zeros)

corollary replay_torn:
  "\<forall>b\<in>set bs. batch_fits b \<Longrightarrow> batch_fits es \<Longrightarrow> m < length (serializeEntries es) \<Longrightarrow>
     replay_loop (log_bytes bs @ take m (serializeEntries es)) = Inr (concat bs)"
  by (simp add: replay_log replay_loop_cut)

text \<open>
  Padding whose length is not a multiple of five swallows the head of the batch
  behind it, and the replay ends there.
\<close>

lemma put_uvarint_head:
  assumes "x \<noteq> 0"
  shows "\<exists>b r. put_uvarint x = b # r \<and> b \<noteq> 0"
proof (cases "x < 0x80")
  case True
  have "(ucast x :: byte) \<noteq> 0"
  proof
    assume "(ucast x :: byte) = 0"
    then have "x = ucast (0 :: byte)" using ucast_small(2) [OF True] by metis
    with assms show False by simp
  qed
  with True show ?thesis by (simp add: put_uvarint.simps [of x])
next
  case False
  have "(ucast x OR 0x80 :: byte) \<noteq> 0" using high_byte [of x] by auto
  with False show ?thesis by (simp add: put_uvarint.simps [of x])
qed

lemma get_u32_head:
  assumes "b \<noteq> 0"
  shows "\<exists>v. get_u32 [0, 0, b, c] = Inr v \<and> v \<noteq> 0"
proof -
  have "push_bit 16 (ucast b :: u32) OR push_bit 24 (ucast c) \<noteq> 0"
  proof
    assume *: "push_bit 16 (ucast b :: u32) OR push_bit 24 (ucast c) = 0"
    have "\<not> bit b n" for n
    proof
      assume b: "bit b n"
      then have "n < 8" using bit_imp_le_length [OF b] by simp
      then have "bit (push_bit 16 (ucast b :: u32) OR push_bit 24 (ucast c)) (16 + n)"
        using b by (simp add: bit_simps)
      with * show False by simp
    qed
    then have "b = 0" by (intro bit_word_eqI) simp
    with assms show False by simp
  qed
  then show ?thesis by (simp add: get_u32_def)
qed

lemma replay_misaligned:
  assumes "batch_fits es" "es \<noteq> []"
  shows "replay_loop (replicate (5 * k + 3) 0 @ serializeEntries es @ rest) = Inr []"
proof -
  have "(of_nat (length es) :: u64) \<noteq> 0"
    using batch_fits_count [OF assms(1)] assms(2) by (metis length_0_conv unat_0)
  then obtain b r where h: "put_uvarint (of_nat (length es) :: u64) = b # r" "b \<noteq> 0"
    using put_uvarint_head by blast
  obtain c r' where cr: "serializeEntries es @ rest = b # c # r'"
    using h by (cases r) (auto simp: serializeEntries_def put_u32_def)
  have "replicate (5 * k + 3) 0 @ serializeEntries es @ rest
      = replicate (5 * k) 0 @ 0 # 0 # 0 # b # c # r'"
  proof -
    have "replicate 3 (0 :: byte) = [0, 0, 0]" by (simp add: numeral_eq_Suc)
    then show ?thesis unfolding cr replicate_add by simp
  qed
  then have "replay_loop (replicate (5 * k + 3) 0 @ serializeEntries es @ rest)
      = replay_loop (0 # 0 # 0 # b # c # r')" using replay_zero_batches by metis
  also obtain v where "get_u32 [0, 0, b, c] = Inr v" "v \<noteq> 0" using get_u32_head [OF h(2)] by blast
  then have "replay_loop (0 # 0 # 0 # b # c # r') = Inr []"
    by (subst replay_loop.simps) (simp add: uvarint_zero Let_def)
  finally show ?thesis .
qed

section \<open>The log and its bytes\<close>

text \<open>
  The log is mapped, holds the version byte and \<open>data\<close> up to the write
  position, and zero bytes from there on.
\<close>

definition wal_at :: "wal \<Rightarrow> byte list \<Rightarrow> bool" where
  "wal_at w data \<longleftrightarrow>
     wa_live w \<and> wa_open w \<and> wa_map w = Some (length (wa_file w)) \<and> wa_writeAt w = 1 + length data
     \<and> (\<exists>n. wa_file w = walVersion # data @ replicate n 0)"

lemma grow_size_gt:
  "0 < c \<Longrightarrow> \<exists>n. grow_size c target = Some n \<and> target \<le> n \<and> c \<le> n \<and> (n = c \<or> n < 2 * target)"
proof (induction "target - c" arbitrary: c rule: less_induct)
  case less
  show ?case
  proof (cases "c < target")
    case True
    then have "target - c * 2 < target - c" using less.prems by simp
    from less.hyps [OF this] less.prems obtain n where
      "grow_size (c * 2) target = Some n" "target \<le> n" "c * 2 \<le> n" "n = c * 2 \<or> n < 2 * target" by auto
    with True show ?thesis by (subst grow_size.simps) auto
  next
    case False
    then show ?thesis by (subst grow_size.simps) auto
  qed
qed

text \<open>With no mapping left the loop never ends.\<close>

lemma grow_size_zero_aux: "grow_size c target = Some n \<Longrightarrow> c = 0 \<longrightarrow> target = 0"
  by (rule grow_size.raw_induct [where P = "\<lambda>c target n. c = 0 \<longrightarrow> target = 0"])
    (auto split: if_splits)

lemma grow_size_zero: "0 < target \<Longrightarrow> grow_size 0 target = None"
  using grow_size_zero_aux [of 0 target] by (cases "grow_size 0 target") auto

text \<open>The loop on signed words: it agrees with \<open>grow_size\<close> while the target is within a
  quarter of the range, and beyond that a power of two is doubled to 0 and for ever.\<close>

lemma sint_double:
  fixes c :: "'w::len word"
  assumes "0 \<le> sint c" "2 * sint c < 2 ^ (LENGTH('w) - 1)"
  shows "sint (c * 2) = 2 * sint c"
proof -
  have "c * 2 = word_of_int (2 * sint c)" by simp
  then have "sint (c * 2) = signed_take_bit (LENGTH('w) - 1) (2 * sint c)" by (simp only: sint_sbintrunc')
  also have "\<dots> = 2 * sint c" using assms by (intro signed_take_bit_int_eq_self) (auto intro: order_trans [of _ 0])
  finally show ?thesis .
qed

lemma sint_unat:
  fixes c :: "'w::len word"
  assumes "0 \<le> sint c"
  shows "int (unat c) = sint c"
proof -
  have "(2 :: int) ^ (LENGTH('w) - Suc 0) \<le> 2 ^ LENGTH('w)" by (intro power_increasing) simp_all
  then have "sint c < 2 ^ LENGTH('w)" using sint_less [of c] by linarith
  then have "take_bit LENGTH('w) (sint c) = sint c" using assms by (intro take_bit_int_eq_self)
  then show ?thesis by (simp add: uint_sint)
qed

lemma grow_loop_fits:
  fixes c target :: "'w::len word"
  assumes "0 < sint c" "0 \<le> sint target" "sint target \<le> 2 ^ (LENGTH('w) - 2)"
  shows "\<exists>n. grow_loop c target = Some n \<and> sint target \<le> sint n \<and> 0 < sint n \<and> (n = c \<or> sint n < 2 * sint target)
     \<and> grow_size (unat c) (unat target) = Some (unat n)"
  using assms
proof (induction "nat (sint target - sint c)" arbitrary: c rule: less_induct)
  case less
  have u: "sint c = int (unat c)" "sint target = int (unat target)" using less.prems sint_unat [of c] sint_unat [of target] by simp_all
  show ?case
  proof (cases "sint c < sint target")
    case True
    have "2 \<le> LENGTH('w)"
    proof (rule ccontr)
      assume "\<not> ?thesis"
      then have "LENGTH('w) = 1" by (metis One_nat_def Suc_1 len_gt_0 less_2_cases_iff less_Suc_eq_le linorder_not_less neq0_conv)
      then have "sint c < 1" using sint_less [of c] by simp
      with less.prems(1) show False by simp
    qed
    then have "(2 :: int) * 2 ^ (LENGTH('w) - 2) = 2 ^ (LENGTH('w) - 1)"
      by (metis One_nat_def Suc_diff_le Suc_pred diff_Suc_Suc len_gt_0 numeral_2_eq_2 power_Suc)
    then have d: "sint (c * 2) = 2 * sint c" using True less.prems by (intro sint_double) auto
    then have "nat (sint target - sint (c * 2)) < nat (sint target - sint c)" "0 < sint (c * 2)" using True less.prems by auto
    from less.hyps [OF this less.prems(2,3)] obtain n where
      n: "grow_loop (c * 2) target = Some n" "sint target \<le> sint n" "0 < sint n" "n = c * 2 \<or> sint n < 2 * sint target"
         "grow_size (unat (c * 2)) (unat target) = Some (unat n)" by blast
    have "int (unat (c * 2)) = 2 * int (unat c)" using d u(1) sint_unat [of "c * 2"] less.prems(1) by (simp only: mult_pos_pos)
    then have "unat (c * 2) = unat c * 2" by linarith
    moreover have "unat c < unat target" using True unfolding u of_nat_less_iff .
    ultimately have "grow_size (unat c) (unat target) = Some (unat n)"
      using n(5) by (subst grow_size.simps) simp
    moreover have "grow_loop c target = Some n" using n(1) True by (subst grow_loop.simps) (simp add: word_sless_alt)
    moreover have "sint n < 2 * sint target" using n(4) d True by auto
    ultimately show ?thesis using n(2,3) by blast
  next
    case False
    then have "\<not> unat c < unat target" unfolding u of_nat_less_iff .
    then have "grow_size (unat c) (unat target) = Some (unat c)" by (subst grow_size.simps) simp
    moreover have "grow_loop c target = Some c" using False by (subst grow_loop.simps) (simp add: word_sless_alt)
    ultimately have "grow_loop c target = Some c" "grow_size (unat c) (unat target) = Some (unat c)" by blast+
    then show ?thesis using False less.prems by auto
  qed
qed

lemma grow_loop_zero:
  assumes "0 <s target"
  shows "grow_loop 0 target = None"
proof (rule ccontr)
  assume "grow_loop 0 target \<noteq> None"
  then obtain n where n: "grow_loop 0 target = Some n" by auto
  have "(0 :: 'a word) = 0 \<longrightarrow> \<not> 0 <s target"
    by (rule grow_loop.raw_induct [where P = "\<lambda>c target n. c = 0 \<longrightarrow> \<not> 0 <s target", OF _ n]) (auto split: if_splits)
  with assms show False by simp
qed

lemma sint_power:
  fixes c :: "'w::len word"
  shows "sint (2 ^ j :: 'w word) \<le> 2 ^ (LENGTH('w) - 2)"
proof -
  have "(2 ^ j :: 'w word) = word_of_int (2 ^ j)" by simp
  then have s: "sint (2 ^ j :: 'w word) = signed_take_bit (LENGTH('w) - 1) (2 ^ j)" by (simp only: sint_sbintrunc')
  consider "j < LENGTH('w) - 1" | "j = LENGTH('w) - 1" | "LENGTH('w) - 1 < j" by linarith
  then show ?thesis
  proof cases
    case 1
    then have "signed_take_bit (LENGTH('w) - 1) (2 ^ j) = (2 ^ j :: int)"
      by (intro signed_take_bit_int_eq_self) (auto intro: order_trans [of _ 0])
    then show ?thesis using 1 s by simp
  next
    case 2
    then have "\<not> 0 \<le> sint (2 ^ j :: 'w word)" unfolding s by (simp add: signed_take_bit_nonnegative_iff bit_simps)
    then show ?thesis by (meson le_less_trans less_imp_le not_less zero_less_numeral zero_less_power order.trans)
  next
    case 3
    then have "LENGTH('w) \<le> j" by simp
    then have "(2 ^ j :: 'w word) = 0" by (simp only: exp_eq_zero_iff)
    then have "sint (2 ^ j :: 'w word) = 0" by (simp only: sint_0)
    then show ?thesis by simp
  qed
qed

lemma grow_loop_wraps:
  fixes target :: "'w::len word"
  assumes "2 ^ (LENGTH('w) - 2) < sint target"
  shows "grow_loop (2 ^ j) target = None"
proof (rule ccontr)
  assume "grow_loop (2 ^ j) target \<noteq> None"
  then obtain n where n: "grow_loop (2 ^ j) target = Some n" by auto
  have "(\<exists>i. (2 ^ j :: 'w word) = 2 ^ i) \<longrightarrow> \<not> 2 ^ (LENGTH('w) - 2) < sint target"
  proof (rule grow_loop.raw_induct [where P = "\<lambda>(c :: 'w word) target n.
        (\<exists>i. c = 2 ^ i) \<longrightarrow> \<not> 2 ^ (LENGTH('w) - 2) < sint target", OF _ n], intro impI)
    fix f :: "'w word \<Rightarrow> 'w word \<Rightarrow> 'w word option" and c t n :: "'w word"
    assume IH: "\<And>c t n. f c t = Some n \<Longrightarrow> (\<exists>i. c = 2 ^ i) \<longrightarrow> \<not> 2 ^ (LENGTH('w) - 2) < sint t"
      and step: "(if c <s t then f (c * 2) t else Some c) = Some n" and "\<exists>i. c = 2 ^ i"
    then obtain i where i: "c = 2 ^ i" by blast
    show "\<not> 2 ^ (LENGTH('w) - 2) < sint t"
    proof (cases "c <s t")
      case True
      moreover have "c * 2 = 2 ^ Suc i" by (simp add: i)
      ultimately show ?thesis using IH [of "c * 2" t n] step by metis
    next
      case False
      then have "sint t \<le> sint (2 ^ i :: 'w word)" by (simp add: word_sless_alt i)
      also have "\<dots> \<le> 2 ^ (LENGTH('w) - 2)" by (rule sint_power)
      finally show ?thesis by simp
    qed
  qed
  with assms show False by blast
qed

definition same_handle :: "wal \<Rightarrow> wal \<Rightarrow> bool" where
  "same_handle w w' \<longleftrightarrow>
     wa_path w' = wa_path w \<and> wa_mode w' = wa_mode w \<and> wa_pending w' = wa_pending w
     \<and> wa_signal w' = wa_signal w \<and> wa_chClosed w' = wa_chClosed w \<and> wa_dirty w' = wa_dirty w
     \<and> wa_flushErr w' = wa_flushErr w \<and> wa_synced w' = wa_synced w \<and> wa_done w' = wa_done w
     \<and> wa_ring w' = wa_ring w"

lemma wal_copy_at:
  assumes "wal_at w data" "1 + length data + length buf \<le> length (wa_file w)"
  shows "\<exists>w'. wal_copy w buf = (w', None) \<and> wal_at w' (data @ buf) \<and> same_handle w w'
     \<and> length (wa_file w') = length (wa_file w)"
proof -
  obtain n where n: "wa_file w = walVersion # data @ replicate n 0"
    using assms(1) by (auto simp: wal_at_def)
  have room: "length buf \<le> n" using assms(2) n by simp
  have "copy_at ((walVersion # data) @ replicate n 0) (length (walVersion # data)) buf
      = Inr ((walVersion # data) @ buf @ replicate (n - length buf) 0)"
    using room by (subst copy_at_append) simp_all
  then have "copy_at (wa_file w) (wa_writeAt w) buf
      = Inr (walVersion # (data @ buf) @ replicate (n - length buf) 0)"
    using assms(1) by (simp add: n wal_at_def)
  then show ?thesis
    using assms(1) room n by (auto simp: wal_copy_def wal_at_def same_handle_def)
qed

lemma writeToMmap_at:
  assumes "wal_at w data"
  shows "\<exists>w'. writeToMmap os_ok w buf = (w', None) \<and> wal_at w' (data @ buf) \<and> same_handle w w'"
proof (cases "map_len w < wa_writeAt w + length buf")
  case False
  then show ?thesis
    using wal_copy_at [OF assms, of buf] assms by (auto simp: writeToMmap_def map_len_def wal_at_def)
next
  case True
  have len: "map_len w = length (wa_file w)" "0 < map_len w"
    using assms by (auto simp: map_len_def wal_at_def)
  obtain n where n: "grow_size (map_len w * 2) (wa_writeAt w + length buf) = Some n"
      "wa_writeAt w + length buf \<le> n" "map_len w * 2 \<le> n"
    using grow_size_gt [of "map_len w * 2"] len(2) by auto
  define g where "g = w\<lparr>wa_live := True, wa_file := resize n (wa_file w), wa_map := Some n\<rparr>"
  have grow: "wal_grow os_ok w (wa_writeAt w + length buf) = (g, None)"
    using n(1) assms by (simp add: wal_grow_def g_def wal_at_def Let_def)
  obtain m where m: "wa_file w = walVersion # data @ replicate m 0"
    using assms by (auto simp: wal_at_def)
  have "wa_file g = walVersion # data @ replicate (m + (n - length (wa_file w))) 0"
    using n(3) len by (simp add: g_def resize_extend m flip: replicate_add)
  moreover have "wa_map g = Some (length (wa_file g))" "wa_live g" "wa_open g" "wa_writeAt g = 1 + length data"
    using assms by (simp_all add: g_def wal_at_def)
  ultimately have "wal_at g data" unfolding wal_at_def by blast
  moreover have "1 + length data + length buf \<le> length (wa_file g)"
    using n(2) assms by (simp add: g_def wal_at_def)
  moreover have "same_handle w g" by (simp add: same_handle_def g_def)
  ultimately show ?thesis
    using wal_copy_at [of g data buf] True grow by (auto simp: writeToMmap_def same_handle_def Let_def)
qed

lemma wal_Replay_at:
  assumes "wal_at w data"
  shows "wal_Replay w = replay_loop data"
proof -
  obtain n where n: "wa_file w = (walVersion # data) @ replicate n 0"
    using assms by (auto simp: wal_at_def)
  have "slice (take (map_len w) (wa_file w)) 0 (int (wa_writeAt w)) = Inr (walVersion # data)"
    using assms slice_prefix [of "int (wa_writeAt w)" "walVersion # data" "replicate n 0"]
    by (simp add: wal_at_def map_len_def n)
  then show ?thesis using assms by (simp add: wal_Replay_def wal_body_def wal_at_def)
qed

text \<open>A log whose appends can succeed: not on the ring, and its writer neither stopped nor failed.\<close>

definition wal_up :: "wal \<Rightarrow> bool" where
  "wal_up w \<longleftrightarrow> wa_mode w \<noteq> SyncIouring
     \<and> (wa_mode w = SyncAsync \<longrightarrow> \<not> wa_chClosed w \<and> \<not> wa_flushErr w)"

lemma wal_AppendRaw_at:
  assumes at: "wal_at w data" and up: "wal_up w"
  shows "\<exists>w'. wal_AppendRaw os_ok k w buf = (w', None) \<and> wal_at w' (data @ buf) \<and> wal_up w'
     \<and> wa_path w' = wa_path w \<and> wa_mode w' = wa_mode w"
proof -
  obtain w1 where w1: "writeToMmap os_ok w buf = (w1, None)" "wal_at w1 (data @ buf)" "same_handle w w1"
    using writeToMmap_at [OF at] by blast
  have at': "wal_at (w1\<lparr>wa_signal := s\<rparr>) (data @ buf)" "wal_at (w1\<lparr>wa_pending := p\<rparr>) (data @ buf)"
      "wal_at (w1\<lparr>wa_synced := y\<rparr>) (data @ buf)"
      "wal_at (w1\<lparr>wa_pending := p, wa_synced := y\<rparr>) (data @ buf)" for s p y
    using w1(2) by (simp_all add: wal_at_def)
  show ?thesis
    using w1 up at'
    by (cases "wa_mode w") (auto simp: wal_AppendRaw_def wal_up_def same_handle_def syncFile_def Let_def)
qed

lemma wal_initialMmapSize_pos [simp]: "0 < wal_initialMmapSize"
  by (simp add: wal_initialMmapSize_def)

lemma resize_version:
  "resize wal_initialMmapSize [walVersion] = walVersion # replicate (wal_initialMmapSize - 1) 0"
  by (subst resize_extend) (simp_all add: Suc_leI)

lemma wal_Reset_at:
  assumes "wal_at w data" "wal_up w"
  shows "\<exists>w'. wal_Reset os_ok k w = (w', None) \<and> wal_at w' [] \<and> wal_up w'
     \<and> wa_path w' = wa_path w \<and> wa_mode w' = wa_mode w
     \<and> wa_file w' = walVersion # replicate (wal_initialMmapSize - 1) 0"
  using assms
  by (simp add: wal_Reset_def wal_renew_def wal_at_def wal_up_def Let_def resize_version Suc_leI)

section \<open>Opening and closing\<close>

text \<open>An absent, empty or bare file gives an empty log; otherwise the whole file is the log's content.\<close>

lemma wal_New_empty:
  assumes "map_of fs path \<in> {None, Some [], Some [walVersion]}" "mode \<noteq> SyncIouring"
  shows "\<exists>w fs'. wal_New os_ok k path mode fs = (Inr w, fs') \<and> wal_at w [] \<and> wal_up w
     \<and> wa_path w = path \<and> wa_mode w = mode \<and> map_of fs' = (map_of fs)(path \<mapsto> wa_file w)
     \<and> wa_file w = walVersion # replicate (wal_initialMmapSize - 1) 0 \<and> wa_synced w = []"
proof -
  define w where "w = wal_init path mode (walVersion # replicate (wal_initialMmapSize - 1) 0) 1"
  have "\<exists>fs'. wal_New os_ok k path mode fs = (Inr w, fs') \<and> map_of fs' = (map_of fs)(path \<mapsto> wa_file w)"
    using assms by (auto simp: wal_New_def w_def Let_def resize_version ret_def wal_init_def)
  moreover have "wal_at w []" "wal_up w"
    using assms(2) by (simp_all add: w_def wal_at_def wal_up_def wal_init_def)
  ultimately show ?thesis by (auto simp: w_def wal_init_def)
qed

lemma wal_New_existing:
  assumes "map_of fs path = Some (walVersion # data)" "data \<noteq> []" "mode \<noteq> SyncIouring"
  shows "\<exists>w fs'. wal_New os_ok k path mode fs = (Inr w, fs') \<and> wal_at w data \<and> wal_up w
     \<and> wa_path w = path \<and> wa_mode w = mode \<and> map_of fs' = (map_of fs)(path \<mapsto> wa_file w)
     \<and> wa_file w = walVersion # data"
proof -
  define w where "w = wal_init path mode (walVersion # data) (1 + length data)"
  have "\<exists>fs'. wal_New os_ok k path mode fs = (Inr w, fs') \<and> map_of fs' = (map_of fs)(path \<mapsto> wa_file w)"
    using assms by (auto simp: wal_New_def w_def Let_def ret_def wal_init_def)
  moreover have "\<exists>n. wa_file w = walVersion # data @ replicate n 0"
    by (intro exI [of _ 0]) (simp add: w_def wal_init_def)
  then have "wal_at w data" "wal_up w"
    using assms(3) by (simp_all add: w_def wal_at_def wal_up_def wal_init_def)
  ultimately show ?thesis by (auto simp: w_def wal_init_def)
qed

lemma wal_shut_at:
  assumes "wal_at w data"
  shows "\<exists>w'. wal_shut os_ok w = (w', None) \<and> wa_file w' = walVersion # data \<and> wa_path w' = wa_path w
     \<and> wa_synced w' = wa_synced w"
  using assms by (auto simp: wal_shut_def wal_at_def resize_cut Let_def)

lemma wal_Close_at:
  assumes at: "wal_at w data" and up: "wal_up w"
  shows "\<exists>w'. wal_Close os_ok k w = (w', None) \<and> wa_file w' = walVersion # data \<and> wa_path w' = wa_path w"
proof (cases "wa_mode w = SyncAsync")
  case True
  define w1 where "w1 = aw_drain os_ok (w\<lparr>wa_chClosed := True\<rparr>)"
  have "wal_at w1 data" "wa_path w1 = wa_path w" "\<not> wa_flushErr w1"
    using at up True
    by (simp_all add: w1_def wal_at_def wal_up_def aw_drain_def aw_stop_def aw_flush_def aw_recv_def syncFile_def)
  with wal_shut_at [of w1 data] True up show ?thesis
    by (auto simp: wal_Close_def wal_up_def Let_def w1_def [symmetric])
next
  case False
  then show ?thesis
    using wal_shut_at [OF at] up by (cases "wa_mode w") (auto simp: wal_Close_def wal_up_def)
qed

section \<open>The contract of the log\<close>

definition wal_holds :: "wal \<Rightarrow> entry list list \<Rightarrow> bool" where
  "wal_holds w bs \<longleftrightarrow> wal_at w (log_bytes bs) \<and> wal_up w \<and> (\<forall>b\<in>set bs. batch_fits b)"

locale append_log =
  fixes holds :: "'w \<Rightarrow> entry list list \<Rightarrow> bool"
    and append :: "'w \<Rightarrow> entry list \<Rightarrow> 'w \<times> goerr option"
    and replay :: "'w \<Rightarrow> entry list res"
    and reset :: "'w \<Rightarrow> 'w \<times> goerr option"
  assumes append_holds: "holds w bs \<Longrightarrow> batch_fits b \<Longrightarrow> \<exists>w'. append w b = (w', None) \<and> holds w' (bs @ [b])"
    and reset_holds: "holds w bs \<Longrightarrow> \<exists>w'. reset w = (w', None) \<and> holds w' []"
    and replay_holds: "holds w bs \<Longrightarrow> replay w = Inr (concat bs)"
begin

fun appends :: "'w \<Rightarrow> entry list list \<Rightarrow> 'w \<times> goerr option" where
  "appends w [] = (w, None)"
| "appends w (b # bs) = (case append w b of (w1, Some err) \<Rightarrow> (w1, Some err) | (w1, None) \<Rightarrow> appends w1 bs)"

lemma appends_holds:
  "holds w bs \<Longrightarrow> \<forall>b\<in>set cs. batch_fits b \<Longrightarrow> \<exists>w'. appends w cs = (w', None) \<and> holds w' (bs @ cs)"
proof (induction cs arbitrary: w bs)
  case (Cons c cs)
  obtain w1 where "append w c = (w1, None)" "holds w1 (bs @ [c])"
    using append_holds [of w bs c] Cons.prems by auto
  with Cons.IH [of w1 "bs @ [c]"] Cons.prems show ?case by auto
qed auto

text \<open>Replay returns what was appended since the last reset, in order.\<close>

lemma reset_appends_replay:
  assumes "holds w bs" "\<forall>b\<in>set cs. batch_fits b"
  shows "\<exists>w1 w2. reset w = (w1, None) \<and> appends w1 cs = (w2, None) \<and> replay w2 = Inr (concat cs)"
proof -
  obtain w1 where w1: "reset w = (w1, None)" "holds w1 []" using reset_holds [OF assms(1)] by blast
  obtain w2 where "appends w1 cs = (w2, None)" "holds w2 cs"
    using appends_holds [OF w1(2) assms(2)] by auto
  with w1 replay_holds show ?thesis by blast
qed

end

interpretation wlog: append_log wal_holds "wal_AppendBatch os_ok k" wal_Replay "wal_Reset os_ok k" for k
proof unfold_locales
  show "\<exists>w'. wal_AppendBatch os_ok k w b = (w', None) \<and> wal_holds w' (bs @ [b])"
    if "wal_holds w bs" "batch_fits b" for w bs b
    using wal_AppendRaw_at [of w "log_bytes bs" k "serializeEntries b"] that
    by (auto simp: wal_holds_def wal_AppendBatch_def)
  show "\<exists>w'. wal_Reset os_ok k w = (w', None) \<and> wal_holds w' []" if "wal_holds w bs" for w bs
    using wal_Reset_at [of w "log_bytes bs" k] that by (auto simp: wal_holds_def)
  show "wal_Replay w = Inr (concat bs)" if "wal_holds w bs" for w bs
    using that replay_padded [of bs 0] wal_Replay_at [of w "log_bytes bs"] by (simp add: wal_holds_def)
qed

section \<open>Crash and reopening\<close>

text \<open>
  A process that stops without \<open>Close\<close> leaves the file as long as the mapping.
  The next log holds the appended bytes and the padding as its data.
\<close>

lemma wal_reopen_crashed:
  assumes "wal_at w data" "map_of fs path = Some (wa_file w)" "2 \<le> length (wa_file w)" "mode \<noteq> SyncIouring"
  shows "\<exists>w' fs' n. wal_New os_ok k path mode fs = (Inr w', fs') \<and> wal_at w' (data @ replicate n 0)
     \<and> wal_up w' \<and> n = length (wa_file w) - 1 - length data"
proof -
  obtain n where n: "wa_file w = walVersion # data @ replicate n 0"
    using assms(1) by (auto simp: wal_at_def)
  with assms(3) have "data @ replicate n 0 \<noteq> []" by auto
  from wal_New_existing [OF _ this assms(4), of fs path k] assms(2) n
  obtain w' fs' where "wal_New os_ok k path mode fs = (Inr w', fs')" "wal_at w' (data @ replicate n 0)" "wal_up w'"
    by auto
  then show ?thesis using n by (intro exI [of _ w'] exI [of _ fs'] exI [of _ n]) simp
qed

lemma wal_crash_replay:
  assumes "wal_holds w bs" "map_of fs path = Some (wa_file w)" "2 \<le> length (wa_file w)" "mode \<noteq> SyncIouring"
  shows "\<exists>w' fs'. wal_New os_ok k path mode fs = (Inr w', fs') \<and> wal_Replay w' = Inr (concat bs)"
proof -
  have w: "wal_at w (log_bytes bs)" "\<forall>b\<in>set bs. batch_fits b"
    using assms(1) by (simp_all add: wal_holds_def)
  obtain w' fs' n where w': "wal_New os_ok k path mode fs = (Inr w', fs')"
      "wal_at w' (log_bytes bs @ replicate n 0)"
    using wal_reopen_crashed [OF w(1) assms(2-4)] by blast
  then show ?thesis using wal_Replay_at [OF w'(2)] replay_padded [OF w(2)] by auto
qed

text \<open>
  A log that was created or reset and not written to leaves \<open>64 * 2 ^ 20 - 1\<close>
  zero bytes, three more than a multiple of five.
\<close>

lemma padding_mod_5: "\<exists>k. wal_initialMmapSize - 1 = 5 * k + 3"
  by (intro exI [of _ 13421772]) (simp add: wal_initialMmapSize_def)

lemma wal_crash_empty_append:
  assumes "wa_file w = walVersion # replicate (wal_initialMmapSize - 1) 0"
    and "map_of fs path = Some (wa_file w)" "mode \<noteq> SyncIouring" "batch_fits es" "es \<noteq> []"
  shows "\<exists>w1 fs1 w2. wal_New os_ok k path mode fs = (Inr w1, fs1) \<and> wal_Replay w1 = Inr []
     \<and> wal_AppendBatch os_ok k w1 es = (w2, None) \<and> wal_Replay w2 = Inr []"
proof -
  have "replicate (wal_initialMmapSize - 1) (0 :: byte) \<noteq> []" by (simp add: wal_initialMmapSize_def)
  then obtain w1 fs1 where w1: "wal_New os_ok k path mode fs = (Inr w1, fs1)"
      "wal_at w1 (replicate (wal_initialMmapSize - 1) 0)" "wal_up w1"
    using wal_New_existing [of fs path "replicate (wal_initialMmapSize - 1) 0" mode k] assms by auto
  obtain w2 where w2: "wal_AppendBatch os_ok k w1 es = (w2, None)"
      "wal_at w2 (replicate (wal_initialMmapSize - 1) 0 @ serializeEntries es)"
    using wal_AppendRaw_at [OF w1(2,3), of k "serializeEntries es"] by (auto simp: wal_AppendBatch_def)
  have "wal_Replay w2 = Inr []"
    using wal_Replay_at [OF w2(2)] padding_mod_5 replay_misaligned [OF assms(4,5), of _ "[]"] by auto
  then show ?thesis using w1(1) w2(1) wal_Replay_at [OF w1(2)] replay_zeros by auto
qed

section \<open>Durability\<close>

text \<open>With \<open>SyncAlways\<close> an append that succeeds is on the device, whatever calls failed before.\<close>

lemma append_always_synced:
  "wal_AppendRaw os k w buf = (w', None) \<Longrightarrow> wa_mode w = SyncAlways \<Longrightarrow> wa_synced w' = wa_file w'"
  by (auto simp: wal_AppendRaw_def syncFile_def split: prod.splits option.splits if_splits)

lemma writeToMmap_keeps:
  assumes "writeToMmap os w buf = (w', r)"
  shows "wa_pending w' = wa_pending w" "wa_mode w' = wa_mode w" "wa_synced w' = wa_synced w"
    "wa_dirty w' = wa_dirty w" "wa_signal w' = wa_signal w" "wa_flushErr w' = wa_flushErr w"
    "wa_chClosed w' = wa_chClosed w" "wa_done w' = wa_done w" "wa_path w' = wa_path w"
  using assms
  by (auto simp: writeToMmap_def wal_grow_def wal_copy_def Let_def
      split: prod.splits option.splits if_splits sum.splits)

fun append_raws :: "os \<Rightarrow> kernel \<Rightarrow> wal \<Rightarrow> byte list list \<Rightarrow> wal \<times> goerr option" where
  "append_raws os k w [] = (w, None)"
| "append_raws os k w (b # bs) =
     (case wal_AppendRaw os k w b of
        (w1, Some err) \<Rightarrow> (w1, Some err)
      | (w1, None) \<Rightarrow> append_raws os k w1 bs)"

lemma append_raws_append:
  "append_raws os k w (xs @ ys) =
     (case append_raws os k w xs of
        (w1, Some err) \<Rightarrow> (w1, Some err)
      | (w1, None) \<Rightarrow> append_raws os k w1 ys)"
  by (induction xs arbitrary: w) (auto split: prod.splits option.splits)

section \<open>The periodic mode\<close>

text \<open>
  Calls on one log, each with its own oracle, so that a call may fail and a later
  one succeed; what is returned is the log and the result of every call.
\<close>

datatype log_call = AppendCall "byte list" | ResetCall

fun log_do :: "os \<Rightarrow> kernel \<Rightarrow> log_call \<Rightarrow> wal \<Rightarrow> wal \<times> goerr option" where
  "log_do os k (AppendCall buf) w = wal_AppendRaw os k w buf"
| "log_do os k ResetCall w = wal_Reset os k w"

fun log_calls :: "kernel \<Rightarrow> (os \<times> log_call) list \<Rightarrow> wal \<Rightarrow> wal \<times> goerr option list" where
  "log_calls k [] w = (w, [])"
| "log_calls k ((os, c) # cs) w =
     (case log_do os k c w of (w1, r) \<Rightarrow> case log_calls k cs w1 of (w2, rs) \<Rightarrow> (w2, r # rs))"

text \<open>The appends that reported success, and the calls that failed.\<close>

definition acked :: "(os \<times> log_call) list \<Rightarrow> goerr option list \<Rightarrow> nat" where
  "acked cs rs = length (filter (\<lambda>((_, c), r). c \<noteq> ResetCall \<and> r = None) (zip cs rs))"

definition failed :: "goerr option list \<Rightarrow> nat" where
  "failed rs = length (filter (\<lambda>r. r \<noteq> None) rs)"

lemma acked_simps [simp]:
  "acked [] rs = 0" "acked ((os, c) # cs) (r # rs) = (if c \<noteq> ResetCall \<and> r = None then 1 else 0) + acked cs rs"
  "length cs = length rs \<Longrightarrow> acked (cs @ cs') (rs @ rs') = acked cs rs + acked cs' rs'"
  by (simp_all add: acked_def)

lemma failed_simps [simp]:
  "failed [] = 0" "failed (r # rs) = (if r \<noteq> None then 1 else 0) + failed rs" "failed (rs @ rs') = failed rs + failed rs'"
  by (simp_all add: failed_def)

lemma log_calls_length: "log_calls k cs w = (w', rs) \<Longrightarrow> length rs = length cs"
  by (induction k cs w arbitrary: w' rs rule: log_calls.induct) (auto split: prod.splits)

lemma log_calls_append:
  "log_calls k (xs @ ys) w =
     (case log_calls k xs w of (w1, rs) \<Rightarrow> case log_calls k ys w1 of (w2, rs') \<Rightarrow> (w2, rs @ rs'))"
  by (induction k xs w rule: log_calls.induct) (auto split: prod.splits)

text \<open>One call in the periodic mode.\<close>

lemma wal_renew_pending: "wal_renew os k w = (w', r) \<Longrightarrow>
    wa_pending w' = wa_pending w \<and> wa_mode w' = wa_mode w \<and> wa_synced w' = wa_synced w"
  by (auto simp: wal_renew_def Let_def split: if_splits sum.splits)

lemma reset_periodic:
  assumes "wal_Reset os k w = (w', r)" "wa_mode w = SyncPeriodic"
  shows "wa_pending w' = wa_pending w \<and> wa_mode w' = SyncPeriodic \<and> wa_synced w' = wa_synced w"
  using assms by (auto simp: wal_Reset_def Let_def split: if_splits dest!: wal_renew_pending)

lemma append_periodic:
  assumes "wal_AppendRaw os k w buf = (w', r)" "wa_mode w = SyncPeriodic" "wa_pending w < 100"
  shows "wa_mode w' = SyncPeriodic \<and>
     (r \<noteq> None \<and> wa_synced w' = wa_synced w \<and> wa_pending w' \<le> wa_pending w
      \<or> r = None \<and> wa_pending w = 99 \<and> wa_pending w' = 0 \<and> wa_synced w' = wa_file w'
      \<or> r = None \<and> wa_pending w < 99 \<and> wa_pending w' = wa_pending w + 1 \<and> wa_synced w' = wa_synced w)"
proof -
  obtain w1 r1 where w1: "writeToMmap os w buf = (w1, r1)" by fastforce
  note keeps = writeToMmap_keeps [OF w1]
  show ?thesis
  proof (cases r1)
    case None
    show ?thesis
    proof (cases "wa_pending w = 99")
      case True
      then have "syncFile os (w1\<lparr>wa_pending := 0\<rparr>) = (w', r)"
        using assms(1,2) w1 None keeps(1) by (simp add: wal_AppendRaw_def Let_def)
      then show ?thesis
        using True keeps assms(2) by (auto simp: syncFile_def split: if_splits)
    next
      case False
      then have "w' = w1\<lparr>wa_pending := wa_pending w + 1\<rparr>" "r = None"
        using assms w1 None keeps(1) by (simp_all add: wal_AppendRaw_def Let_def)
      then show ?thesis using False keeps assms(2,3) by simp
    qed
  next
    case (Some e)
    then have "w' = w1" "r = Some e" using assms(1,2) w1 by (simp_all add: wal_AppendRaw_def)
    then show ?thesis using keeps assms(2) by simp
  qed
qed

lemma log_do_periodic:
  assumes "log_do os k c w = (w', r)" "wa_mode w = SyncPeriodic" "wa_pending w < 100"
  obtains (error) "wa_mode w' = SyncPeriodic" "r \<noteq> None" "wa_synced w' = wa_synced w"
      "wa_pending w' \<le> wa_pending w"
    | (sync) "wa_mode w' = SyncPeriodic" "r = None" "c \<noteq> ResetCall" "wa_pending w = 99" "wa_pending w' = 0"
      "wa_synced w' = wa_file w'"
    | (count) "wa_mode w' = SyncPeriodic" "r = None" "c \<noteq> ResetCall" "wa_pending w < 99"
      "wa_pending w' = wa_pending w + 1" "wa_synced w' = wa_synced w"
    | (reset) "wa_mode w' = SyncPeriodic" "r = None" "c = ResetCall" "wa_pending w' = wa_pending w" "wa_synced w' = wa_synced w"
proof (cases c)
  case (AppendCall buf)
  then have "wal_AppendRaw os k w buf = (w', r)" "c \<noteq> ResetCall" using assms(1) by simp_all
  note a = append_periodic [OF this(1) assms(2,3)]
  show thesis using a that(1-3) \<open>c \<noteq> ResetCall\<close> by (elim conjE disjE) simp_all
next
  case ResetCall
  then have "wa_pending w' = wa_pending w \<and> wa_mode w' = SyncPeriodic \<and> wa_synced w' = wa_synced w"
    using reset_periodic assms(1,2) by simp
  then show thesis using that(1,4) ResetCall by (cases "r = None") simp_all
qed

text \<open>
  What is on the device is the log as it was after some of the calls; behind them
  every failed call accounts for at most 99 appends, and 99 more have not been
  synchronised yet.  Without a failure these are what is left of the appends
  after the last full hundred.
\<close>

definition periodic_inv :: "kernel \<Rightarrow> (os \<times> log_call) list \<Rightarrow> wal \<Rightarrow> wal \<Rightarrow> goerr option list \<Rightarrow> bool" where
  "periodic_inv k cs w w' rs \<longleftrightarrow> wa_mode w' = SyncPeriodic \<and> wa_pending w' < 100
     \<and> (failed rs = 0 \<longrightarrow> wa_pending w' = acked cs rs mod 100)
     \<and> (\<exists>xs ys wx rx ry. cs = xs @ ys \<and> rs = rx @ ry \<and> log_calls k xs w = (wx, rx) \<and> log_calls k ys wx = (w', ry)
          \<and> wa_synced w' = (if xs = [] then wa_synced w else wa_file wx)
          \<and> acked ys ry \<le> 99 * failed ry + wa_pending w'
          \<and> (failed rs = 0 \<longrightarrow> acked ys ry = wa_pending w'))"

lemma periodic_invI:
  assumes "wa_mode w' = SyncPeriodic" "wa_pending w' < 100" "cs = xs @ ys" "rs = rx @ ry"
    and "log_calls k xs w = (wx, rx)" "log_calls k ys wx = (w', ry)" "failed rs = 0 \<longrightarrow> wa_pending w' = acked cs rs mod 100"
    and "wa_synced w' = (if xs = [] then wa_synced w else wa_file wx)" "acked ys ry \<le> 99 * failed ry + wa_pending w'"
    and "failed rs = 0 \<longrightarrow> acked ys ry = wa_pending w'"
  shows "periodic_inv k cs w w' rs"
  unfolding periodic_inv_def
  by (rule conjI [OF assms(1)], rule conjI [OF assms(2)], rule conjI [OF assms(7)], rule exI [of _ xs], rule exI [of _ ys],
      rule exI [of _ wx], rule exI [of _ rx], rule exI [of _ ry], intro conjI) (fact assms)+

lemma periodic_window:
  assumes "wa_mode w = SyncPeriodic" "wa_pending w = 0" "log_calls k cs w = (w', rs)"
  shows "periodic_inv k cs w w' rs"
  using assms(3)
proof (induction cs arbitrary: w' rs rule: rev_induct)
  case Nil
  then show ?case using assms(1,2) by (auto simp: periodic_inv_def)
next
  case (snoc oc cs)
  obtain os c where oc: "oc = (os, c)" by fastforce
  obtain v rv r where v: "log_calls k cs w = (v, rv)" "log_do os k c v = (w', r)" "rs = rv @ [r]"
    using snoc.prems unfolding oc by (auto simp: log_calls_append split: prod.splits)
  have len: "length cs = length rv" using log_calls_length [OF v(1)] by simp
  from snoc.IH [OF v(1)] obtain xs ys wx rx ry where IH: "wa_mode v = SyncPeriodic" "wa_pending v < 100"
      "failed rv = 0 \<longrightarrow> wa_pending v = acked cs rv mod 100"
      "cs = xs @ ys" "rv = rx @ ry" "log_calls k xs w = (wx, rx)" "log_calls k ys wx = (v, ry)"
      "wa_synced v = (if xs = [] then wa_synced w else wa_file wx)"
      "acked ys ry \<le> 99 * failed ry + wa_pending v" "failed rv = 0 \<longrightarrow> acked ys ry = wa_pending v"
    unfolding periodic_inv_def by (elim conjE exE) (rule that)
  have leny: "length ys = length ry" using log_calls_length [OF IH(7)] by simp
  have run: "log_calls k (ys @ [oc]) wx = (w', ry @ [r])" using IH(7) v(2) by (simp add: log_calls_append oc)
  have acks: "acked (ys @ [oc]) (ry @ [r]) = acked ys ry + (if c \<noteq> ResetCall \<and> r = None then 1 else 0)"
      "acked (cs @ [oc]) rs = acked cs rv + (if c \<noteq> ResetCall \<and> r = None then 1 else 0)"
    using leny len by (simp_all add: oc v(3))
  have kept: "periodic_inv k (cs @ [oc]) w w' rs"
    if "wa_mode w' = SyncPeriodic" "wa_synced w' = wa_synced v" "wa_pending w' < 100" "failed rs = 0 \<longrightarrow> wa_pending w' = acked (cs @ [oc]) rs mod 100"
      "acked (ys @ [oc]) (ry @ [r]) \<le> 99 * failed (ry @ [r]) + wa_pending w'"
      "failed rs = 0 \<longrightarrow> acked (ys @ [oc]) (ry @ [r]) = wa_pending w'"
  proof (rule periodic_invI)
    show "cs @ [oc] = xs @ ys @ [oc]" by (simp add: IH(4))
    show "rs = rx @ ry @ [r]" by (simp add: IH(5) v(3))
    show "wa_synced w' = (if xs = [] then wa_synced w else wa_file wx)" unfolding that(2) by (rule IH(8))
  qed (use that IH(6) run in simp_all)
  from v(2) IH(1,2) show ?case
  proof (cases rule: log_do_periodic)
    case error
    then show ?thesis using IH(2,9) acks v(3) by (intro kept) auto
  next
    case sync
    then have "failed rs = 0 \<longrightarrow> acked (cs @ [oc]) rs mod 100 = 0"
      using IH(3) acks(2) v(3) by (auto simp: mod_Suc)
    then show ?thesis using sync snoc.prems
      by (intro periodic_invI [of w' "cs @ [oc]" "cs @ [oc]" "[]" rs rs "[]" k w w']) auto
  next
    case count
    then have "failed rs = 0 \<longrightarrow> wa_pending w' = acked (cs @ [oc]) rs mod 100"
      using IH(3) acks(2) v(3) by (auto simp: mod_Suc)
    then show ?thesis using count IH(9,10) acks(1) v(3) by (intro kept) auto
  next
    case reset
    then show ?thesis using IH(2,3,9,10) acks v(3) by (intro kept) auto
  qed
qed

lemma append_raws_calls:
  "append_raws os k w bufs = (w', None) \<Longrightarrow>
     log_calls k (map (\<lambda>b. (os, AppendCall b)) bufs) w = (w', replicate (length bufs) None)"
  by (induction bufs arbitrary: w) (auto split: prod.splits option.splits)

section \<open>The asynchronous mode\<close>

text \<open>Appends by the engine, and rounds of the writer goroutine in between.\<close>

inductive async_run :: "os \<Rightarrow> kernel \<Rightarrow> wal \<Rightarrow> wal \<Rightarrow> bool" for os k w0 where
  start: "async_run os k w0 w0"
| append: "async_run os k w0 w \<Longrightarrow> wal_AppendRaw os k w buf = (w', r) \<Longrightarrow> async_run os k w0 w'"
| writer: "async_run os k w0 w \<Longrightarrow> aw_step os w w' \<Longrightarrow> async_run os k w0 w'"

inductive_cases aw_stepE: "aw_step os w w'"

text \<open>
  The appended bytes are on the device, or there is a token, a dirty flag or a
  recorded error.  \<open>base\<close> is the write position at which the log was opened.
\<close>

definition async_ok :: "nat \<Rightarrow> wal \<Rightarrow> bool" where
  "async_ok base w \<longleftrightarrow>
     wa_mode w = SyncAsync \<and> \<not> wa_chClosed w \<and> wa_writeAt w \<le> length (wa_file w)
     \<and> (wa_live w \<longrightarrow> map_len w = length (wa_file w))
     \<and> (take (wa_writeAt w) (wa_synced w) = take (wa_writeAt w) (wa_file w)
        \<or> wa_writeAt w = base \<or> wa_signal w \<or> wa_dirty w \<or> wa_flushErr w)"

lemma grow_size_ge: "grow_size c target = Some n \<Longrightarrow> c \<le> n"
  using grow_size_gt [of c target] by (cases "c = 0") auto

definition grown :: "wal \<Rightarrow> wal \<Rightarrow> bool" where
  "grown w w' \<longleftrightarrow>
     wa_writeAt w' = wa_writeAt w \<and> take (wa_writeAt w) (wa_file w') = take (wa_writeAt w) (wa_file w)
     \<and> wa_writeAt w' \<le> length (wa_file w') \<and> (wa_live w' \<longrightarrow> map_len w' = length (wa_file w'))"

lemma wal_grow_prefix:
  assumes gr: "wal_grow os w target = (w', r)" and at: "wa_writeAt w \<le> length (wa_file w)"
    and map: "wa_live w \<longrightarrow> map_len w = length (wa_file w)"
  shows "grown w w'"
proof (cases "grow_size (map_len w * 2) target")
  case None
  then show ?thesis using gr at map by (auto simp: wal_grow_def grown_def)
next
  case (Some n)
  show ?thesis
  proof (cases "wa_live w")
    case True
    then have n: "length (wa_file w) \<le> n" using grow_size_ge [OF Some] map by simp
    then have "take (wa_writeAt w) (resize n (wa_file w)) = take (wa_writeAt w) (wa_file w)"
      "wa_writeAt w \<le> n"
      using at by (simp_all add: resize_extend)
    with gr Some True at map show ?thesis
      by (auto simp: wal_grow_def grown_def map_len_def Let_def split: if_splits)
  next
    case False
    then show ?thesis using gr Some at by (simp add: wal_grow_def grown_def)
  qed
qed

lemma wal_copy_signal:
  assumes "wal_copy w buf = (w', r)" "wa_writeAt w \<le> length (wa_file w)"
    and "wa_live w \<longrightarrow> map_len w = length (wa_file w)"
  shows "wa_writeAt w' \<le> length (wa_file w')" "wa_live w' \<longrightarrow> map_len w' = length (wa_file w')"
    "r \<noteq> None \<longrightarrow> w' = w"
  using assms
  by (auto simp: wal_copy_def map_len_def dest: copy_at_length split: if_splits sum.splits)

lemma async_ok_append:
  assumes ok: "async_ok base w" and ap: "wal_AppendRaw os k w buf = (w', r)"
  shows "async_ok base w'"
proof -
  obtain w1 r1 where w1: "writeToMmap os w buf = (w1, r1)" by fastforce
  note keeps = writeToMmap_keeps [OF w1]
  have len: "wa_writeAt w \<le> length (wa_file w)" "wa_live w \<longrightarrow> map_len w = length (wa_file w)"
    using ok by (simp_all add: async_ok_def)
  obtain g rg where g: "(if map_len w < wa_writeAt w + length buf
      then wal_grow os w (wa_writeAt w + length buf) else (w, None)) = (g, rg)" by fastforce
  have g_ok: "wa_writeAt g = wa_writeAt w" "take (wa_writeAt w) (wa_file g) = take (wa_writeAt w) (wa_file w)"
      "wa_writeAt g \<le> length (wa_file g)" "wa_live g \<longrightarrow> map_len g = length (wa_file g)"
    using wal_grow_prefix [OF _ len, of os "wa_writeAt w + length buf" g rg] g len
    by (auto simp: grown_def split: if_splits)
  have shape: "(w1, r1) = (case rg of Some err \<Rightarrow> (g, Some err) | None \<Rightarrow> wal_copy g buf)"
    using w1 g by (auto simp: writeToMmap_def Let_def split: if_splits prod.splits option.splits)
  have inv: "wa_writeAt w1 \<le> length (wa_file w1)" "wa_live w1 \<longrightarrow> map_len w1 = length (wa_file w1)"
      "r1 \<noteq> None \<longrightarrow> w1 = g"
    using shape g_ok wal_copy_signal [of g buf w1 r1] by (auto split: option.splits)
  have mode: "wa_mode w = SyncAsync" "\<not> wa_chClosed w" using ok by (simp_all add: async_ok_def)
  show ?thesis
  proof (cases r1)
    case None
    then have "w' = w1\<lparr>wa_signal := True\<rparr>"
      using ap mode w1 keeps by (simp add: wal_AppendRaw_def)
    then show ?thesis using inv keeps mode by (simp add: async_ok_def map_len_def)
  next
    case (Some err)
    then have "w' = g" using ap mode w1 inv(3) by (simp add: wal_AppendRaw_def)
    then show ?thesis using Some inv g_ok keeps ok by (simp add: async_ok_def)
  qed
qed

lemma aw_flush_cases: "aw_flush os w = w\<lparr>wa_synced := wa_file w\<rparr> \<or> aw_flush os w = w\<lparr>wa_flushErr := True\<rparr>"
  by (simp add: aw_flush_def syncFile_def)

lemma async_ok_recv: "async_ok base w \<Longrightarrow> async_ok base (aw_recv w)"
  by (simp add: async_ok_def aw_recv_def map_len_def)

lemma async_ok_tick: "async_ok base w \<Longrightarrow> async_ok base (aw_tick os w)"
  using aw_flush_cases [of os w] by (auto simp: async_ok_def aw_tick_def map_len_def)

lemma async_ok_step:
  assumes "async_ok base w" "aw_step os w w'"
  shows "async_ok base w'"
  using assms(2,1)
proof (induction rule: aw_step.induct)
  case (aw_stop w)
  then show ?case by (simp add: async_ok_def)
qed (simp_all add: async_ok_recv async_ok_tick)

text \<open>No appended byte is forgotten, however the goroutine is scheduled and whatever fails.\<close>

lemma async_run_ok: "async_run os k w0 w \<Longrightarrow> async_ok base w0 \<Longrightarrow> async_ok base w"
  by (induction rule: async_run.induct) (auto intro: async_ok_append async_ok_step)

lemma async_close_synced:
  assumes ok: "async_ok base w" and cl: "wal_Close os k w = (w', None)"
  shows "wa_writeAt w = base \<or> take (wa_writeAt w) (wa_synced w') = wa_file w'"
proof -
  define w1 where "w1 = aw_drain os (w\<lparr>wa_chClosed := True\<rparr>)"
  have shut: "wal_shut os w1 = (w', None)" "\<not> wa_flushErr w1"
    using ok cl by (auto simp: wal_Close_def async_ok_def w1_def [symmetric] Let_def split: if_splits)
  have w1: "wa_writeAt w1 = wa_writeAt w" "wa_file w1 = wa_file w"
      "wa_writeAt w = base \<or> take (wa_writeAt w) (wa_synced w1) = take (wa_writeAt w) (wa_file w)"
    using ok shut(2)
    by (auto simp: w1_def async_ok_def aw_drain_def aw_stop_def aw_recv_def aw_flush_def syncFile_def
        split: if_splits)
  have "wa_synced w' = wa_synced w1" "wa_file w' = resize (wa_writeAt w1) (wa_file w1)"
    using shut(1) by (auto simp: wal_shut_def Let_def split: if_splits)
  with w1 ok show ?thesis by (simp add: async_ok_def resize_cut)
qed

section \<open>The ring mode\<close>

text \<open>
  Neither \<open>submitWrite\<close> nor anything else moves the write position in this
  mode, so a log closed without error is as long as it was when it was opened.
\<close>

lemma ring_append_writeAt:
  "wal_AppendRaw os k w buf = (w', r) \<Longrightarrow> wa_mode w = SyncIouring \<Longrightarrow>
     wa_writeAt w' = wa_writeAt w \<and> wa_mode w' = SyncIouring"
  by (auto simp: wal_AppendRaw_def split: option.splits)

lemma ring_appends_writeAt:
  "append_raws os k w bufs = (w', r) \<Longrightarrow> wa_mode w = SyncIouring \<Longrightarrow>
     wa_writeAt w' = wa_writeAt w \<and> wa_mode w' = SyncIouring"
  by (induction bufs arbitrary: w)
    (auto dest!: ring_append_writeAt split: prod.splits option.splits)

lemma ring_close_length:
  "wal_Close os k w = (w', None) \<Longrightarrow> wa_mode w = SyncIouring \<Longrightarrow> length (wa_file w') = wa_writeAt w"
  by (auto simp: wal_Close_def wal_shut_def Let_def split: option.splits sum.splits if_splits prod.splits)

end
