(* ===== verification/LSMSpec.thy ===== *)
theory LSMSpec
  imports LSM TableSize WALLog
begin

text \<open>
  The engine's invariant and what each operation does to the versions of a key.
  \<open>esss\<close> are the contents of the levels' tables.  \<open>look\<close> is the entry a read
  finds, the first in the order memtable, level 0 from front to back, level 1
  and so on; \<open>versions\<close> are all the entries of a key in the store.
\<close>

section \<open>The invariant\<close>

type_synonym contents = "entry list list list"

definition paths_of :: "lsm \<Rightarrow> gostr list" where
  "paths_of L = map s_path (concat (l_levels L))"

text \<open>No table file has a name the engine has still to give.\<close>

definition fresh_from :: "int \<Rightarrow> gostr set \<Rightarrow> bool" where
  "fresh_from n ps \<longleftrightarrow>
     (\<forall>m \<ge> n. flush_name m \<notin> ps \<and> (\<forall>l. 0 < l \<and> l < 2 ^ 63 \<longrightarrow> compact_name l m \<notin> ps))"

definition lsm_inv :: "lsm \<Rightarrow> contents \<Rightarrow> bool" where
  "lsm_inv L esss \<longleftrightarrow>
     length (l_levels L) = l_numLevels L \<and> 0 < l_numLevels L \<and> int (l_numLevels L) < 2 ^ 63
     \<and> list_all2 (level_at (d_files (l_disk L))) (l_levels L) esss
     \<and> mt_wf (l_memtable L)
     \<and> ss_LevelSizes (l_stats L) = level_sizes (l_levels L)
     \<and> distinct (paths_of L) \<and> fresh_from (l_nextID L) (set (paths_of L)) \<and> 0 \<le> l_nextID L"

definition mem_entries :: "lsm \<Rightarrow> entry list" where
  "mem_entries L = snd (mt_Entries (l_memtable L))"

definition stored_entries :: "contents \<Rightarrow> entry list" where
  "stored_entries esss = concat (concat esss)"

definition look :: "lsm \<Rightarrow> contents \<Rightarrow> gostr \<Rightarrow> entry option" where
  "look L esss k =
     (case mt_Get (l_memtable L) k of Some e \<Rightarrow> Some e | None \<Rightarrow> newest (stored_entries esss) k)"

definition visible :: "entry option \<Rightarrow> gostr option" where
  "visible r = (case r of None \<Rightarrow> None | Some e \<Rightarrow> answer e)"

definition versions :: "lsm \<Rightarrow> contents \<Rightarrow> gostr \<Rightarrow> entry set" where
  "versions L esss k = {e. e \<in> set (mem_entries L) \<union> set (stored_entries esss) \<and> e_key e = k}"

definition clean_for :: "lsm \<Rightarrow> gostr \<Rightarrow> bool" where
  "clean_for L k \<longleftrightarrow> (\<forall>s\<in>set (concat (l_levels L)). st_clean s k)"

lemma level_holds: "level_at fs ss ess \<Longrightarrow> list_all2 st_holds ss ess"
  unfolding level_at_def by (auto elim: list_all2_mono intro: table_at_holds)

lemma lsm_inv_holds: "lsm_inv L esss \<Longrightarrow> list_all2 (list_all2 st_holds) (l_levels L) esss"
  unfolding lsm_inv_def by (auto elim: list_all2_mono intro: level_holds)

section \<open>Reading\<close>

text \<open>Only the counters of the filter change.\<close>

definition same_but_stats :: "lsm \<Rightarrow> lsm \<Rightarrow> bool" where
  "same_but_stats L L' \<longleftrightarrow> (\<exists>a b. L' = upd_stats (\<lambda>s. s\<lparr>ss_FilesOpened := a, ss_BloomFilterSkips := b\<rparr>) L)"

lemma same_but_stats_refl: "same_but_stats L L"
  unfolding same_but_stats_def
  by (intro exI [of _ "ss_FilesOpened (l_stats L)"] exI [of _ "ss_BloomFilterSkips (l_stats L)"])
    (simp add: upd_stats_def)

lemma same_but_stats_upd:
  "same_but_stats (upd_stats (\<lambda>x. x\<lparr>ss_BloomFilterSkips := f x\<rparr>) L) L' \<Longrightarrow> same_but_stats L L'"
  "same_but_stats (upd_stats (\<lambda>x. x\<lparr>ss_FilesOpened := f x\<rparr>) L) L' \<Longrightarrow> same_but_stats L L'"
  by (auto simp: same_but_stats_def upd_stats_def)

lemma same_but_stats_trans: "same_but_stats L L1 \<Longrightarrow> same_but_stats L1 L2 \<Longrightarrow> same_but_stats L L2"
  by (auto simp: same_but_stats_def upd_stats_def) blast

lemma newest_append: "newest (xs @ ys) k = (case newest xs k of Some e \<Rightarrow> Some e | None \<Rightarrow> newest ys k)"
  by (cases "newest xs k") (simp_all add: newest_def find_append)

lemma get_tables_ok:
  assumes "list_all2 st_holds ss ess" "\<forall>s\<in>set ss. st_clean s k"
  shows "\<exists>L'. get_tables ss k L = (Inr (newest (concat ess) k), L') \<and> same_but_stats L L'"
  using assms
proof (induction ss ess arbitrary: L rule: list_all2_induct)
  case Nil
  show ?case by (simp add: newest_def same_but_stats_refl)
next
  case (Cons s ss es ess)
  let ?skip = "upd_stats (\<lambda>x. x\<lparr>ss_BloomFilterSkips := ss_BloomFilterSkips x + 1\<rparr>) L"
  let ?open = "upd_stats (\<lambda>x. x\<lparr>ss_FilesOpened := ss_FilesOpened x + 1\<rparr>) L"
  obtain b where b: "st_MayContain s k = Inr b" using st_MayContain_total [OF Cons.hyps(1)] by blast
  have hit: "bindr (st_MayContain s k) (\<lambda>m. if m then st_Get s k else Inr None) = Inr (newest es k)"
    using sst.lookup_contents [OF Cons.hyps(1)] Cons.prems by (simp add: newest_def)
  have IH: "\<exists>L'. get_tables ss k L1 = (Inr (newest (concat ess) k), L') \<and> same_but_stats L1 L'" for L1
    using Cons.IH [of L1] Cons.prems by simp
  show ?case
  proof (cases b)
    case False
    then have "newest es k = None" using hit b by simp
    with b False IH [of ?skip] show ?thesis
      by (auto simp: newest_append intro: same_but_stats_upd)
  next
    case True
    then have g: "st_Get s k = Inr (newest es k)" using hit b by simp
    show ?thesis
    proof (cases "newest es k")
      case None
      with b True g IH [of ?open] show ?thesis
        by (auto simp: newest_append Let_def intro: same_but_stats_upd)
    next
      case (Some e)
      with b True g show ?thesis
        by (auto simp: newest_append Let_def intro: same_but_stats_upd same_but_stats_refl)
    qed
  qed
qed

lemma get_levels_ok:
  assumes "list_all2 (list_all2 st_holds) sss esss" "\<forall>s\<in>set (concat sss). st_clean s k"
  shows "\<exists>L'. get_levels sss k L = (Inr (newest (stored_entries esss) k), L') \<and> same_but_stats L L'"
  using assms
proof (induction sss esss arbitrary: L rule: list_all2_induct)
  case Nil
  show ?case by (simp add: newest_def stored_entries_def same_but_stats_refl)
next
  case (Cons ss sss ess esss)
  obtain L1 where L1: "get_tables ss k L = (Inr (newest (concat ess) k), L1)" "same_but_stats L L1"
    using get_tables_ok [OF Cons.hyps(1)] Cons.prems by force
  obtain L2 where "get_levels sss k L1 = (Inr (newest (stored_entries esss) k), L2)" "same_but_stats L1 L2"
    using Cons.IH [of L1] Cons.prems by auto
  with L1 show ?case
    by (cases "newest (concat ess) k")
      (auto simp: newest_append stored_entries_def intro: same_but_stats_trans)
qed

lemma lsm_Get_look:
  assumes inv: "lsm_inv L esss" and clean: "clean_for L k"
  shows "\<exists>L'. lsm_Get k L = (Inr (visible (look L esss k)), L') \<and> same_but_stats L L'"
proof (cases "mt_Get (l_memtable L) k")
  case (Some e)
  then show ?thesis by (auto simp: lsm_Get_def look_def visible_def same_but_stats_refl)
next
  case None
  have len: "take (l_numLevels L) (l_levels L) = l_levels L" using inv by (simp add: lsm_inv_def)
  obtain L1 where "get_levels (l_levels L) k L = (Inr (newest (stored_entries esss) k), L1)" "same_but_stats L L1"
    using get_levels_ok [OF lsm_inv_holds [OF inv]] clean by (force simp: clean_for_def)
  with None len show ?thesis
    by (auto simp: lsm_Get_def look_def visible_def andthen_def ret_def split: option.splits)
qed

section \<open>Writing\<close>

fun put_entries :: "i64 \<Rightarrow> (gostr \<times> gostr) list \<Rightarrow> entry list" where
  "put_entries t [] = []"
| "put_entries t ((k, v) # kvs) = \<lparr>e_key = k, e_val = v, e_ts = t, e_tomb = False\<rparr> # put_entries (t + 1) kvs"

lemma length_put_entries [simp]: "length (put_entries t kvs) = length kvs"
  by (induction t kvs rule: put_entries.induct) auto

text \<open>The inline loop of \<open>PutBatch\<close> does what \<open>serializeEntries\<close> and a replay of the entries do.\<close>

lemma put_loop_eq:
  "put_loop t kvs (buf, m) = (buf @ batch_data (put_entries t kvs), replay_into (put_entries t kvs) m)"
  by (induction t kvs "(buf, m)" arbitrary: buf m rule: put_loop.induct)
    (simp_all add: batch_data_def replay_into_def entry_fields_def bool_byte_def)

lemma put_plain_eq: "put_plain t kvs m = replay_into (put_entries t kvs) m"
  by (induction t kvs m rule: put_plain.induct) (simp_all add: replay_into_def)

lemma put_buffer:
  "patch_crc (length (put_uvarint (of_nat (length kvs) :: u64)))
     (put_uvarint (of_nat (length kvs)) @ [0, 0, 0, 0] @ batch_data (put_entries t kvs))
   = serializeEntries (put_entries t kvs)"
  by (simp add: patch_crc_def serializeEntries_def)

lemma replay_into_get:
  "mt_Get (replay_into es m) k = (case last_write es k of Some e \<Rightarrow> Some (stored e) | None \<Rightarrow> mt_Get m k)"
  unfolding replay_into_def by (rule mt.get_writes)

lemma replay_into_wf: "mt_wf m \<Longrightarrow> mt_wf (replay_into es m)"
  unfolding replay_into_def by (rule mt.inv_writes)

lemma put_entries_live: "e \<in> set (put_entries t kvs) \<Longrightarrow> \<not> e_tomb e"
  by (induction t kvs rule: put_entries.induct) auto

lemma last_write_mem: "last_write es k = Some e \<Longrightarrow> e \<in> set es \<and> e_key e = k"
  unfolding last_write_def by (metis (mono_tags, lifting) find_Some_iff nth_mem set_rev)

text \<open>A log that is absent, or open and not failed, so that appends succeed.\<close>

definition wal_ready :: "lsm \<Rightarrow> bool" where
  "wal_ready L \<longleftrightarrow> (\<forall>w. l_wal L = Some w \<longrightarrow> wal_up w \<and> (\<exists>data. wal_at w data))"

definition puts :: "i64 \<Rightarrow> (gostr \<times> gostr) list \<Rightarrow> lsm \<Rightarrow> lsm" where
  "puts now kvs L = L\<lparr>l_memtable := replay_into (put_entries now kvs) (l_memtable L)\<rparr>"

text \<open>The write part of \<open>PutBatch\<close>, before the size of the memtable is looked at.\<close>

definition put_step :: "os \<Rightarrow> kernel \<Rightarrow> i64 \<Rightarrow> (gostr \<times> gostr) list \<Rightarrow> (unit, lsm) prog" where
  "put_step os k now kvs L =
     (if l_wal L = None then (Inr (), puts now kvs L)
      else
        andthen (on_wal (\<lambda>w. wal_AppendBatch os k w (put_entries now kvs))) (\<lambda>_.
          update (upd_stats (\<lambda>s. s\<lparr>ss_WALBytesWritten := ss_WALBytesWritten s + put_estimate kvs\<rparr>)))
          (puts now kvs L))"

lemma PutBatch_step:
  "kvs \<noteq> [] \<Longrightarrow> PutBatch os k now kvs L =
     andthen (put_step os k now kvs) (\<lambda>_ L.
       if l_flushThreshold L \<le> mt_Size (l_memtable L) then flushMemtable os k L else (Inr (), L)) L"
  using put_buffer [of kvs now]
  by (simp add: PutBatch_def put_step_def put_loop_eq put_plain_eq puts_def wal_AppendBatch_def
      update_def andthen_def Let_def)

lemma put_step_ok:
  assumes "wal_ready L"
  shows "\<exists>w s. put_step os_ok k now kvs L = (Inr (), (puts now kvs L)\<lparr>l_wal := w, l_stats := s\<rparr>)
     \<and> ss_LevelSizes s = ss_LevelSizes (l_stats L)
     \<and> (\<forall>v. w = Some v \<longrightarrow> wal_up v \<and> (\<exists>data. wal_at v data))
     \<and> (\<forall>v data. l_wal L = Some v \<longrightarrow> wal_at v data \<longrightarrow>
          (\<exists>v'. w = Some v' \<and> wal_at v' (data @ serializeEntries (put_entries now kvs)) \<and> wal_up v'))"
proof (cases "l_wal L")
  case None
  then have "put_step os_ok k now kvs L = (Inr (), (puts now kvs L)\<lparr>l_wal := None, l_stats := l_stats L\<rparr>)"
    by (simp add: put_step_def puts_def)
  with None show ?thesis by (intro exI [of _ None] exI [of _ "l_stats L"]) simp
next
  case (Some w)
  then obtain data where at: "wal_at w data" "wal_up w" using assms by (auto simp: wal_ready_def)
  obtain w' where w': "wal_AppendBatch os_ok k w (put_entries now kvs) = (w', None)"
      "wal_at w' (data @ serializeEntries (put_entries now kvs))" "wal_up w'"
    using wal_AppendRaw_at [OF at, of k] by (auto simp: wal_AppendBatch_def)
  have all: "wal_at w' (data' @ serializeEntries (put_entries now kvs))" if "wal_at w data'" for data'
    using wal_AppendRaw_at [OF that at(2), of k "serializeEntries (put_entries now kvs)"] w'(1)
    by (auto simp: wal_AppendBatch_def)
  define s where "s = (l_stats L)\<lparr>ss_WALBytesWritten := ss_WALBytesWritten (l_stats L) + put_estimate kvs\<rparr>"
  have "put_step os_ok k now kvs L = (Inr (), (puts now kvs L)\<lparr>l_wal := Some w', l_stats := s\<rparr>)"
    using w'(1) Some by (simp add: put_step_def on_wal_def andthen_def update_def upd_stats_def puts_def s_def)
  with w' all Some show ?thesis
    by (intro exI [of _ "Some w'"] exI [of _ s]) (auto simp: s_def)
qed

text \<open>A write changes only the memtable, the log and a counter.\<close>

lemma lsm_inv_memtable:
  "lsm_inv L esss \<Longrightarrow> mt_wf m \<Longrightarrow> ss_LevelSizes s = ss_LevelSizes (l_stats L) \<Longrightarrow>
     lsm_inv (L\<lparr>l_memtable := m, l_wal := w, l_stats := s\<rparr>) esss"
  by (simp add: lsm_inv_def paths_of_def)

lemma look_puts:
  "look (puts now kvs L) esss x =
     (case last_write (put_entries now kvs) x of Some e \<Rightarrow> Some e | None \<Rightarrow> look L esss x)"
  using last_write_mem [of "put_entries now kvs" x] put_entries_live [of _ now kvs]
  by (auto simp: look_def puts_def replay_into_get stored_def split: option.splits)

lemma PutBatch_no_flush:
  assumes inv: "lsm_inv L esss" and wal: "wal_ready L" and kvs: "kvs \<noteq> []"
    and small: "mt_Size (l_memtable (puts now kvs L)) < l_flushThreshold L"
  shows "\<exists>L'. PutBatch os_ok k now kvs L = (Inr (), L') \<and> lsm_inv L' esss \<and> wal_ready L'
     \<and> l_memtable L' = l_memtable (puts now kvs L) \<and> l_levels L' = l_levels L \<and> l_disk L' = l_disk L
     \<and> (\<forall>x. look L' esss x =
          (case last_write (put_entries now kvs) x of Some e \<Rightarrow> Some e | None \<Rightarrow> look L esss x))
     \<and> (\<forall>v data. l_wal L = Some v \<longrightarrow> wal_at v data \<longrightarrow>
          (\<exists>v'. l_wal L' = Some v' \<and> wal_at v' (data @ serializeEntries (put_entries now kvs)) \<and> wal_up v'))
     \<and> l_numLevels L' = l_numLevels L \<and> l_nextID L' = l_nextID L"
proof -
  obtain w s where st: "put_step os_ok k now kvs L = (Inr (), (puts now kvs L)\<lparr>l_wal := w, l_stats := s\<rparr>)"
     "ss_LevelSizes s = ss_LevelSizes (l_stats L)"
     "\<forall>v. w = Some v \<longrightarrow> wal_up v \<and> (\<exists>data. wal_at v data)"
     "\<forall>v data. l_wal L = Some v \<longrightarrow> wal_at v data \<longrightarrow>
          (\<exists>v'. w = Some v' \<and> wal_at v' (data @ serializeEntries (put_entries now kvs)) \<and> wal_up v')"
    using put_step_ok [OF wal, of k now kvs] by (elim exE conjE) (rule that)
  let ?L = "(puts now kvs L)\<lparr>l_wal := w, l_stats := s\<rparr>"
  have "mt_wf (replay_into (put_entries now kvs) (l_memtable L))"
    using inv by (intro replay_into_wf) (simp add: lsm_inv_def)
  from lsm_inv_memtable [OF inv this st(2), of w] have "lsm_inv ?L esss" by (simp add: puts_def)
  moreover have "look ?L esss x = look (puts now kvs L) esss x" for x by (simp add: look_def)
  moreover have "PutBatch os_ok k now kvs L = (Inr (), ?L)"
    using small by (simp add: PutBatch_step [OF kvs] andthen_def st(1) puts_def)
  moreover have "wal_ready ?L" using st(3) by (simp add: wal_ready_def)
  ultimately show ?thesis using look_puts st(4) by (intro exI [of _ ?L]) (simp add: puts_def)
qed

lemma Delete_run:
  assumes wal: "wal_ready L"
  shows "\<exists>w s. lsm_Delete os_ok k now key L
      = (Inr (), L\<lparr>l_memtable := mt_Delete (l_memtable L) key now, l_wal := w, l_stats := s\<rparr>)
     \<and> ss_LevelSizes s = ss_LevelSizes (l_stats L)
     \<and> (\<forall>v. w = Some v \<longrightarrow> wal_up v \<and> (\<exists>data. wal_at v data))
     \<and> (l_wal L = None \<longrightarrow> w = None)
     \<and> (\<forall>v data. l_wal L = Some v \<longrightarrow> wal_at v data \<longrightarrow>
          (\<exists>v'. w = Some v' \<and> wal_at v' (data @ serializeEntries [\<lparr>e_key = key, e_val = [], e_ts = now, e_tomb = True\<rparr>])
             \<and> wal_up v'))"
proof (cases "l_wal L")
  case None
  then show ?thesis
    by (intro exI [of _ None] exI [of _ "l_stats L"])
      (simp add: lsm_Delete_def ret_def andthen_def update_def)
next
  case (Some w)
  let ?e = "\<lparr>e_key = key, e_val = [], e_ts = now, e_tomb = True\<rparr>"
  let ?s = "(l_stats L)\<lparr>ss_WALBytesWritten := ss_WALBytesWritten (l_stats L) + int (length key + 16)\<rparr>"
  obtain data where at: "wal_at w data" "wal_up w" using wal Some by (auto simp: wal_ready_def)
  obtain w' where w': "wal_Append os_ok k w ?e = (w', None)"
      "wal_at w' (data @ serializeEntries [?e])" "wal_up w'"
    using wal_AppendRaw_at [OF at, of k] by (auto simp: wal_AppendBatch_def wal_Append_def)
  have all: "wal_at w' (data' @ serializeEntries [?e])" if "wal_at w data'" for data'
    using wal_AppendRaw_at [OF that at(2), of k "serializeEntries [?e]"] w'(1)
    by (auto simp: wal_AppendBatch_def wal_Append_def)
  have "lsm_Delete os_ok k now key L
      = (Inr (), L\<lparr>l_memtable := mt_Delete (l_memtable L) key now, l_wal := Some w', l_stats := ?s\<rparr>)"
    using w'(1) Some by (simp add: lsm_Delete_def on_wal_def andthen_def update_def upd_stats_def)
  with w' all Some show ?thesis by (intro exI [of _ "Some w'"] exI [of _ ?s]) auto
qed

lemma lsm_Delete_ok:
  assumes inv: "lsm_inv L esss" and wal: "wal_ready L"
  shows "\<exists>L'. lsm_Delete os_ok k now key L = (Inr (), L') \<and> lsm_inv L' esss \<and> wal_ready L'
     \<and> l_levels L' = l_levels L \<and> l_disk L' = l_disk L \<and> l_memtable L' = mt_Delete (l_memtable L) key now
     \<and> (\<forall>x. look L' esss x = (if x = key then Some \<lparr>e_key = key, e_val = [], e_ts = now, e_tomb = True\<rparr>
                               else look L esss x))"
proof -
  obtain w s where run: "lsm_Delete os_ok k now key L
      = (Inr (), L\<lparr>l_memtable := mt_Delete (l_memtable L) key now, l_wal := w, l_stats := s\<rparr>)"
      "ss_LevelSizes s = ss_LevelSizes (l_stats L)"
      "\<forall>w'. w = Some w' \<longrightarrow> wal_up w' \<and> (\<exists>data. wal_at w' data)"
    using Delete_run [OF wal, of k now key] by (elim exE conjE) (rule that)
  have "mt_wf (mt_Delete (l_memtable L) key now)" using inv by (simp add: lsm_inv_def)
  note inv' = lsm_inv_memtable [OF inv this run(2), of w]
  show ?thesis
    by (rule exI, rule conjI, rule run(1)) (use inv' run(3) in \<open>simp add: look_def wal_ready_def\<close>)
qed

section \<open>Statistics\<close>

text \<open>The reported write amplification is the exact quotient up to a relative error of \<open>2 ^ -50\<close>.\<close>

lemma WriteAmp_near:
  defines "q \<equiv> \<lambda>st. of_int (ss_SSTableBytesWritten st + ss_CompactionBytesWritten st) / of_int (ss_WALBytesWritten st)"
  assumes "ss_WALBytesWritten st \<noteq> 0"
  shows "\<bar>WriteAmp st - q st\<bar> \<le> \<bar>q st\<bar> / 2 ^ 50"
  using assms f64_quotient_near by (simp add: WriteAmp_def Let_def)

end
