(* ===== verification/FlushSpec.thy ===== *)
theory FlushSpec
  imports LSMSpec
begin

text \<open>
  Changes of the set of tables: adding the tables of new files, dropping the
  inputs of a compaction, and the flush of the memtable, which is proved to
  keep every version of every key.
\<close>

section \<open>Files, levels and sizes together\<close>

definition adj :: "fs \<Rightarrow> sstable list list \<Rightarrow> int list \<Rightarrow> lsm \<Rightarrow> lsm" where
  "adj fs levels sizes L =
     L\<lparr>l_disk := (l_disk L)\<lparr>d_files := fs\<rparr>, l_levels := levels,
       l_stats := (l_stats L)\<lparr>ss_LevelSizes := sizes\<rparr>\<rparr>"

abbreviation files_of :: "lsm \<Rightarrow> fs" where
  "files_of L \<equiv> d_files (l_disk L)"

abbreviation sizes_of :: "lsm \<Rightarrow> int list" where
  "sizes_of L \<equiv> ss_LevelSizes (l_stats L)"

definition total_size :: "sstable list \<Rightarrow> int" where
  "total_size ss = sum_list (map s_dataSize ss)"

lemma adj_simps [simp]:
  "files_of (adj fs levels sizes L) = fs" "l_levels (adj fs levels sizes L) = levels"
  "sizes_of (adj fs levels sizes L) = sizes" "l_memtable (adj fs levels sizes L) = l_memtable L"
  "l_wal (adj fs levels sizes L) = l_wal L" "l_nextID (adj fs levels sizes L) = l_nextID L"
  "l_numLevels (adj fs levels sizes L) = l_numLevels L"
  "l_maxL0Files (adj fs levels sizes L) = l_maxL0Files L"
  "l_baseLevelSize (adj fs levels sizes L) = l_baseLevelSize L"
  "adj fs' levels' sizes' (adj fs levels sizes L) = adj fs' levels' sizes' L"
  by (simp_all add: adj_def)

lemma adj_id: "adj (files_of L) (l_levels L) (sizes_of L) L = L"
  by (simp add: adj_def)

definition remove_all :: "sstable list \<Rightarrow> fs \<Rightarrow> fs" where
  "remove_all ss fs = foldl (\<lambda>f s. fs_remove (s_path s) f) fs ss"

lemma map_of_remove_all:
  "map_of (remove_all ss fs) q = (if q \<in> s_path ` set ss then None else map_of fs q)"
  unfolding remove_all_def by (induction ss arbitrary: fs) auto

lemma drop_tables_ok:
  "i < length (sizes_of L) \<Longrightarrow>
     drop_tables os_ok i ss L
     = adj (remove_all ss (files_of L)) (l_levels L) ((sizes_of L)[i := sizes_of L ! i - total_size ss]) L"
proof (induction ss arbitrary: L)
  case Nil
  show ?case by (simp add: remove_all_def total_size_def adj_def)
next
  case (Cons s ss)
  let ?L = "add_level_size i (- s_dataSize s)
      (L\<lparr>l_disk := (l_disk L)\<lparr>d_files := fs_remove (s_path s) (files_of L)\<rparr>\<rparr>)"
  have "i < length (sizes_of ?L)" using Cons.prems by (simp add: add_level_size_def upd_stats_def)
  from Cons.IH [OF this] Cons.prems show ?case
    by (simp add: remove_all_def total_size_def adj_def add_level_size_def upd_stats_def algebra_simps)
qed

text \<open>Opening the written files.\<close>

lemma add_outputs_ok:
  assumes "list_all2 (written fs) ps ess" "files_of L = fs" "i < length (sizes_of L)" "i < length (l_levels L)"
  shows "\<exists>ss. add_outputs os_ok i ps L = (Inr (),
       adj fs ((l_levels L)[i := l_levels L ! i @ ss]) ((sizes_of L)[i := sizes_of L ! i + total_size ss]) L)
     \<and> level_at fs ss ess \<and> map s_path ss = ps"
  using assms
proof (induction ps ess arbitrary: L rule: list_all2_induct)
  case Nil
  then show ?case
    by (intro exI [of _ "[]"]) (auto simp: total_size_def adj_def level_at_def)
next
  case (Cons p ps es ess)
  obtain bf where bf: "map_of fs p = Some (table_file 128 bf es)" "table_ok 128 bf es"
    using Cons.hyps(1) unfolding written_def by blast
  define s where "s = opened p 128 bf es"
  have path: "s_path s = p" by (simp add: s_def opened_def)
  have op: "st_OpenNoVerify os_ok (files_of L) p = Inr s"
    unfolding s_def by (rule st_OpenNoVerify_table [OF bf(2)]) (simp add: Cons.prems(1) bf(1))
  have at: "table_at fs s es"
    unfolding table_at_def path by (intro exI [of _ bf]) (simp add: s_def bf)
  define L1 where "L1 = add_level_size i (s_dataSize s) (set_level i (l_levels L ! i @ [s]) L)"
  have L1: "L1 = adj fs ((l_levels L)[i := l_levels L ! i @ [s]])
      ((sizes_of L)[i := sizes_of L ! i + s_dataSize s]) L"
    using Cons.prems(1) by (auto simp: L1_def add_level_size_def set_level_def upd_stats_def adj_def)
  have "files_of L1 = fs" "i < length (sizes_of L1)" "i < length (l_levels L1)"
    using Cons.prems by (simp_all add: L1)
  from Cons.IH [OF this] obtain ss where ss: "add_outputs os_ok i ps L1 = (Inr (),
       adj fs ((l_levels L1)[i := l_levels L1 ! i @ ss]) ((sizes_of L1)[i := sizes_of L1 ! i + total_size ss]) L1)"
     "level_at fs ss ess" "map s_path ss = ps" by blast
  have "add_outputs os_ok i (p # ps) L = add_outputs os_ok i ps L1" using op by (simp add: L1_def)
  then show ?case
    using ss at path Cons.prems
    by (intro exI [of _ "s # ss"]) (simp add: L1 total_size_def level_at_def add.assoc)
qed

text \<open>Changing one level of the store, and files no table uses.\<close>

lemma level_files:
  assumes at: "level_at fs ss ess" and same: "\<forall>s\<in>set ss. map_of fs' (s_path s) = map_of fs (s_path s)"
  shows "level_at fs' ss ess"
  unfolding level_at_def
proof (rule list_all2_all_nthI)
  show len: "length ss = length ess" using at list_all2_lengthD by (auto simp: level_at_def)
  fix i
  assume i: "i < length ss"
  then have "table_at fs (ss ! i) (ess ! i)" using at by (simp add: level_at_def list_all2_conv_all_nth)
  moreover have "map_of fs' (s_path (ss ! i)) = map_of fs (s_path (ss ! i))" using same i by simp
  ultimately show "table_at fs' (ss ! i) (ess ! i)" by (rule table_at_other)
qed

lemma store_files:
  assumes "list_all2 (level_at fs) levels esss"
    and "\<forall>s\<in>set (concat levels). map_of fs' (s_path s) = map_of fs (s_path s)"
  shows "list_all2 (level_at fs') levels esss"
  using assms
proof (induction levels esss rule: list_all2_induct)
  case (Cons ss sss ess esss)
  then show ?case using level_files [of fs ss ess fs'] by simp
qed simp

lemma level_sizes_update:
  assumes "i < length levels" "n = total_size ss"
  shows "level_sizes (levels[i := ss]) = (level_sizes levels)[i := n]"
  using assms by (simp add: level_sizes_def map_update total_size_def)

lemma total_size_append [simp]: "total_size (xs @ ys) = total_size xs + total_size ys"
  by (simp add: total_size_def)

lemma level_sizes_nth: "i < length levels \<Longrightarrow> level_sizes levels ! i = total_size (levels ! i)"
  by (simp add: level_sizes_def total_size_def)

lemma fresh_less: "fresh_from n ps \<Longrightarrow> n \<le> m \<Longrightarrow> fresh_from m ps"
  by (auto simp: fresh_from_def)

lemma fresh_subset: "fresh_from n ps \<Longrightarrow> qs \<subseteq> ps \<Longrightarrow> fresh_from n qs"
  by (auto simp: fresh_from_def)

lemma fresh_insert_flush:
  assumes "fresh_from (n + 1) ps" "0 \<le> n"
  shows "fresh_from (n + 1) (insert (flush_name n) ps)"
proof -
  have "flush_name m \<noteq> flush_name n" if "n + 1 \<le> m" for m
    using flush_name_inj [of m n] assms(2) that by auto
  moreover have "compact_name l m \<noteq> flush_name n" if "0 < l" "l < 2 ^ 63" for l m
    using name_level_compact [of l m] name_level_flush [of n] that by auto
  ultimately show ?thesis using assms(1) by (auto simp: fresh_from_def)
qed

section \<open>Writing the table of a flush\<close>

lemma append_entries_ok:
  "w_inv n step w es \<Longrightarrow>
     \<exists>w'. append_entries os_ok w xs fs = (Inr w', fs) \<and> w_inv n step w' (es @ xs) \<and> w_path w' = w_path w"
proof (induction xs arbitrary: w es)
  case (Cons x xs)
  obtain w1 where w1: "append_or_close os_ok w x fs = (Inr w1, fs)" "w_inv n step w1 (es @ [x])" "w_path w1 = w_path w"
    using append_or_close_ok [OF Cons.prems] by blast
  with Cons.IH [OF w1(2)] show ?case by auto
qed auto

lemma write_table_ok:
  assumes "table_fits n es" "sorted_strict (map e_key es)" "\<forall>e\<in>set es. entry_fits e"
  shows "\<exists>w fs1 w1 w2 fs2. CreateWriter os_ok p n 128 fs = (Inr w, fs1)
     \<and> append_entries os_ok w es fs1 = (Inr w1, fs1) \<and> w_Close os_ok w1 fs1 = (Inr w2, fs2)
     \<and> written fs2 p es \<and> (\<forall>q. q \<noteq> p \<longrightarrow> map_of fs2 q = map_of fs q)"
proof -
  define w where "w = w_init p n 128"
  define fs1 where "fs1 = AList.update p (replicate initialMmapSize 0) (AList.update p [] fs)"
  have "CreateWriter os_ok p n 128 fs = (Inr w, fs1)"
    by (simp add: CreateWriter_def ret_def w_def fs1_def)
  moreover have "w_inv n 128 w []" using w_inv_init [of n 128 p] by (simp add: w_def)
  from append_entries_ok [OF this, of es fs1] obtain w1 where
    w1: "append_entries os_ok w es fs1 = (Inr w1, fs1)" "w_inv n 128 w1 es" "w_path w1 = p"
    by (auto simp: w_def w_init_def)
  moreover obtain w2 where "w_Close os_ok w1 fs1 = (Inr w2, AList.update p (table_file 128 (w_bloom w1) es)
        (AList.update p (w_mmap w2) fs1))" "table_ok 128 (w_bloom w1) es"
    using w_inv_closes [OF w1(2) assms, of fs1] w1(3) by auto
  ultimately show ?thesis by (auto simp: written_def fs1_def)
qed

section \<open>Flush\<close>

lemma on_files_ok:
  "m (files_of L) = (Inr x, fs) \<Longrightarrow> on_files m L = (Inr x, L\<lparr>l_disk := (l_disk L)\<lparr>d_files := fs\<rparr>\<rparr>)"
  by (simp add: on_files_def on_disk_def)

lemma wal_reset_ready:
  assumes "wal_ready L"
  shows "\<exists>w. reset_or_remove os_ok k p L = (Inr (), L\<lparr>l_wal := w\<rparr>)
     \<and> (l_wal L = None \<longrightarrow> w = None)
     \<and> (\<forall>v. l_wal L = Some v \<longrightarrow> (\<exists>v'. w = Some v' \<and> wal_holds v' [] \<and> wa_mode v' = wa_mode v
            \<and> wa_file v' = walVersion # replicate (wal_initialMmapSize - 1) 0))"
proof (cases "l_wal L")
  case None
  then show ?thesis by (intro exI [of _ None]) (simp add: reset_or_remove_def on_wal_def)
next
  case (Some v)
  then obtain data where "wal_at v data" "wal_up v" using assms by (auto simp: wal_ready_def)
  from wal_Reset_at [OF this, of k] Some show ?thesis
    by (auto simp: reset_or_remove_def on_wal_def wal_holds_def)
qed

lemma manifest_ok:
  "lsm_writeManifest os_ok L
     = (Inr (), L\<lparr>l_disk := (l_disk L)\<lparr>d_manifest := Some (snapshot (l_levels L)), d_tmp := None\<rparr>\<rparr>)"
  by (simp add: lsm_writeManifest_def on_disk_def writeManifest_ok)

definition mem_fits :: "lsm \<Rightarrow> bool" where
  "mem_fits L \<longleftrightarrow> table_fits (int (length (mem_entries L))) (mem_entries L) \<and> (\<forall>e\<in>set (mem_entries L). entry_fits e)"

text \<open>
  The state a flush leaves once the table is in level 0, before the manifest is
  written; \<open>flushed\<close> is the state behind the manifest, before level 0 may be compacted.
\<close>

definition in_level0 :: "lsm \<Rightarrow> contents \<Rightarrow> lsm \<Rightarrow> contents \<Rightarrow> bool" where
  "in_level0 L esss L' esss' \<longleftrightarrow>
     lsm_inv L' esss' \<and> esss' = esss[0 := esss ! 0 @ [mem_entries L]]
     \<and> l_memtable L' = mt_New \<and> wal_ready L' \<and> l_numLevels L' = l_numLevels L
     \<and> l_flushThreshold L' = l_flushThreshold L \<and> l_maxL0Files L' = l_maxL0Files L
     \<and> (\<exists>s. l_levels L' = (l_levels L)[0 := l_levels L ! 0 @ [s]] \<and> table_at (files_of L') s (mem_entries L)
            \<and> s_path s = flush_name (l_nextID L))
     \<and> (\<forall>w. l_wal L = Some w \<longrightarrow> (\<exists>w'. l_wal L' = Some w' \<and> wal_holds w' [] \<and> wa_mode w' = wa_mode w
            \<and> wa_file w' = walVersion # replicate (wal_initialMmapSize - 1) 0))
     \<and> (l_wal L = None \<longrightarrow> l_wal L' = None) \<and> l_nextID L' = l_nextID L + 1"

definition flushed :: "lsm \<Rightarrow> contents \<Rightarrow> lsm \<Rightarrow> contents \<Rightarrow> bool" where
  "flushed L esss L' esss' \<longleftrightarrow>
     in_level0 L esss L' esss' \<and> d_manifest (l_disk L') = Some (snapshot (l_levels L'))"

lemma paths_of_insert:
  assumes "l_levels L' = (l_levels L)[0 := l_levels L ! 0 @ [s]]" "0 < length (l_levels L)"
  shows "mset (paths_of L') = add_mset (s_path s) (mset (paths_of L))"
proof -
  obtain ss sss where "l_levels L = ss # sss" using assms(2) by (cases "l_levels L") auto
  with assms(1) show ?thesis by (simp add: paths_of_def)
qed

lemma lsm_inv_add:
  assumes inv: "lsm_inv L esss" and "written fs p es"
    and files: "\<forall>q. q \<noteq> p \<longrightarrow> map_of fs q = map_of (files_of L1) q"
    and s: "table_at fs s es" "s_path s = p" and p: "p = flush_name (l_nextID L)"
    and L1: "files_of L1 = files_of L" and L': "l_levels L' = (l_levels L)[0 := l_levels L ! 0 @ [s]]"
      "files_of L' = fs" "l_memtable L' = mt_New" "l_numLevels L' = l_numLevels L"
      "l_nextID L' = l_nextID L + 1"
      "sizes_of L' = (sizes_of L)[0 := sizes_of L ! 0 + total_size [s]]"
  shows "lsm_inv L' (esss[0 := esss ! 0 @ [es]])"
proof -
  have n: "length (l_levels L) = l_numLevels L" "0 < l_numLevels L" "0 \<le> l_nextID L"
      "fresh_from (l_nextID L) (set (paths_of L))" "distinct (paths_of L)"
      "sizes_of L = level_sizes (l_levels L)"
      "list_all2 (level_at (files_of L)) (l_levels L) esss"
    using inv by (auto simp: lsm_inv_def)
  have new: "p \<notin> set (paths_of L)" using n(3,4) p by (auto simp: fresh_from_def)
  then have "\<forall>t\<in>set (concat (l_levels L)). map_of fs (s_path t) = map_of (files_of L) (s_path t)"
    using files L1 by (auto simp: paths_of_def)
  from store_files [OF n(7) this] have st: "list_all2 (level_at fs) (l_levels L) esss" .
  then have "level_at fs (l_levels L ! 0) (esss ! 0)"
    using n(1,2) by (simp add: list_all2_conv_all_nth)
  then have "level_at fs (l_levels L ! 0 @ [s]) (esss ! 0 @ [es])"
    using s(1) by (auto simp: level_at_def intro: list_all2_appendI)
  then have "list_all2 (level_at fs) (l_levels L') (esss[0 := esss ! 0 @ [es]])"
    unfolding L'(1) by (rule list_all2_update_cong [OF st])
  moreover have m: "mset (paths_of L') = add_mset p (mset (paths_of L))"
    using paths_of_insert [OF L'(1)] n(1,2) s(2) by simp
  then have "set (paths_of L') = insert p (set (paths_of L))" by (metis set_mset_add_mset_insert set_mset_mset)
  then have "fresh_from (l_nextID L + 1) (set (paths_of L'))"
    using fresh_insert_flush [of "l_nextID L" "set (paths_of L)"] fresh_less [OF n(4)] n(3) p by simp
  moreover have "distinct (paths_of L')"
  proof -
    have "mset (p # paths_of L) = mset (paths_of L')" using m by simp
    moreover have "distinct (p # paths_of L)" using n(5) new by simp
    ultimately show ?thesis by (metis mset_eq_imp_distinct_iff)
  qed
  moreover have "sizes_of L' = level_sizes (l_levels L')"
    using n(1,2,6) L' by (simp add: level_sizes_update level_sizes_nth)
  ultimately show ?thesis
    using inv L' n(3) by (simp add: lsm_inv_def mt.inv_put)
qed

text \<open>A flush up to the new table in level 0, and up to the wake-up of the compaction goroutine.\<close>

definition flush_head :: "os \<Rightarrow> kernel \<Rightarrow> (unit, lsm) prog" where
  "flush_head os k L =
     (let (m1, es) = mt_Entries (l_memtable L); p = flush_name (l_nextID L) in
       andthen (update (\<lambda>L. L\<lparr>l_memtable := m1, l_nextID := l_nextID L + 1\<rparr>)) (\<lambda>_.
       andthen (on_files (CreateWriter os p (int (length es)) 128)) (\<lambda>w.
       andthen (on_files (append_entries os w es)) (\<lambda>w1.
       andthen (on_files (w_Close os w1)) (\<lambda>w2.
       andthen (update (upd_stats (\<lambda>s. s\<lparr>ss_SSTableBytesWritten := ss_SSTableBytesWritten s + int (w_Info w2)\<rparr>))) (\<lambda>_.
       andthen (update (\<lambda>L. L\<lparr>l_memtable := mt_New\<rparr>)) (\<lambda>_.
       andthen (reset_or_remove os k p) (\<lambda>_.
       add_outputs os 0 [p]))))))) L)"

definition flush_part :: "os \<Rightarrow> kernel \<Rightarrow> (unit, lsm) prog" where
  "flush_part os k =
     andthen (flush_head os k) (\<lambda>_.
     andthen (lsm_writeManifest os) (\<lambda>_.
     update (\<lambda>L. L\<lparr>l_compactCh := True\<rparr>)))"

lemma andthen_assoc_fun: "andthen (andthen m f) g = andthen m (\<lambda>x. andthen (f x) g)"
  by (rule ext) simp

lemma andthen_local: "m s = m' s \<Longrightarrow> andthen m g s = andthen m' g s"
  by (simp add: andthen_def)

lemma flushMemtable_part:
  assumes "mt_Count (l_memtable L) \<noteq> 0"
  shows "flushMemtable os k L = andthen (flush_part os k) (\<lambda>_ L.
      if l_maxL0Files L * 2 < length (l_levels L ! 0) then compactL0ToL1 os L else (Inr (), L)) L"
proof -
  obtain m1 es where e: "mt_Entries (l_memtable L) = (m1, es)" by fastforce
  show ?thesis
    unfolding flushMemtable_def if_not_P [OF assms] Let_def e prod.case flush_part_def andthen_assoc_fun
    by (rule sym, subst andthen_local, unfold flush_head_def Let_def e prod.case, rule refl)
      (simp only: andthen_assoc_fun)
qed

lemma on_files_then:
  "m (files_of L) = (Inr x, fs) \<Longrightarrow>
     andthen (on_files m) f L = f x (L\<lparr>l_disk := (l_disk L)\<lparr>d_files := fs\<rparr>\<rparr>)"
  by (simp add: andthen_def on_files_ok)

lemma flush_head_ok:
  assumes inv: "lsm_inv L esss" and wal: "wal_ready L" and fit: "mem_fits L"
  shows "\<exists>L'. flush_head os_ok k L = (Inr (), L') \<and> in_level0 L esss L' (esss[0 := esss ! 0 @ [mem_entries L]])
     \<and> d_manifest (l_disk L') = d_manifest (l_disk L)"
proof -
  define es where "es = mem_entries L"
  define p where "p = flush_name (l_nextID L)"
  obtain m1 where e: "mt_Entries (l_memtable L) = (m1, es)"
    by (cases "mt_Entries (l_memtable L)") (simp add: es_def mem_entries_def)
  define L1 where "L1 = L\<lparr>l_memtable := m1, l_nextID := l_nextID L + 1\<rparr>"
  have wf: "mt_wf (l_memtable L)" using inv by (simp add: lsm_inv_def)
  have "sorted_strict (map e_key es)" using mt_Entries_sorted [OF wf] by (simp add: es_def mem_entries_def)
  then obtain w fs1 w1 w2 fs2 where W: "CreateWriter os_ok p (int (length es)) 128 (files_of L1) = (Inr w, fs1)"
      "append_entries os_ok w es fs1 = (Inr w1, fs1)" "w_Close os_ok w1 fs1 = (Inr w2, fs2)"
      "written fs2 p es" "\<forall>q. q \<noteq> p \<longrightarrow> map_of fs2 q = map_of (files_of L1) q"
    using write_table_ok [of "int (length es)" es p "files_of L1"] fit by (auto simp: mem_fits_def es_def)
  define L2 where "L2 = (upd_stats (\<lambda>s. s\<lparr>ss_SSTableBytesWritten := ss_SSTableBytesWritten s + int (w_Info w2)\<rparr>)
      (L1\<lparr>l_disk := (l_disk L1)\<lparr>d_files := fs2\<rparr>\<rparr>))\<lparr>l_memtable := mt_New\<rparr>"
  have L2: "l_wal L2 = l_wal L" "files_of L2 = fs2" "l_levels L2 = l_levels L" "sizes_of L2 = sizes_of L"
      "l_numLevels L2 = l_numLevels L" "l_nextID L2 = l_nextID L + 1" "l_memtable L2 = mt_New"
      "l_maxL0Files L2 = l_maxL0Files L" "l_flushThreshold L2 = l_flushThreshold L"
      "d_manifest (l_disk L2) = d_manifest (l_disk L)"
    by (simp_all add: L2_def L1_def upd_stats_def)
  have "wal_ready L2" using wal by (simp add: wal_ready_def L2)
  then obtain v where v: "reset_or_remove os_ok k p L2 = (Inr (), L2\<lparr>l_wal := v\<rparr>)" "l_wal L = None \<longrightarrow> v = None"
      "\<forall>u. l_wal L = Some u \<longrightarrow> (\<exists>u'. v = Some u' \<and> wal_holds u' [] \<and> wa_mode u' = wa_mode u
          \<and> wa_file u' = walVersion # replicate (wal_initialMmapSize - 1) 0)"
    using wal_reset_ready [of L2 k p] L2(1) by auto
  define L3 where "L3 = L2\<lparr>l_wal := v\<rparr>"
  have lens: "0 < length (sizes_of L3)" "0 < length (l_levels L3)"
    using inv by (simp_all add: L3_def L2 lsm_inv_def level_sizes_def)
  obtain ss where ss: "add_outputs os_ok 0 [p] L3 = (Inr (),
        adj fs2 ((l_levels L3)[0 := l_levels L3 ! 0 @ ss]) ((sizes_of L3)[0 := sizes_of L3 ! 0 + total_size ss]) L3)"
      "level_at fs2 ss [es]" "map s_path ss = [p]"
    using add_outputs_ok [of fs2 "[p]" "[es]" L3 0] W(4) lens by (auto simp: L3_def L2)
  then obtain s where s: "ss = [s]" "table_at fs2 s es" "s_path s = p"
    by (auto simp: level_at_def list_all2_Cons2)
  define levels where "levels = (l_levels L)[0 := l_levels L ! 0 @ [s]]"
  define L4 where "L4 = adj fs2 levels ((sizes_of L)[0 := sizes_of L ! 0 + total_size [s]]) L3"
  have out: "add_outputs os_ok 0 [p] L3 = (Inr (), L4)" using ss(1) by (simp add: L4_def levels_def s(1) L3_def L2)
  have tail: "andthen (reset_or_remove os_ok k p) (\<lambda>_. add_outputs os_ok 0 [p]) L2 = (Inr (), L4)"
    by (simp add: andthen_def v(1) L3_def [symmetric] out del: add_outputs.simps)
  have run: "flush_head os_ok k L = (Inr (), L4)"
    unfolding flush_head_def Let_def e prod.case p_def [symmetric]
    using W(1-3) tail
    by (simp add: L1_def [symmetric] on_files_then L2_def [symmetric])
  have L4: "l_levels L4 = levels" "files_of L4 = fs2" "l_memtable L4 = mt_New" "l_wal L4 = v"
      "l_numLevels L4 = l_numLevels L" "l_nextID L4 = l_nextID L + 1" "l_maxL0Files L4 = l_maxL0Files L"
      "sizes_of L4 = (sizes_of L)[0 := sizes_of L ! 0 + total_size [s]]"
      "l_flushThreshold L4 = l_flushThreshold L"
    by (simp_all add: L4_def L3_def L2) (simp add: adj_def L2)
  have man: "d_manifest (l_disk L4) = d_manifest (l_disk L)" by (simp add: L4_def L3_def adj_def L2)
  have inv': "lsm_inv L4 (esss[0 := esss ! 0 @ [es]])"
    by (rule lsm_inv_add [OF inv W(4,5) s(2,3)]) (simp_all add: p_def L4 levels_def L1_def)
  moreover have "wal_ready L4"
    using v(2,3) by (cases "l_wal L") (auto simp: wal_ready_def L4 wal_holds_def)
  moreover have "\<forall>w. l_wal L = Some w \<longrightarrow> (\<exists>w'. l_wal L4 = Some w' \<and> wal_holds w' [] \<and> wa_mode w' = wa_mode w
      \<and> wa_file w' = walVersion # replicate (wal_initialMmapSize - 1) 0)"
    using v(3) by (simp add: L4)
  moreover have "l_levels L4 = (l_levels L)[0 := l_levels L ! 0 @ [s]]" by (simp add: L4 levels_def)
  ultimately have "in_level0 L esss L4 (esss[0 := esss ! 0 @ [mem_entries L]])"
    using s(2,3) v(2) unfolding in_level0_def es_def [symmetric] p_def [symmetric] L4 by blast
  with run man show ?thesis by blast
qed

lemma flush_part_ok:
  assumes "lsm_inv L esss" "wal_ready L" "mem_fits L"
  shows "\<exists>L'. flush_part os_ok k L = (Inr (), L') \<and> flushed L esss L' (esss[0 := esss ! 0 @ [mem_entries L]])"
proof -
  obtain L1 where L1: "flush_head os_ok k L = (Inr (), L1)"
      "in_level0 L esss L1 (esss[0 := esss ! 0 @ [mem_entries L]])"
    using flush_head_ok [OF assms] by blast
  define L2 where "L2 = L1\<lparr>l_disk := (l_disk L1)\<lparr>d_manifest := Some (snapshot (l_levels L1)), d_tmp := None\<rparr>,
      l_compactCh := True\<rparr>"
  have "flush_part os_ok k L = (Inr (), L2)"
    by (simp add: flush_part_def andthen_def L1(1) manifest_ok update_def L2_def)
  moreover have "flushed L esss L2 (esss[0 := esss ! 0 @ [mem_entries L]])"
    using L1(2) unfolding flushed_def in_level0_def by (auto simp: L2_def lsm_inv_def paths_of_def wal_ready_def)
  ultimately show ?thesis by blast
qed

end
