(* ===== verification/CompactStep.thy ===== *)
theory CompactStep
  imports FlushSpec
begin

text \<open>
  The two compactions of the engine on its tables: both replace some tables of
  two levels by the chunks of their merge, keep the engine's invariant, and
  write a manifest that lists the new levels.
\<close>

section \<open>The contents of a table\<close>

definition cont :: "sstable \<Rightarrow> entry list" where
  "cont s = (case st_AllEntries s of Inl _ \<Rightarrow> [] | Inr es \<Rightarrow> es)"

definition contents_of :: "lsm \<Rightarrow> contents" where
  "contents_of L = map (map cont) (l_levels L)"

lemma holds_cont: "st_holds s es \<Longrightarrow> cont s = es"
  by (simp add: cont_def st_AllEntries_holds)

lemma table_at_cont: "table_at fs s es \<Longrightarrow> cont s = es"
  by (rule holds_cont) (rule table_at_holds)

lemma level_at_cont: "level_at fs ss ess \<longleftrightarrow> (\<forall>s\<in>set ss. table_at fs s (cont s)) \<and> ess = map cont ss"
  unfolding level_at_def
proof
  assume *: "list_all2 (table_at fs) ss ess"
  have "ess = map cont ss"
    by (rule nth_equalityI) (use * in \<open>auto simp: list_all2_conv_all_nth intro: table_at_cont [symmetric]\<close>)
  with * show "(\<forall>s\<in>set ss. table_at fs s (cont s)) \<and> ess = map cont ss"
    by (auto simp: list_all2_conv_all_nth in_set_conv_nth)
qed (auto simp: list_all2_conv_all_nth)

lemma levels_at_cont:
  "list_all2 (level_at fs) sss esss \<longleftrightarrow>
     (\<forall>s\<in>set (concat sss). table_at fs s (cont s)) \<and> esss = map (map cont) sss"
proof (induction sss arbitrary: esss)
  case (Cons ss sss)
  show ?case by (cases esss) (auto simp: Cons.IH level_at_cont [of fs ss])
qed simp

lemma lsm_inv_contents: "lsm_inv L esss \<Longrightarrow> esss = contents_of L"
  by (simp add: lsm_inv_def levels_at_cont contents_of_def)

text \<open>The invariant over the contents the tables have.\<close>

lemma lsm_inv_iff:
  "lsm_inv L esss \<longleftrightarrow> esss = contents_of L
     \<and> length (l_levels L) = l_numLevels L \<and> 0 < l_numLevels L \<and> int (l_numLevels L) < 2 ^ 63
     \<and> (\<forall>s\<in>set (concat (l_levels L)). table_at (files_of L) s (cont s))
     \<and> mt_wf (l_memtable L) \<and> sizes_of L = level_sizes (l_levels L)
     \<and> distinct (paths_of L) \<and> fresh_from (l_nextID L) (set (paths_of L)) \<and> 0 \<le> l_nextID L"
  by (auto simp: lsm_inv_def levels_at_cont contents_of_def)

section \<open>Parts of two levels\<close>

lemma total_size_mset: "mset xs = mset ys \<Longrightarrow> total_size xs = total_size ys"
  unfolding total_size_def by (metis mset_map sum_mset_sum_list)

lemma concat_update:
  "i < length xss \<Longrightarrow> mset (concat (xss[i := ys])) + mset (xss ! i) = mset (concat xss) + mset ys"
proof (induction xss arbitrary: i)
  case (Cons xs xss)
  then show ?case by (cases i) (auto simp: ac_simps)
qed simp

lemma concat_update2:
  assumes "i < j" "j < length xss"
    and "mset (xss ! i) = mset (ins1 @ rem1)" "mset (xss ! j) = mset (ins2 @ rem2)"
  shows "mset (concat xss) = mset (ins1 @ ins2) + mset (concat (xss[i := rem1, j := rem2]))"
proof -
  have "mset (concat (xss[i := rem1])) + mset (xss ! i) = mset (concat xss) + mset rem1"
    by (rule concat_update) (use assms in simp)
  moreover have "mset (concat (xss[i := rem1, j := rem2])) + mset (xss[i := rem1] ! j)
      = mset (concat (xss[i := rem1])) + mset rem2"
    by (rule concat_update) (use assms in simp)
  ultimately show ?thesis using assms by (simp add: ac_simps)
qed

lemma fresh_outputs:
  assumes fr: "fresh_from n ps" and n: "0 \<le> n" and j: "0 < j" "j < 2 ^ 63"
  shows "fresh_from (n + int m) (ps \<union> set (out_names j n m))"
proof -
  have "flush_name a \<noteq> compact_name j b" for a b
    using name_level_compact [of j b] name_level_flush [of a] j by auto
  moreover have "compact_name l a \<noteq> compact_name j (n + int i)"
    if "n + int m \<le> a" "0 < l" "l < 2 ^ 63" "i < m" for l a i
  proof
    assume eq: "compact_name l a = compact_name j (n + int i)"
    then have "l = j" using compact_name_level [of l j a "n + int i"] j that by simp
    then have "a = n + int i" using compact_name_inj [of a "n + int i" j] eq n that by simp
    with that show False by simp
  qed
  ultimately show ?thesis using fresh_less [OF fr, of "n + int m"] by (auto simp: fresh_from_def out_names_def)
qed

lemma out_names_distinct: "0 \<le> n \<Longrightarrow> distinct (out_names j n m)"
  using compact_name_inj [of "n + int _" "n + int _" j]
  by (auto simp: out_names_def distinct_map inj_on_def)

lemma out_names_new:
  assumes "fresh_from n ps" "0 < j" "j < 2 ^ 63"
  shows "set (out_names j n m) \<inter> ps = {}"
  using assms by (auto simp: fresh_from_def out_names_def)

section \<open>Replacing tables by their merge\<close>

text \<open>Tables \<open>ins1\<close> of level \<open>i\<close> and \<open>ins2\<close> of level \<open>j\<close> are merged; the rest of both levels stays.\<close>

definition small_table :: "sstable \<Rightarrow> bool" where
  "small_table s \<longleftrightarrow> (\<forall>e\<in>set (cont s). entry_small e)"

definition parts :: "lsm \<Rightarrow> nat \<Rightarrow> nat \<Rightarrow> sstable list \<Rightarrow> sstable list \<Rightarrow> sstable list \<Rightarrow> sstable list \<Rightarrow> bool" where
  "parts L i j ins1 rem1 ins2 rem2 \<longleftrightarrow> i < j \<and> j < l_numLevels L
     \<and> mset (l_levels L ! i) = mset (ins1 @ rem1) \<and> mset (l_levels L ! j) = mset (ins2 @ rem2)"

text \<open>What the two compactions have in common, in the order of their effects.\<close>

definition replace_head :: "os \<Rightarrow> nat \<Rightarrow> nat \<Rightarrow> sstable list \<Rightarrow> sstable list \<Rightarrow> sstable list \<Rightarrow> sstable list \<Rightarrow> (unit, lsm) prog" where
  "replace_head os i j ins1 rem1 ins2 rem2 L =
     andthen (on_files (DoCompact os (ins1 @ ins2) (int j) (l_nextID L))) (\<lambda>(paths, st).
     andthen (update (note_compaction st)) (\<lambda>_.
     andthen (update (\<lambda>L. adj (remove_all (ins1 @ ins2) (files_of L)) ((l_levels L)[i := rem1, j := rem2])
         ((sizes_of L)[i := sizes_of L ! i - total_size ins1, j := sizes_of L ! j - total_size ins2]) L)) (\<lambda>_.
     add_outputs os j paths))) L"

definition replace_tables :: "os \<Rightarrow> nat \<Rightarrow> nat \<Rightarrow> sstable list \<Rightarrow> sstable list \<Rightarrow> sstable list \<Rightarrow> sstable list \<Rightarrow> (unit, lsm) prog" where
  "replace_tables os i j ins1 rem1 ins2 rem2 =
     andthen (replace_head os i j ins1 rem1 ins2 rem2) (\<lambda>_. lsm_writeManifest os)"

definition with_manifest :: "lsm \<Rightarrow> lsm" where
  "with_manifest L = L\<lparr>l_disk := (l_disk L)\<lparr>d_manifest := Some (snapshot (l_levels L)), d_tmp := None\<rparr>\<rparr>"

definition replaced :: "lsm \<Rightarrow> nat \<Rightarrow> nat \<Rightarrow> sstable list \<Rightarrow> sstable list \<Rightarrow> sstable list \<Rightarrow> sstable list \<Rightarrow> entry list \<Rightarrow> lsm \<Rightarrow> bool" where
  "replaced L i j ins1 rem1 ins2 rem2 es L' \<longleftrightarrow>
     lsm_inv L' (contents_of L') \<and> merge_of (map cont (ins1 @ ins2)) es
     \<and> (\<exists>new. l_levels L' = (l_levels L)[i := rem1, j := rem2 @ new]
            \<and> map cont new = split_chunks [] (kept (int j) [] es)
            \<and> (\<forall>s\<in>set new. has_suffix (s_path s) sst_suffix))
     \<and> d_manifest (l_disk L') = Some (snapshot (l_levels L'))
     \<and> l_memtable L' = l_memtable L \<and> l_wal L' = l_wal L \<and> l_numLevels L' = l_numLevels L
     \<and> l_maxL0Files L' = l_maxL0Files L \<and> l_baseLevelSize L' = l_baseLevelSize L
     \<and> l_flushThreshold L' = l_flushThreshold L"

text \<open>The merge of small tables of the store, and the files it writes.\<close>

abbreviation merged :: "nat \<Rightarrow> entry list \<Rightarrow> entry list list" where
  "merged j es \<equiv> split_chunks [] (kept (int j) [] es)"

lemma merge_inputs:
  assumes inv: "lsm_inv L esss" and sub: "set ins \<subseteq> set (concat (l_levels L))" and small: "\<forall>s\<in>set ins. small_table s"
  obtains es st fs where "merge_of (map cont ins) es"
    "DoCompact os_ok ins (int j) (l_nextID L) (files_of L) = (Inr (out_names (int j) (l_nextID L) (length (merged j es)), st), fs)"
    "compacted (int j) (l_nextID L) (merged j es) (files_of L) fs"
    "(case st of None \<Rightarrow> 0 | Some s \<Rightarrow> cs_OutputFiles s) = length (merged j es)"
proof -
  have "\<forall>s\<in>set ins. st_holds s (cont s)" using inv sub by (auto simp: lsm_inv_iff intro: table_at_holds)
  then have holds: "list_all2 st_holds ins (map cont ins)" unfolding list_all2_map2 by (simp add: list_all2_same)
  have sm: "\<forall>e\<in>set (concat (map cont ins)). entry_small e" using small by (auto simp: small_table_def)
  have n: "0 \<le> l_nextID L" using inv by (simp add: lsm_inv_iff)
  obtain es st fs where dc: "merge_of (map cont ins) es"
      "DoCompact os_ok ins (int j) (l_nextID L) (files_of L) = (Inr (out_names (int j) (l_nextID L) (length (merged j es)), st), fs)"
      "concat (map cont ins) = [] \<longrightarrow> st = None"
      "concat (map cont ins) \<noteq> [] \<longrightarrow> (\<exists>s. st = Some s \<and> cs_OutputFiles s = length (merged j es) \<and> cs_InputFiles s = length ins)"
      "compacted (int j) (l_nextID L) (merged j es) (files_of L) fs"
    using DoCompact_ok [OF holds n, of "int j" "files_of L"] merge_chunks_fit [OF _ sm] by blast
  have "mset es = {#}" if "concat (map cont ins) = []"
    using dc(1) that unfolding merge_of_def by (metis mset.simps(1))
  then have "(case st of None \<Rightarrow> 0 | Some s \<Rightarrow> cs_OutputFiles s) = length (merged j es)"
    using dc(3,4) by (cases "concat (map cont ins) = []") auto
  with dc(1,2,5) that show thesis by blast
qed

lemma outputs_written:
  assumes "compacted j n cs fs fs1" "set (out_names j n (length cs)) \<inter> s_path ` set ins = {}"
  shows "list_all2 (written (remove_all ins fs1)) (out_names j n (length cs)) cs"
proof (rule list_all2_all_nthI)
  show "length (out_names j n (length cs)) = length cs" by (simp add: out_names_def)
  fix a
  assume a: "a < length (out_names j n (length cs))"
  then have "written fs1 (out_names j n (length cs) ! a) (cs ! a)"
    using assms(1) by (simp add: compacted_def out_names_def)
  moreover have "out_names j n (length cs) ! a \<notin> s_path ` set ins" using nth_mem [OF a] assms(2) by blast
  ultimately show "written (remove_all ins fs1) (out_names j n (length cs) ! a) (cs ! a)"
    by (simp add: written_def map_of_remove_all)
qed

lemma table_kept:
  assumes "compacted j n cs fs fs1" "table_at fs s es"
    and "s_path s \<notin> set (out_names j n (length cs))" "s_path s \<notin> s_path ` set ins"
  shows "table_at (remove_all ins fs1) s es"
proof (rule table_at_other [OF assms(2)])
  have "map_of fs1 (s_path s) = map_of fs (s_path s)" using assms(1,3) unfolding compacted_def by blast
  then show "map_of (remove_all ins fs1) (s_path s) = map_of fs (s_path s)"
    unfolding map_of_remove_all if_not_P [OF assms(4)] .
qed

text \<open>Paths and sizes when \<open>ins\<close> leaves the store and \<open>new\<close> joins it.\<close>

lemma replaced_paths:
  fixes f :: "'a \<Rightarrow> 'b"
  assumes old: "mset ts = mset ins + mset rest" and new: "mset ts' = mset rest + mset new"
    and dist: "distinct (map f ts @ map f new)"
  shows "distinct (map f ts')" "set (map f ts') \<subseteq> set (map f ts) \<union> set (map f new)"
    "f ` set ins \<inter> f ` set rest = {}"
proof -
  have eq: "mset (map f ins @ map f rest @ map f new) = mset (map f ts @ map f new)"
    "mset (map f ts') = mset (map f rest @ map f new)"
    using old new by simp_all
  then have d: "distinct (map f ins @ map f rest @ map f new)" using dist by (metis mset_eq_imp_distinct_iff)
  then show "f ` set ins \<inter> f ` set rest = {}" by auto
  show "distinct (map f ts')" using d eq(2) by (metis distinct_append mset_eq_imp_distinct_iff)
  have "set ts = set ins \<union> set rest" "set ts' = set rest \<union> set new"
    using old new by (metis set_mset_mset set_mset_union)+
  then show "set (map f ts') \<subseteq> set (map f ts) \<union> set (map f new)" by auto
qed

lemma level_sizes_length: "length (level_sizes xss) = length xss"
  by (simp add: level_sizes_def)

lemma replaced_sizes:
  assumes "i < j" "j < length xss" "mset (xss ! i) = mset (ins1 @ rem1)" "mset (xss ! j) = mset (ins2 @ rem2)"
  shows "level_sizes (xss[i := rem1, j := rem2 @ new])
     = (level_sizes xss)[i := level_sizes xss ! i - total_size ins1,
                         j := level_sizes xss ! j - total_size ins2 + total_size new]"
proof -
  have "total_size (xss ! i) = total_size ins1 + total_size rem1"
    "total_size (xss ! j) = total_size ins2 + total_size rem2"
    using total_size_mset [OF assms(3)] total_size_mset [OF assms(4)] by simp_all
  then show ?thesis using assms(1,2) by (simp add: level_sizes_update level_sizes_nth)
qed

text \<open>The steps of a replacement, one after the other.\<close>

lemma note_compaction_frame:
  assumes "(case st of None \<Rightarrow> 0 | Some s \<Rightarrow> cs_OutputFiles s) = m"
  shows "l_nextID (note_compaction st L) = l_nextID L + int m" "l_disk (note_compaction st L) = l_disk L"
    "l_levels (note_compaction st L) = l_levels L" "sizes_of (note_compaction st L) = sizes_of L"
    "l_memtable (note_compaction st L) = l_memtable L" "l_wal (note_compaction st L) = l_wal L"
    "l_numLevels (note_compaction st L) = l_numLevels L" "l_maxL0Files (note_compaction st L) = l_maxL0Files L"
    "l_baseLevelSize (note_compaction st L) = l_baseLevelSize L"
    "l_flushThreshold (note_compaction st L) = l_flushThreshold L"
  using assms by (simp_all add: note_compaction_def upd_stats_def split: option.splits)

lemma replace_head_run:
  assumes "DoCompact os_ok (ins1 @ ins2) (int j) (l_nextID L) (files_of L) = (Inr (ps, st), fs)"
    and "L1 = note_compaction st (L\<lparr>l_disk := (l_disk L)\<lparr>d_files := fs\<rparr>\<rparr>)"
    and "files_of L1 = fs" "l_levels L1 = l_levels L" "sizes_of L1 = sizes_of L"
    and "add_outputs os_ok j ps (adj (remove_all (ins1 @ ins2) fs) ((l_levels L)[i := rem1, j := rem2])
         ((sizes_of L)[i := sizes_of L ! i - total_size ins1, j := sizes_of L ! j - total_size ins2]) L1) = (Inr (), L3)"
  shows "replace_head os_ok i j ins1 rem1 ins2 rem2 L = (Inr (), L3)"
proof -
  have "on_files (DoCompact os_ok (ins1 @ ins2) (int j) (l_nextID L)) L = (Inr (ps, st), L\<lparr>l_disk := (l_disk L)\<lparr>d_files := fs\<rparr>\<rparr>)"
    by (simp add: on_files_def on_disk_def assms(1))
  then show ?thesis
    by (simp add: replace_head_def andthen_def update_def assms(2) [symmetric] assms(3-6) del: add_outputs.simps)
qed

lemma replaced_inv:
  fixes L L' :: lsm and ins1 ins2 rem1 rem2 tn :: "sstable list" and i j :: nat and cs :: "entry list list"
  defines "lv \<equiv> (l_levels L)[i := rem1, j := rem2 @ tn]" and "ps \<equiv> out_names (int j) (l_nextID L) (length cs)"
  assumes inv: "lsm_inv L esss" and ij: "i < j" "j < length (l_levels L)"
    and mm: "mset (l_levels L ! i) = mset (ins1 @ rem1)" "mset (l_levels L ! j) = mset (ins2 @ rem2)"
    and cmp: "compacted (int j) (l_nextID L) cs (files_of L) fs"
    and tn: "level_at (remove_all (ins1 @ ins2) fs) tn cs" "map s_path tn = ps"
    and L': "l_levels L' = lv" "files_of L' = remove_all (ins1 @ ins2) fs" "sizes_of L' = level_sizes lv"
      "l_memtable L' = l_memtable L" "l_numLevels L' = l_numLevels L" "l_nextID L' = l_nextID L + int (length cs)"
  shows "lsm_inv L' (contents_of L')"
proof -
  note I = inv [unfolded lsm_inv_iff]
  let ?ins = "ins1 @ ins2" and ?n = "l_nextID L" and ?lv = lv
  let ?rest = "concat ((l_levels L)[i := rem1, j := rem2])"
  have j: "0 < int j" "int j < 2 ^ 63" using ij I by simp_all
  have all: "mset (concat (l_levels L)) = mset ?ins + mset ?rest" by (rule concat_update2 [OF ij mm])
  then have sub: "set (concat (l_levels L)) = set ?ins \<union> set ?rest" by (metis set_mset_mset set_mset_union)
  have new: "set ps \<inter> set (paths_of L) = {}"
    unfolding ps_def by (rule out_names_new [OF _ j]) (use I in simp)
  have tabs: "mset (concat ?lv) = mset ?rest + mset tn"
    using concat_update [of j "(l_levels L)[i := rem1, j := rem2]" "rem2 @ tn"] ij by (simp add: lv_def ac_simps)
  have "distinct (map s_path (concat (l_levels L)) @ map s_path tn)"
    using I new out_names_distinct [of ?n "int j" "length cs"] unfolding tn(2) by (auto simp: ps_def paths_of_def)
  note paths = replaced_paths [OF all tabs this]
  have n: "fresh_from ?n (set (paths_of L))" "0 \<le> ?n" using I by simp_all
  have "set (paths_of L') \<subseteq> set (paths_of L) \<union> set ps"
    using paths(2) unfolding tn(2) by (simp only: paths_of_def L'(1))
  then have "fresh_from (?n + int (length cs)) (set (paths_of L'))"
    using fresh_outputs [OF n j, of "length cs"] unfolding ps_def by (rule fresh_subset [rotated])
  moreover have "table_at (remove_all ?ins fs) s (cont s)" if "s \<in> set (concat ?lv)" for s
  proof (cases "s \<in> set tn")
    case False
    have "set (concat ?lv) = set ?rest \<union> set tn" using tabs by (metis set_mset_mset set_mset_union)
    with that False have s: "s \<in> set ?rest" by blast
    then have old: "s \<in> set (concat (l_levels L))" using sub by blast
    then have "s_path s \<in> set (paths_of L)" by (simp add: paths_of_def)
    with new have "s_path s \<notin> set ps" by blast
    moreover have "table_at (files_of L) s (cont s)" using I old by blast
    ultimately show ?thesis using table_kept [OF cmp] paths(3) s unfolding ps_def by blast
  qed (use tn(1) in \<open>simp add: level_at_cont\<close>)
  ultimately show ?thesis
    using I ij paths(1) unfolding lsm_inv_iff L' by (simp add: paths_of_def L'(1)) (simp add: lv_def)
qed

text \<open>What a merge leaves as it was.\<close>

definition kept_frame :: "lsm \<Rightarrow> lsm \<Rightarrow> bool" where
  "kept_frame L L' \<longleftrightarrow> l_memtable L' = l_memtable L \<and> l_wal L' = l_wal L \<and> l_numLevels L' = l_numLevels L
     \<and> l_maxL0Files L' = l_maxL0Files L \<and> l_baseLevelSize L' = l_baseLevelSize L
     \<and> l_flushThreshold L' = l_flushThreshold L \<and> d_manifest (l_disk L') = d_manifest (l_disk L)"

text \<open>The state before the manifest: the inputs are removed, the outputs are opened in their place.\<close>

lemma replace_head_state:
  assumes inv: "lsm_inv L esss" and parts: "parts L i j ins1 rem1 ins2 rem2"
    and small: "\<forall>s\<in>set (ins1 @ ins2). small_table s"
  shows "\<exists>es fs tn L1. merge_of (map cont (ins1 @ ins2)) es
     \<and> compacted (int j) (l_nextID L) (merged j es) (files_of L) fs
     \<and> level_at (remove_all (ins1 @ ins2) fs) tn (merged j es)
     \<and> map s_path tn = out_names (int j) (l_nextID L) (length (merged j es))
     \<and> kept_frame L L1 \<and> l_nextID L1 = l_nextID L + int (length (merged j es))
     \<and> replace_head os_ok i j ins1 rem1 ins2 rem2 L
        = (Inr (), adj (remove_all (ins1 @ ins2) fs) ((l_levels L)[i := rem1, j := rem2 @ tn])
             (level_sizes ((l_levels L)[i := rem1, j := rem2 @ tn])) L1)"
proof -
  let ?ins = "ins1 @ ins2" and ?n = "l_nextID L"
  note I = inv [unfolded lsm_inv_iff]
  have ij: "i < j" "j < length (l_levels L)" "0 < int j" "int j < 2 ^ 63"
    using parts I by (auto simp: parts_def)
  have mm: "mset (l_levels L ! i) = mset (ins1 @ rem1)" "mset (l_levels L ! j) = mset (ins2 @ rem2)"
    using parts by (simp_all add: parts_def)
  have "mset (concat (l_levels L)) = mset ?ins + mset (concat ((l_levels L)[i := rem1, j := rem2]))"
    by (rule concat_update2 [OF ij(1,2) mm])
  then have sub: "set ?ins \<subseteq> set (concat (l_levels L))" by (metis set_mset_mset set_mset_union sup_ge1)
  then obtain es st fs where dc: "merge_of (map cont ?ins) es"
      "DoCompact os_ok ?ins (int j) ?n (files_of L) = (Inr (out_names (int j) ?n (length (merged j es)), st), fs)"
      "compacted (int j) ?n (merged j es) (files_of L) fs"
      "(case st of None \<Rightarrow> 0 | Some s \<Rightarrow> cs_OutputFiles s) = length (merged j es)"
    using merge_inputs [OF inv _ small, of j] by blast
  define cs ps where "cs = merged j es" and "ps = out_names (int j) ?n (length cs)"
  define L1 where "L1 = note_compaction st (L\<lparr>l_disk := (l_disk L)\<lparr>d_files := fs\<rparr>\<rparr>)"
  note L1 = note_compaction_frame [OF dc(4), of "L\<lparr>l_disk := (l_disk L)\<lparr>d_files := fs\<rparr>\<rparr>", folded L1_def cs_def, simplified]
  have "set ps \<inter> set (paths_of L) = {}"
    unfolding ps_def by (rule out_names_new [OF _ ij(3,4)]) (use I in simp)
  moreover have "s_path ` set ?ins \<subseteq> set (paths_of L)" using sub unfolding paths_of_def set_map by blast
  ultimately have "set ps \<inter> s_path ` set ?ins = {}" by blast
  with dc(3) have wr: "list_all2 (written (remove_all ?ins fs)) ps cs"
    unfolding ps_def cs_def by (rule outputs_written)
  define L2 where "L2 = adj (remove_all ?ins fs) ((l_levels L)[i := rem1, j := rem2])
      ((sizes_of L)[i := sizes_of L ! i - total_size ins1, j := sizes_of L ! j - total_size ins2]) L1"
  have "j < length (sizes_of L2)" "j < length (l_levels L2)" "files_of L2 = remove_all ?ins fs"
    using ij I by (simp_all add: L2_def level_sizes_def)
  with add_outputs_ok [OF wr, of L2 j] obtain tn where
      ao: "add_outputs os_ok j ps L2 = (Inr (), adj (remove_all ?ins fs) ((l_levels L2)[j := l_levels L2 ! j @ tn])
            ((sizes_of L2)[j := sizes_of L2 ! j + total_size tn]) L2)"
      and tn: "level_at (remove_all ?ins fs) tn cs" "map s_path tn = ps"
    by auto
  let ?lv = "(l_levels L)[i := rem1, j := rem2 @ tn]"
  have "add_outputs os_ok j ps L2 = (Inr (), adj (remove_all ?ins fs) ?lv (level_sizes ?lv) L1)"
    using ao ij I by (simp add: L2_def replaced_sizes [OF ij(1,2) mm] level_sizes_length)
  from replace_head_run [OF dc(2) L1_def _ _ _ this [unfolded ps_def cs_def L2_def]]
  have "replace_head os_ok i j ins1 rem1 ins2 rem2 L = (Inr (), adj (remove_all ?ins fs) ?lv (level_sizes ?lv) L1)"
    using L1 by simp
  moreover have "kept_frame L L1" "l_nextID L1 = ?n + int (length cs)" using L1 by (simp_all add: kept_frame_def)
  ultimately show ?thesis using dc(1,3) tn unfolding ps_def cs_def by blast
qed

text \<open>Until the manifest is written it lists the tables of before; of these the inputs are gone.\<close>

lemma replace_head_ok:
  assumes inv: "lsm_inv L esss" and parts: "parts L i j ins1 rem1 ins2 rem2"
    and small: "\<forall>s\<in>set (ins1 @ ins2). small_table s"
  shows "\<exists>es L'. replace_head os_ok i j ins1 rem1 ins2 rem2 L = (Inr (), L')
     \<and> replaced L i j ins1 rem1 ins2 rem2 es (with_manifest L')
     \<and> lsm_inv L' (contents_of L') \<and> d_manifest (l_disk L') = d_manifest (l_disk L)
     \<and> (\<forall>s\<in>set (ins1 @ ins2). map_of (files_of L') (s_path s) = None)"
proof -
  let ?ins = "ins1 @ ins2"
  have ij: "i < j" "j < length (l_levels L)" using parts inv by (auto simp: parts_def lsm_inv_def)
  have mm: "mset (l_levels L ! i) = mset (ins1 @ rem1)" "mset (l_levels L ! j) = mset (ins2 @ rem2)"
    using parts by (simp_all add: parts_def)
  obtain es fs tn L1 where H: "merge_of (map cont ?ins) es"
      "compacted (int j) (l_nextID L) (merged j es) (files_of L) fs"
      "level_at (remove_all ?ins fs) tn (merged j es)"
      "map s_path tn = out_names (int j) (l_nextID L) (length (merged j es))"
      "kept_frame L L1" "l_nextID L1 = l_nextID L + int (length (merged j es))"
      "replace_head os_ok i j ins1 rem1 ins2 rem2 L
        = (Inr (), adj (remove_all ?ins fs) ((l_levels L)[i := rem1, j := rem2 @ tn])
             (level_sizes ((l_levels L)[i := rem1, j := rem2 @ tn])) L1)"
    using replace_head_state [OF assms] by blast
  define L3 where "L3 = adj (remove_all ?ins fs) ((l_levels L)[i := rem1, j := rem2 @ tn])
      (level_sizes ((l_levels L)[i := rem1, j := rem2 @ tn])) L1"
  have L3: "l_levels L3 = (l_levels L)[i := rem1, j := rem2 @ tn]" "files_of L3 = remove_all ?ins fs"
      "sizes_of L3 = level_sizes ((l_levels L)[i := rem1, j := rem2 @ tn])"
      "l_nextID L3 = l_nextID L + int (length (merged j es))" "kept_frame L L3"
    using H(5,6) by (simp_all add: L3_def kept_frame_def) (simp add: adj_def)
  have F: "l_memtable L3 = l_memtable L" "l_numLevels L3 = l_numLevels L" using L3(5) by (simp_all add: kept_frame_def)
  have inv3: "lsm_inv L3 (contents_of L3)"
    by (rule replaced_inv [OF inv ij mm H(2,3,4) L3(1-3) F L3(4)])
  then have "lsm_inv (with_manifest L3) (contents_of (with_manifest L3))"
    by (simp add: lsm_inv_def with_manifest_def contents_of_def paths_of_def)
  moreover have "map cont tn = merged j es" using H(3) by (simp add: level_at_cont)
  moreover have "has_suffix (s_path s) sst_suffix" if "s \<in> set tn" for s
  proof -
    have "s_path s \<in> set (map s_path tn)" using that by simp
    then show ?thesis unfolding H(4) by (auto simp: out_names_def)
  qed
  ultimately have "replaced L i j ins1 rem1 ins2 rem2 es (with_manifest L3)"
    using H(1) L3 by (auto simp: replaced_def with_manifest_def kept_frame_def)
  moreover have "map_of (files_of L3) (s_path s) = None" if "s \<in> set ?ins" for s
    using that by (auto simp: L3(2) map_of_remove_all)
  moreover have "d_manifest (l_disk L3) = d_manifest (l_disk L)" using L3(5) by (simp add: kept_frame_def)
  ultimately show ?thesis using H(7) inv3 unfolding L3_def [symmetric] by blast
qed

lemma replace_tables_ok:
  assumes "lsm_inv L esss" "parts L i j ins1 rem1 ins2 rem2" "\<forall>s\<in>set (ins1 @ ins2). small_table s"
  shows "\<exists>es L'. replace_tables os_ok i j ins1 rem1 ins2 rem2 L = (Inr (), L')
     \<and> replaced L i j ins1 rem1 ins2 rem2 es L'"
proof -
  obtain es L1 where L1: "replace_head os_ok i j ins1 rem1 ins2 rem2 L = (Inr (), L1)"
      "replaced L i j ins1 rem1 ins2 rem2 es (with_manifest L1)"
    using replace_head_ok [OF assms] by blast
  then have "replace_tables os_ok i j ins1 rem1 ins2 rem2 L = (Inr (), with_manifest L1)"
    by (simp add: replace_tables_def andthen_def manifest_ok with_manifest_def)
  with L1(2) show ?thesis by blast
qed

end
