(* ===== verification/FlushFacts.thy ===== *)
theory FlushFacts
  imports CompactStep
begin

text \<open>
  What a flush means for the versions in the store and for what a read finds;
  and the extension of a store by one more table, from which stores with given
  contents are built.
\<close>

section \<open>Entries and keys\<close>

lemma sorted_keys_newest:
  assumes "sorted_strict (map e_key es)" "e \<in> set es"
  shows "newest es (e_key e) = Some e"
  using assms by (induction es) (auto simp: newest_def)

lemma newest_mem:
  assumes "mt_wf (l_memtable L)"
  shows "newest (mem_entries L) k = mt_Get (l_memtable L) k"
proof (cases "mt_Get (l_memtable L) k")
  case None
  have "newest (mem_entries L) k = None"
  proof (rule ccontr)
    assume "newest (mem_entries L) k \<noteq> None"
    then obtain e where "e \<in> set (mem_entries L)" "e_key e = k" using newest_SomeD by fastforce
    with None show False using mt_Entries_set [OF assms, of e] by (simp add: mem_entries_def)
  qed
  with None show ?thesis by simp
next
  case (Some e)
  then have "e_key e = k" using mt_wf_key [OF assms] by (simp add: mt_Get_def)
  with Some have "e \<in> set (mem_entries L)" using mt_Entries_set [OF assms, of e] by (simp add: mem_entries_def)
  then show ?thesis
    using sorted_keys_newest [of "mem_entries L" e] mt_Entries_sorted [OF assms] \<open>e_key e = k\<close> Some
    by (simp add: mem_entries_def)
qed

lemma mem_entries_New: "l_memtable L = mt_New \<Longrightarrow> mem_entries L = []"
  by (simp add: mem_entries_def mt_Entries_def mt_New_def Let_def)

lemma cost_entry_cost: "cost e = entry_cost e"
  by (simp add: cost_def entry_cost_def)

text \<open>The byte count of the memtable is the size of the chunk a flush writes.\<close>

lemma sum_list_mset: "mset xs = mset ys \<Longrightarrow> sum_list (map f xs) = (sum_list (map f ys) :: int)"
  by (metis mset_map sum_mset_sum_list)

lemma mem_chunk_size:
  assumes wf: "mt_wf (l_memtable L)"
  shows "chunk_size (mem_entries L) = mt_Size (l_memtable L)"
proof -
  let ?m = "mt_m (l_memtable L)"
  have dist: "distinct (map fst ?m)" using wf by (simp add: mt_wf_def)
  have "mem_entries L = map (\<lambda>k. the (map_of ?m k)) (sort (map fst ?m))"
    using mt_Entries_eq [OF wf] by (simp add: mem_entries_def mt_Get_def)
  then have "mset (mem_entries L) = mset (map (\<lambda>k. the (map_of ?m k)) (map fst ?m))"
    by (simp only: mset_map mset_sort)
  also have "map (\<lambda>k. the (map_of ?m k)) (map fst ?m) = map snd ?m"
    using dist by (auto simp: map_of_is_SomeI intro!: map_cong)
  finally have "sum_list (map cost (mem_entries L)) = sum_list (map cost (map snd ?m))"
    by (rule sum_list_mset)
  also have "\<dots> = (\<Sum>p\<leftarrow>?m. entry_cost (snd p))" by (simp add: cost_entry_cost o_def)
  finally show ?thesis using wf by (simp add: chunk_size_def mt_Size_def mt_wf_def)
qed

lemma mem_fits_small:
  assumes "mt_wf (l_memtable L)" "\<forall>e\<in>set (mem_entries L). entry_small e"
    and "mt_Size (l_memtable L) \<le> 4 * 2 ^ 20 + 2 ^ 17"
  shows "mem_fits L"
proof -
  have "chunk_size (mem_entries L) \<le> 4 * 2 ^ 20 + 2 ^ 17" using mem_chunk_size [OF assms(1)] assms(3) by simp
  moreover from this have "int (length (mem_entries L)) \<le> 300000" using chunk_count [of "mem_entries L"] by simp
  ultimately show ?thesis
    using assms(2) by (simp add: mem_fits_def table_fits_small entry_small_fits)
qed

section \<open>A flush and the versions of a key\<close>

lemma stored_split:
  assumes "0 < length esss"
  shows "stored_entries esss = concat (esss ! 0) @ stored_entries (tl esss)"
  using assms by (cases esss) (simp_all add: stored_entries_def)

lemma stored_add:
  assumes "0 < length esss"
  shows "stored_entries (esss[0 := esss ! 0 @ [es]]) = concat (esss ! 0) @ es @ stored_entries (tl esss)"
  using assms by (cases esss) (simp_all add: stored_entries_def)

lemma inv_lengths: "lsm_inv L esss \<Longrightarrow> length esss = l_numLevels L \<and> 0 < length esss"
  unfolding lsm_inv_iff contents_of_def by (metis length_map)

lemma flushed_versions:
  assumes "lsm_inv L esss" "flushed L esss L' esss'"
  shows "versions L' esss' k = versions L esss k"
proof -
  have n: "0 < length esss" using inv_lengths [OF assms(1)] by blast
  have e: "esss' = esss[0 := esss ! 0 @ [mem_entries L]]" "mem_entries L' = []"
    using assms(2) by (simp_all add: flushed_def in_level0_def mem_entries_New)
  show ?thesis
    unfolding versions_def e stored_add [OF n] stored_split [OF n] by auto
qed

text \<open>Level 0 is read from its oldest table, so a read prefers it to what was just flushed.\<close>

lemma flushed_look:
  assumes "lsm_inv L esss" "flushed L esss L' esss'"
  shows "look L' esss' k =
     (case newest (concat (esss ! 0)) k of Some e \<Rightarrow> Some e | None \<Rightarrow> look L esss k)"
proof -
  have e: "esss' = esss[0 := esss ! 0 @ [mem_entries L]]" "l_memtable L' = mt_New"
    using assms(2) by (simp_all add: flushed_def in_level0_def)
  have "mt_wf (l_memtable L)" using assms(1) by (simp add: lsm_inv_def)
  moreover have n: "0 < length esss" using inv_lengths [OF assms(1)] by blast
  ultimately show ?thesis
    unfolding look_def e stored_add [OF n] stored_split [OF n]
    by (auto simp: newest_append newest_mem split: option.splits)
qed

lemma flushed_clean:
  assumes "lsm_inv L esss" "flushed L esss L' esss'" "clean_for L k" "mt_Get (l_memtable L) k \<noteq> None"
  shows "clean_for L' k"
proof -
  obtain s where s: "l_levels L' = (l_levels L)[0 := l_levels L ! 0 @ [s]]"
      "table_at (files_of L') s (mem_entries L)"
    using assms(2) by (auto simp: flushed_def in_level0_def)
  have wf: "mt_wf (l_memtable L)" using assms(1) by (simp add: lsm_inv_def)
  obtain e where "mt_Get (l_memtable L) k = Some e" using assms(4) by blast
  then have "newest (mem_entries L) k = Some e" by (simp add: newest_mem [OF wf])
  then have "\<exists>e\<in>set (mem_entries L). k \<le> e_key e" using newest_SomeD by blast
  then have cl: "st_clean s k" using st_clean_iff [OF table_at_holds [OF s(2)]] by simp
  have "0 < length (l_levels L)" using assms(1) by (simp add: lsm_inv_def)
  then obtain ss sss where "l_levels L = ss # sss" by (cases "l_levels L") auto
  with cl s(1) assms(3) show ?thesis by (auto simp: clean_for_def)
qed

section \<open>Adding a table to a store\<close>

lemma lsm_inv_grow:
  assumes inv: "lsm_inv L esss" and i: "i < l_numLevels L" and es: "chunk_fits es"
  shows "\<exists>L'. lsm_inv L' (esss[i := esss ! i @ [es]]) \<and> l_wal L' = l_wal L \<and> l_memtable L' = l_memtable L
     \<and> l_numLevels L' = l_numLevels L \<and> l_maxL0Files L' = l_maxL0Files L \<and> l_flushThreshold L' = l_flushThreshold L
     \<and> l_baseLevelSize L' = l_baseLevelSize L \<and> d_manifest (l_disk L') = Some (snapshot (l_levels L'))
     \<and> (\<exists>s. l_levels L' = (l_levels L)[i := l_levels L ! i @ [s]] \<and> has_suffix (s_path s) sst_suffix \<and> cont s = es)"
proof -
  define p where "p = flush_name (l_nextID L)"
  have I: "length (l_levels L) = l_numLevels L" "0 \<le> l_nextID L" "fresh_from (l_nextID L) (set (paths_of L))"
      "distinct (paths_of L)" "sizes_of L = level_sizes (l_levels L)"
      "\<forall>s\<in>set (concat (l_levels L)). table_at (files_of L) s (cont s)" "esss = contents_of L"
    using inv by (auto simp: lsm_inv_iff)
  have "table_fits entriesPerChunk es" "sorted_strict (map e_key es)" "\<forall>e\<in>set es. entry_fits e"
    using es by (simp_all add: chunk_fits_def)
  from write_table_ok [OF this, of p "files_of L"] obtain fs where
    fs: "written fs p es" "\<forall>q. q \<noteq> p \<longrightarrow> map_of fs q = map_of (files_of L) q"
    by blast
  then obtain bf where bf: "map_of fs p = Some (table_file 128 bf es)" "table_ok 128 bf es"
    by (auto simp: written_def)
  define s where "s = opened p 128 bf es"
  have s: "s_path s = p" "table_at fs s es" using bf by (auto simp: s_def opened_def table_at_def)
  define levels where "levels = (l_levels L)[i := l_levels L ! i @ [s]]"
  define L' where "L' = (adj fs levels (level_sizes levels) L)\<lparr>l_nextID := l_nextID L + 1,
      l_disk := \<lparr>d_files = fs, d_manifest = Some (snapshot levels), d_tmp = None\<rparr>\<rparr>"
  have new: "p \<notin> set (paths_of L)" using I(2,3) by (auto simp: fresh_from_def p_def)
  have all: "mset (concat levels) = add_mset s (mset (concat (l_levels L)))"
    using concat_update [of i "l_levels L" "l_levels L ! i @ [s]"] i I(1) by (simp add: levels_def)
  have at: "table_at fs t (cont t)" if "t \<in> set (concat levels)" for t
  proof -
    have "t = s \<or> t \<in> set (concat (l_levels L))" using all that by (metis insert_iff set_mset_add_mset_insert set_mset_mset)
    moreover have "table_at fs s (cont s)" using s(2) table_at_cont [OF s(2)] by simp
    moreover have "table_at fs t (cont t)" if t: "t \<in> set (concat (l_levels L))"
    proof (rule table_at_other)
      show "table_at (files_of L) t (cont t)" using I(6) t by blast
      have "s_path t \<noteq> p" using t new by (auto simp: paths_of_def)
      then show "map_of fs (s_path t) = map_of (files_of L) (s_path t)" using fs(2) by blast
    qed
    ultimately show ?thesis by blast
  qed
  have paths: "mset (map s_path (concat levels)) = add_mset p (mset (paths_of L))"
    using arg_cong [OF all, of "image_mset s_path"] s(1) by (simp only: mset_map paths_of_def) simp
  have "set (map s_path (concat levels)) = insert p (set (paths_of L))"
    using paths by (metis set_mset_add_mset_insert set_mset_mset)
  then have fr: "fresh_from (l_nextID L + 1) (set (map s_path (concat levels)))"
    using fresh_insert_flush [of "l_nextID L" "set (paths_of L)"] fresh_less [OF I(3)] I(2) by (simp add: p_def)
  have "mset (p # paths_of L) = mset (map s_path (concat levels))" using paths by simp
  moreover have "distinct (p # paths_of L)" using I(4) new by simp
  ultimately have "distinct (map s_path (concat levels))" by (metis mset_eq_imp_distinct_iff)
  moreover have cont: "contents_of L' = esss[i := esss ! i @ [es]]"
    using I(1,7) i table_at_cont [OF s(2)] by (simp add: contents_of_def L'_def levels_def map_update)
  moreover have L': "l_levels L' = levels" "files_of L' = fs" "sizes_of L' = level_sizes levels"
      "l_nextID L' = l_nextID L + 1" "l_memtable L' = l_memtable L" "l_numLevels L' = l_numLevels L"
      "paths_of L' = map s_path (concat levels)" "length levels = length (l_levels L)"
    by (simp_all add: L'_def paths_of_def) (simp_all add: adj_def levels_def)
  ultimately have "lsm_inv L' (esss[i := esss ! i @ [es]])"
    unfolding lsm_inv_iff L' using inv at fr by (simp add: lsm_inv_iff)
  moreover have "\<exists>s. l_levels L' = (l_levels L)[i := l_levels L ! i @ [s]] \<and> has_suffix (s_path s) sst_suffix \<and> cont s = es"
    using s table_at_cont [OF s(2)] by (intro exI [of _ s]) (simp add: L'(1) levels_def p_def)
  moreover have "l_wal L' = l_wal L" "l_maxL0Files L' = l_maxL0Files L" "l_flushThreshold L' = l_flushThreshold L"
      "l_baseLevelSize L' = l_baseLevelSize L" "d_manifest (l_disk L') = Some (snapshot (l_levels L'))"
    by (simp_all add: L'(1)) (simp_all add: L'_def, simp_all add: adj_def)
  ultimately show ?thesis using L'(5,6) by (intro exI [of _ L']) simp
qed

end
