(* ===== verification/CompactOps.thy ===== *)
theory CompactOps
  imports FlushFacts
begin

text \<open>
  The two compactions and a round of the background loop as replacements of
  tables: they never fail on a well-formed store of small entries, keep the
  invariant, and keep a version at least as new of every entry, except under
  the empty key and except for tombstones that reach level 6.
\<close>

section \<open>The inputs of the two compactions\<close>

definition l0_inputs :: "lsm \<Rightarrow> sstable list" where
  "l0_inputs L = take (l0_count (length (l_levels L ! 0)) (l_maxL0Files L)) (sort_key s_path (l_levels L ! 0))"

definition l0_rest :: "lsm \<Rightarrow> sstable list" where
  "l0_rest L = drop (l0_count (length (l_levels L ! 0)) (l_maxL0Files L)) (sort_key s_path (l_levels L ! 0))"

definition l1_inputs :: "lsm \<Rightarrow> sstable list" where
  "l1_inputs L = filter (\<lambda>s. \<not> apart (key_min (l0_inputs L)) (key_max (l0_inputs L)) s) (l_levels L ! 1)"

definition l1_rest :: "lsm \<Rightarrow> sstable list" where
  "l1_rest L = filter (apart (key_min (l0_inputs L)) (key_max (l0_inputs L))) (l_levels L ! 1)"

lemma sizes_length: "lsm_inv L esss \<Longrightarrow> length (sizes_of L) = l_numLevels L \<and> length (l_levels L) = l_numLevels L"
  by (simp add: lsm_inv_def level_sizes_def)

lemma drop_tables_two:
  assumes "i < j" "j < length (sizes_of L)"
  shows "set_level j r2 (set_level i r1 (drop_tables os_ok j b (drop_tables os_ok i a L)))
       = adj (remove_all (a @ b) (files_of L)) ((l_levels L)[i := r1, j := r2])
          ((sizes_of L)[i := sizes_of L ! i - total_size a, j := sizes_of L ! j - total_size b]) L"
    and "set_level j r2 (drop_tables os_ok j b (set_level i r1 (drop_tables os_ok i a L)))
       = adj (remove_all (a @ b) (files_of L)) ((l_levels L)[i := r1, j := r2])
          ((sizes_of L)[i := sizes_of L ! i - total_size a, j := sizes_of L ! j - total_size b]) L"
  using assms
  by (simp_all add: drop_tables_ok set_level_def adj_def remove_all_def)

text \<open>The state between the merge and the removal of its inputs has the levels and sizes of before.\<close>

lemma note_compaction_keeps:
  "sizes_of (note_compaction st L) = sizes_of L" "l_levels (note_compaction st L) = l_levels L"
  "files_of (note_compaction st L) = files_of L"
  by (simp_all add: note_compaction_def upd_stats_def split: option.splits)

lemma on_files_sizes:
  "on_files m L = (r, L1) \<Longrightarrow> sizes_of L1 = sizes_of L \<and> l_levels L1 = l_levels L"
  by (auto simp: on_files_def on_disk_def split: prod.splits)

lemma update_then: "andthen (update f) h s = h () (f s)"
  by (simp add: andthen_def update_def)

lemma l0_merge_replace:
  assumes inv: "lsm_inv L esss" and two: "2 \<le> l_numLevels L" "2 \<le> l_maxL0Files L" and ne: "l_levels L ! 0 \<noteq> []"
  shows "l0_merge os_ok L = replace_head os_ok 0 1 (l0_inputs L) (l0_rest L) (l1_inputs L) (l1_rest L) L"
proof -
  have len: "1 < length (sizes_of L)" "1 < length (l_levels L)" using sizes_length [OF inv] two(1) by simp_all
  have "0 < l0_count (length (l_levels L ! 0)) (l_maxL0Files L)" using two(2) by (simp add: l0_count_def Let_def)
  moreover have "0 < length (sort_key s_path (l_levels L ! 0))" using ne by simp
  ultimately have tc: "l0_inputs L \<noteq> []" unfolding l0_inputs_def by (cases "sort_key s_path (l_levels L ! 0)") auto
  let ?dc = "on_files (DoCompact os_ok (l0_inputs L @ l1_inputs L) 1 (l_nextID L))"
  obtain r L1 where dc: "?dc L = (r, L1)" by fastforce
  have L1: "sizes_of L1 = sizes_of L" "l_levels L1 = l_levels L" using on_files_sizes [OF dc] by simp_all
  define st where "st = (case r of Inl _ \<Rightarrow> None | Inr (paths, st) \<Rightarrow> st)"
  define L2 where "L2 = note_compaction st L1"
  have L2: "sizes_of L2 = sizes_of L" "l_levels L2 = l_levels L" by (simp_all add: L2_def note_compaction_keeps L1)
  have "1 < length (sizes_of L2)" using len L2 by simp
  note two = drop_tables_two(1) [OF zero_less_one this, of "l1_rest L" "l0_rest L" "l1_inputs L" "l0_inputs L"]
  have c: "\<not> (l0_inputs L = [] \<or> length (l_levels L) \<le> 1)" using tc len(2) by simp
  have start: "l0_merge os_ok L =
      andthen ?dc (\<lambda>(paths, st).
      andthen (update (note_compaction st)) (\<lambda>_.
      andthen (update (drop_tables os_ok 0 (l0_inputs L))) (\<lambda>_.
      andthen (update (drop_tables os_ok 1 (l1_inputs L))) (\<lambda>_.
      andthen (update (\<lambda>x. set_level 1 (l1_rest L) (set_level 0 (l0_rest L) x))) (\<lambda>_.
      add_outputs os_ok 1 paths))))) L"
    unfolding l0_merge_def Let_def length_sort l0_inputs_def [symmetric] l0_rest_def [symmetric]
      l1_inputs_def [symmetric] l1_rest_def [symmetric] if_not_P [OF c] by (rule refl)
  show ?thesis
    unfolding start replace_head_def of_nat_1 andthen_def [of ?dc] dc prod.case
    using two by (cases r) (simp_all add: update_then split_beta L2_def st_def)
qed

lemma compactL0ToL1_replace:
  assumes "lsm_inv L esss" "2 \<le> l_numLevels L" "2 \<le> l_maxL0Files L" "l_levels L ! 0 \<noteq> []"
  shows "compactL0ToL1 os_ok L = replace_tables os_ok 0 1 (l0_inputs L) (l0_rest L) (l1_inputs L) (l1_rest L) L"
  unfolding compactL0ToL1_def if_not_P [OF assms(4)] replace_tables_def
  by (simp only: andthen_def l0_merge_replace [OF assms])

lemma level_merge_replace:
  assumes inv: "lsm_inv L esss" and level: "level + 1 < l_numLevels L"
  shows "level_merge os_ok level L
    = replace_head os_ok level (level + 1) (l_levels L ! level) [] (l_levels L ! (level + 1)) [] L"
proof -
  let ?a = "l_levels L ! level" and ?b = "l_levels L ! (level + 1)"
  let ?dc = "on_files (DoCompact os_ok (?a @ ?b) (int (level + 1)) (l_nextID L))"
  obtain r L1 where dc: "?dc L = (r, L1)" by fastforce
  have L1: "sizes_of L1 = sizes_of L" "l_levels L1 = l_levels L" using on_files_sizes [OF dc] by simp_all
  define st where "st = (case r of Inl _ \<Rightarrow> None | Inr (paths, st) \<Rightarrow> st)"
  define L2 where "L2 = note_compaction st L1"
  have L2: "sizes_of L2 = sizes_of L" "l_levels L2 = l_levels L" by (simp_all add: L2_def note_compaction_keeps L1)
  have "level + 1 < length (sizes_of L2)" using level sizes_length [OF inv] L2 by simp
  note two = drop_tables_two(2) [OF less_add_one this, of "[]" ?b "[]" ?a]
  show ?thesis
    unfolding level_merge_def replace_head_def Let_def andthen_def [of ?dc] dc prod.case
    using two by (cases r) (simp_all add: update_then split_beta L2_def st_def)
qed

lemma compactLevel_replace:
  assumes inv: "lsm_inv L esss" and level: "1 \<le> level" "level < l_numLevels L - 1" and ne: "l_levels L ! level \<noteq> []"
  shows "compactLevel os_ok (l_numLevels L) level L =
     (case replace_tables os_ok level (level + 1) (l_levels L ! level) [] (l_levels L ! (level + 1)) [] L of
        (Inl err, L1) \<Rightarrow> (Inl err, L1)
      | (Inr _, L1) \<Rightarrow>
          if LevelSize (l_baseLevelSize L1) (level + 1) < ss_LevelSizes (l_stats L1) ! (level + 1)
             \<and> level + 1 < l_numLevels L - 1
          then compactLevel os_ok (l_numLevels L) (level + 1) L1 else (Inr (), L1))"
proof -
  have "\<not> (level < 1 \<or> l_numLevels L - 1 \<le> level)" "level + 1 < l_numLevels L" using level by simp_all
  then show ?thesis
    unfolding compactLevel.simps [of os_ok "l_numLevels L" level L] Let_def if_not_P [OF ne] replace_tables_def
    by (simp only: if_False andthen_def level_merge_replace [OF inv])
qed

section \<open>What survives\<close>

text \<open>
  Nothing is invented, and every entry of \<open>A\<close> under a nonempty key has a version
  at least as new that is still in \<open>B\<close>; where tombstones may go, that version
  may also be a tombstone of \<open>A\<close>.
\<close>

definition outlives :: "bool \<Rightarrow> entry set \<Rightarrow> entry set \<Rightarrow> bool" where
  "outlives tomb A B \<longleftrightarrow> B \<subseteq> A \<and>
     (\<forall>e\<in>A. e_key e \<noteq> [] \<longrightarrow>
        (\<exists>e'\<in>A. e_key e' = e_key e \<and> sint (e_ts e) \<le> sint (e_ts e') \<and> (e' \<in> B \<or> tomb \<and> e_tomb e')))"

lemma outlives_refl [simp]: "outlives b A A"
  by (auto simp: outlives_def)

lemma outlives_trans:
  assumes 1: "outlives b A B" and 2: "outlives b B C"
  shows "outlives b A C"
  unfolding outlives_def
proof (intro conjI ballI impI)
  show "C \<subseteq> A" using 1 2 by (auto simp: outlives_def)
  fix e
  assume e: "e \<in> A" "e_key e \<noteq> []"
  then obtain x where x: "x \<in> A" "e_key x = e_key e" "sint (e_ts e) \<le> sint (e_ts x)" "x \<in> B \<or> b \<and> e_tomb x"
    using 1 by (auto simp: outlives_def)
  show "\<exists>e'\<in>A. e_key e' = e_key e \<and> sint (e_ts e) \<le> sint (e_ts e') \<and> (e' \<in> C \<or> b \<and> e_tomb e')"
  proof (cases "x \<in> B")
    case True
    then obtain y where y: "y \<in> B" "e_key y = e_key x" "sint (e_ts x) \<le> sint (e_ts y)" "y \<in> C \<or> b \<and> e_tomb y"
      using 2 e x(2) unfolding outlives_def by metis
    then show ?thesis using x 1 by (intro bexI [of _ y]) (auto simp: outlives_def)
  next
    case False
    with x show ?thesis by blast
  qed
qed

lemma outlives_mono: "outlives b A B \<Longrightarrow> (b \<Longrightarrow> c) \<Longrightarrow> outlives c A B"
  by (fastforce simp: outlives_def)

lemma outlives_union: "outlives b A B \<Longrightarrow> outlives b (A \<union> C) (B \<union> C)"
  by (fastforce simp: outlives_def)

lemma kept_outlives:
  assumes "merge_of ess es"
  shows "outlives (6 \<le> level) (set (concat ess)) (set (kept level [] es))"
proof -
  have set: "set es = set (concat ess)" using assms by (metis merge_of_def set_mset_mset)
  have sorted: "sorted (map mkey es)" using assms by (simp add: merge_of_def)
  note keys = keys_sorted [OF sorted]
  show ?thesis
    unfolding outlives_def set [symmetric]
  proof (intro conjI ballI impI)
    show "set (kept level [] es) \<subseteq> set es" by (rule kept_subset)
    fix e
    assume e: "e \<in> set es" "e_key e \<noteq> []"
    then obtain x where x: "newest es (e_key e) = Some x"
      using newest_None [of es "e_key e"] by (cases "newest es (e_key e)") auto
    then have k: "x \<in> set es" "e_key x = e_key e" using newest_SomeD by blast+
    moreover have "sint (e_ts e) \<le> sint (e_ts x)" using newest_ts [OF sorted x] e by blast
    moreover have "x \<in> set (kept level [] es) \<or> 6 \<le> level \<and> e_tomb x"
      using kept_iff [OF keys, of "[]" x level] x k e by auto
    ultimately show "\<exists>e'\<in>set es. e_key e' = e_key e \<and> sint (e_ts e) \<le> sint (e_ts e')
        \<and> (e' \<in> set (kept level [] es) \<or> 6 \<le> level \<and> e_tomb e')" by blast
  qed
qed

definition stored_set :: "lsm \<Rightarrow> entry set" where
  "stored_set L = (\<Union>s\<in>set (concat (l_levels L)). set (cont s))"

lemma stored_set_eq: "stored_set L = set (stored_entries (contents_of L))"
  by (auto simp: stored_set_def stored_entries_def contents_of_def)

lemma replaced_outlives:
  assumes inv: "lsm_inv L esss" and parts: "parts L i j ins1 rem1 ins2 rem2"
    and rep: "replaced L i j ins1 rem1 ins2 rem2 es L'"
  shows "outlives (6 \<le> j) (stored_set L) (stored_set L')"
proof -
  have ij: "i < j" "j < length (l_levels L)" using parts inv by (auto simp: parts_def lsm_inv_def)
  let ?rest = "(l_levels L)[i := rem1, j := rem2]"
  have "mset (concat (l_levels L)) = mset (ins1 @ ins2) + mset (concat ?rest)"
    by (rule concat_update2 [OF ij]) (use parts in \<open>simp_all add: parts_def\<close>)
  then have old: "set (concat (l_levels L)) = set (ins1 @ ins2) \<union> set (concat ?rest)"
    by (metis set_mset_mset set_mset_union)
  obtain new where new: "l_levels L' = (l_levels L)[i := rem1, j := rem2 @ new]"
      "map cont new = split_chunks [] (kept (int j) [] es)" and m: "merge_of (map cont (ins1 @ ins2)) es"
    using rep by (auto simp: replaced_def)
  have "mset (concat (?rest[j := rem2 @ new])) + mset (?rest ! j) = mset (concat ?rest) + mset (rem2 @ new)"
    by (rule concat_update) (use ij in simp)
  then have "mset (concat (l_levels L')) = mset (concat ?rest) + mset new" using ij new(1) by simp
  then have set: "set (concat (l_levels L')) = set (concat ?rest) \<union> set new"
    by (metis set_mset_mset set_mset_union)
  let ?R = "\<Union>s\<in>set (concat ?rest). set (cont s)"
  have kept: "set (kept (int j) [] es) = (\<Union>s\<in>set new. set (cont s))"
  proof -
    have "concat (map cont new) = kept (int j) [] es" using new(2) concat_split [of "[]"] by simp
    then have "set (kept (int j) [] es) = set (concat (map cont new))" by simp
    then show ?thesis by simp
  qed
  have "stored_set L = set (concat (map cont (ins1 @ ins2))) \<union> ?R"
    unfolding stored_set_def old by auto
  moreover have "stored_set L' = set (kept (int j) [] es) \<union> ?R"
    unfolding stored_set_def set kept by auto
  ultimately show ?thesis using outlives_union [OF kept_outlives [OF m, of "int j"], of ?R] by simp
qed

section \<open>Stores that compaction handles\<close>

definition store_ok :: "lsm \<Rightarrow> bool" where
  "store_ok L \<longleftrightarrow> lsm_inv L (contents_of L) \<and> (\<forall>s\<in>set (concat (l_levels L)). small_table s)
     \<and> (\<forall>p\<in>set (paths_of L). has_suffix p sst_suffix)
     \<and> 2 \<le> l_numLevels L \<and> 2 \<le> l_maxL0Files L"

definition saved :: "lsm \<Rightarrow> bool" where
  "saved L \<longleftrightarrow> d_manifest (l_disk L) = Some (snapshot (l_levels L))"

definition compacts :: "lsm \<Rightarrow> lsm \<Rightarrow> bool" where
  "compacts L L' \<longleftrightarrow> store_ok L' \<and> (saved L \<longrightarrow> saved L')
     \<and> outlives (7 \<le> l_numLevels L) (stored_set L) (stored_set L')
     \<and> l_memtable L' = l_memtable L \<and> l_wal L' = l_wal L \<and> l_numLevels L' = l_numLevels L
     \<and> l_maxL0Files L' = l_maxL0Files L \<and> l_flushThreshold L' = l_flushThreshold L"

lemma compacts_refl: "store_ok L \<Longrightarrow> compacts L L"
  by (simp add: compacts_def)

lemma compacts_trans: "compacts L L1 \<Longrightarrow> compacts L1 L2 \<Longrightarrow> compacts L L2"
  by (auto simp: compacts_def intro: outlives_trans)

lemma replaced_compacts:
  assumes ok: "store_ok L" and parts: "parts L i j ins1 rem1 ins2 rem2"
    and rep: "replaced L i j ins1 rem1 ins2 rem2 es L'"
  shows "compacts L L'"
proof -
  have inv: "lsm_inv L (contents_of L)" using ok by (simp add: store_ok_def)
  have j: "j < l_numLevels L" using parts by (simp add: parts_def)
  note out = replaced_outlives [OF inv parts rep]
  have sub: "stored_set L' \<subseteq> stored_set L" using out by (simp add: outlives_def)
  have small: "small_table s" if "s \<in> set (concat (l_levels L'))" for s
  proof -
    have "set (cont s) \<subseteq> stored_set L'" using that by (auto simp: stored_set_def)
    moreover have "entry_small e" if "e \<in> stored_set L" for e
      using ok that by (auto simp: store_ok_def stored_set_def small_table_def)
    ultimately show ?thesis using sub by (auto simp: small_table_def)
  qed
  have names: "has_suffix p sst_suffix" if p: "p \<in> set (paths_of L')" for p
  proof -
    obtain new where new: "l_levels L' = (l_levels L)[i := rem1, j := rem2 @ new]"
        "\<forall>s\<in>set new. has_suffix (s_path s) sst_suffix" using rep by (auto simp: replaced_def)
    obtain s xs where s: "p = s_path s" "xs \<in> set (l_levels L')" "s \<in> set xs"
      using p by (auto simp: paths_of_def)
    have "xs \<in> insert (rem2 @ new) (insert rem1 (set (l_levels L)))"
      using s(2) set_update_subset_insert [of "(l_levels L)[i := rem1]" j "rem2 @ new"]
        set_update_subset_insert [of "l_levels L" i rem1] unfolding new(1) by blast
    moreover have "set rem1 \<subseteq> set (concat (l_levels L))" "set rem2 \<subseteq> set (concat (l_levels L))"
    proof -
      have "i < length (l_levels L)" "j < length (l_levels L)" using parts inv by (auto simp: parts_def lsm_inv_def)
      moreover have "set rem1 \<subseteq> set (l_levels L ! i)" "set rem2 \<subseteq> set (l_levels L ! j)"
        using parts by (metis parts_def set_append set_mset_mset sup_ge2)+
      ultimately show "set rem1 \<subseteq> set (concat (l_levels L))" "set rem2 \<subseteq> set (concat (l_levels L))"
        by (auto simp: subset_eq)
    qed
    ultimately have "s \<in> set new \<or> s \<in> set (concat (l_levels L))" using s(3) by auto
    then show ?thesis using new(2) ok s(1) by (auto simp: store_ok_def paths_of_def)
  qed
  have "outlives (7 \<le> l_numLevels L) (stored_set L) (stored_set L')"
    using j by (rule_tac outlives_mono [OF out]) simp
  then show ?thesis
    using rep ok small names by (simp add: compacts_def store_ok_def replaced_def saved_def)
qed

lemma replace_compacts:
  assumes ok: "store_ok L" and parts: "parts L i j ins1 rem1 ins2 rem2"
  shows "\<exists>es L'. replace_tables os_ok i j ins1 rem1 ins2 rem2 L = (Inr (), L') \<and> compacts L L'
     \<and> replaced L i j ins1 rem1 ins2 rem2 es L'"
proof -
  have inv: "lsm_inv L (contents_of L)" using ok by (simp add: store_ok_def)
  have "set (ins1 @ ins2) \<subseteq> set (concat (l_levels L))"
  proof -
    have ij: "i < j" "j < length (l_levels L)" using parts inv by (auto simp: parts_def lsm_inv_def)
    have "mset (concat (l_levels L)) = mset (ins1 @ ins2) + mset (concat ((l_levels L)[i := rem1, j := rem2]))"
      by (rule concat_update2 [OF ij]) (use parts in \<open>simp_all add: parts_def\<close>)
    then show ?thesis by (metis set_mset_mset set_mset_union sup_ge1)
  qed
  then have "\<forall>s\<in>set (ins1 @ ins2). small_table s" using ok by (auto simp: store_ok_def)
  from replace_tables_ok [OF inv parts this] replaced_compacts [OF ok parts] show ?thesis by blast
qed

section \<open>The operations\<close>

lemma l0_parts:
  assumes "lsm_inv L esss" "2 \<le> l_numLevels L"
  shows "parts L 0 1 (l0_inputs L) (l0_rest L) (l1_inputs L) (l1_rest L)"
proof -
  have "mset (l_levels L ! 0) = mset (l0_inputs L @ l0_rest L)"
    by (simp add: l0_inputs_def l0_rest_def)
  moreover have "mset (l_levels L ! 1) = mset (l1_inputs L @ l1_rest L)"
    by (simp add: l1_inputs_def l1_rest_def)
  ultimately show ?thesis using assms by (simp add: parts_def)
qed

lemma compactL0ToL1_ok:
  assumes ok: "store_ok L"
  shows "\<exists>L'. compactL0ToL1 os_ok L = (Inr (), L') \<and> compacts L L'
     \<and> (l_levels L ! 0 \<noteq> [] \<longrightarrow>
          (\<exists>es. replaced L 0 1 (l0_inputs L) (l0_rest L) (l1_inputs L) (l1_rest L) es L'))"
proof (cases "l_levels L ! 0 = []")
  case True
  then show ?thesis using compacts_refl [OF ok] by (simp add: compactL0ToL1_def Let_def)
next
  case False
  have inv: "lsm_inv L (contents_of L)" "2 \<le> l_numLevels L" "2 \<le> l_maxL0Files L"
    using ok by (simp_all add: store_ok_def)
  show ?thesis
    using replace_compacts [OF ok l0_parts [OF inv(1,2)]] compactL0ToL1_replace [OF inv False] by auto
qed

lemma level_parts:
  "level + 1 < l_numLevels L \<Longrightarrow>
     parts L level (level + 1) (l_levels L ! level) [] (l_levels L ! (level + 1)) []"
  by (simp add: parts_def)

text \<open>
  One merge of a level below the first into the next.  \<open>compactLevel\<close> and the
  rounds of the background loop are sequences of such moves.
\<close>

definition level_move :: "lsm \<Rightarrow> lsm \<Rightarrow> bool" where
  "level_move L L' \<longleftrightarrow> store_ok L \<and> compacts L L' \<and>
     (\<exists>i es. 1 \<le> i \<and> i + 1 < l_numLevels L
        \<and> replaced L i (i + 1) (l_levels L ! i) [] (l_levels L ! (i + 1)) [] es L')"

lemma level_moves_compacts: "level_move\<^sup>*\<^sup>* L L' \<Longrightarrow> store_ok L \<Longrightarrow> compacts L L'"
  by (induction rule: rtranclp_induct) (auto simp: level_move_def intro: compacts_refl compacts_trans)

lemma compactLevel_moves:
  "store_ok L \<Longrightarrow> \<exists>L'. compactLevel os_ok (l_numLevels L) level L = (Inr (), L') \<and> level_move\<^sup>*\<^sup>* L L'"
proof (induction "l_numLevels L - level" arbitrary: level L rule: less_induct)
  case less
  show ?case
  proof (cases "level < 1 \<or> l_numLevels L - 1 \<le> level \<or> l_levels L ! level = []")
    case True
    then have "compactLevel os_ok (l_numLevels L) level L = (Inr (), L)"
      by (subst compactLevel.simps) auto
    then show ?thesis by blast
  next
    case False
    then have lv: "1 \<le> level" "level < l_numLevels L - 1" "l_levels L ! level \<noteq> []" "level + 1 < l_numLevels L"
      by auto
    obtain es L1 where L1: "replace_tables os_ok level (level + 1) (l_levels L ! level) []
        (l_levels L ! (level + 1)) [] L = (Inr (), L1)" "compacts L L1"
        "replaced L level (level + 1) (l_levels L ! level) [] (l_levels L ! (level + 1)) [] es L1"
      using replace_compacts [OF less.prems level_parts [OF lv(4)]] by blast
    have move: "level_move L L1" unfolding level_move_def using less.prems L1(2,3) lv(1,4) by blast
    have "lsm_inv L (contents_of L)" using less.prems by (simp add: store_ok_def)
    note step = compactLevel_replace [OF this lv(1-3)]
    have n: "l_numLevels L1 = l_numLevels L" "store_ok L1" using L1(2) by (simp_all add: compacts_def)
    have "l_numLevels L1 - (level + 1) < l_numLevels L - level" using n lv by simp
    from less.hyps [OF this n(2)] obtain L2 where
      "compactLevel os_ok (l_numLevels L) (level + 1) L1 = (Inr (), L2)" "level_move\<^sup>*\<^sup>* L1 L2"
      unfolding n(1) by blast
    then show ?thesis
      unfolding step L1(1) using converse_rtranclp_into_rtranclp [of level_move, OF move] move by auto
  qed
qed

lemma tick_levels_moves:
  "store_ok L \<Longrightarrow> \<exists>L'. tick_levels os_ok is L = (Inr (), L') \<and> level_move\<^sup>*\<^sup>* L L'"
proof (induction "is" arbitrary: L)
  case (Cons i "is")
  let ?m = "if LevelSize (l_baseLevelSize L) i < ss_LevelSizes (l_stats L) ! i
      then attempt (compactLevel os_ok (l_numLevels L) i) else ret ()"
  obtain L1 where L1: "?m L = (Inr (), L1)" "level_move\<^sup>*\<^sup>* L L1"
    using compactLevel_moves [OF Cons.prems, of i] by (cases "LevelSize (l_baseLevelSize L) i < ss_LevelSizes (l_stats L) ! i")
      (auto simp: attempt_def ret_def)
  then have "store_ok L1" using level_moves_compacts Cons.prems by (simp add: compacts_def)
  from Cons.IH [OF this] obtain L2 where "tick_levels os_ok is L1 = (Inr (), L2)" "level_move\<^sup>*\<^sup>* L1 L2" by blast
  then show ?case using L1 by (auto simp: andthen_def)
qed simp

lemma compacts_ch: "store_ok (L\<lparr>l_compactCh := b\<rparr>) \<longleftrightarrow> store_ok L" "compacts (L\<lparr>l_compactCh := b\<rparr>) L' \<longleftrightarrow> compacts L L'"
  by (simp_all add: store_ok_def compacts_def saved_def lsm_inv_def contents_of_def stored_set_def paths_of_def)

text \<open>A round of the loop: at most one compaction of level 0, then moves.\<close>

lemma tick_body_moves:
  assumes ok: "store_ok L"
  shows "\<exists>L1 L'. tick_body os_ok L = (Inr (), L') \<and> level_move\<^sup>*\<^sup>* L1 L' \<and> compacts L L1
     \<and> (L1 = L \<or> l_maxL0Files L < length (l_levels L ! 0) \<and> compactL0ToL1 os_ok L = (Inr (), L1))"
proof -
  obtain L1 where L1: "(if l_maxL0Files L < length (l_levels L ! 0) then attempt (compactL0ToL1 os_ok) else ret ()) L
      = (Inr (), L1)" "compacts L L1"
      "L1 = L \<or> l_maxL0Files L < length (l_levels L ! 0) \<and> compactL0ToL1 os_ok L = (Inr (), L1)"
  proof (cases "l_maxL0Files L < length (l_levels L ! 0)")
    case True
    obtain L1 where "compactL0ToL1 os_ok L = (Inr (), L1)" "compacts L L1" using compactL0ToL1_ok [OF ok] by blast
    with True show thesis by (intro that [of L1]) (simp_all add: attempt_def)
  next
    case False
    with compacts_refl [OF ok] show thesis by (intro that [of L]) (simp_all add: ret_def)
  qed
  then have "store_ok L1" by (simp add: compacts_def)
  from tick_levels_moves [OF this, of "[1..<l_numLevels L - 1]"] obtain L2 where
    L2: "tick_levels os_ok [1..<l_numLevels L - 1] L1 = (Inr (), L2)" "level_move\<^sup>*\<^sup>* L1 L2" by blast
  then have "tick_body os_ok L = (Inr (), L2)" using L1(1) by (simp add: tick_body_def andthen_def)
  then show ?thesis using L1(2,3) L2(2) by blast
qed

lemma compaction_tick_moves:
  assumes ok: "store_ok L"
  shows "\<exists>b L1 L'. compaction_tick os_ok L = (Inr (), L') \<and> level_move\<^sup>*\<^sup>* L1 L' \<and> compacts L L1
     \<and> (L1 = L\<lparr>l_compactCh := b\<rparr> \<or> l_maxL0Files L < length (l_levels L ! 0) \<and> compactL0ToL1 os_ok (L\<lparr>l_compactCh := b\<rparr>) = (Inr (), L1))"
proof (cases "l_compactCh L")
  case False
  then have "compaction_tick os_ok L = (Inr (), L)" "L = L\<lparr>l_compactCh := False\<rparr>" by (simp_all add: compaction_tick_def)
  then show ?thesis using compacts_refl [OF ok] by blast
next
  case True
  have "store_ok (L\<lparr>l_compactCh := False\<rparr>)" using ok by (simp add: compacts_ch)
  from tick_body_moves [OF this] True compacts_ch(2) show ?thesis
    by (fastforce simp: compaction_tick_def andthen_def update_def)
qed

lemma tick_body_ok:
  assumes "store_ok L"
  shows "\<exists>L'. tick_body os_ok L = (Inr (), L') \<and> compacts L L'"
proof -
  obtain L1 L' where L': "tick_body os_ok L = (Inr (), L')" "level_move\<^sup>*\<^sup>* L1 L'" "compacts L L1"
    using tick_body_moves [OF assms] by blast
  then have "store_ok L1" by (simp add: compacts_def)
  from compacts_trans [OF L'(3) level_moves_compacts [OF L'(2) this]] L'(1) show ?thesis by blast
qed

lemma compactLevel_ok:
  "store_ok L \<Longrightarrow> \<exists>L'. compactLevel os_ok (l_numLevels L) level L = (Inr (), L') \<and> compacts L L'"
  using compactLevel_moves level_moves_compacts by blast

lemma compaction_tick_ok:
  assumes "store_ok L"
  shows "\<exists>L'. compaction_tick os_ok L = (Inr (), L') \<and> compacts L L'"
proof -
  obtain L1 L' where L': "compaction_tick os_ok L = (Inr (), L')" "level_move\<^sup>*\<^sup>* L1 L'" "compacts L L1"
    using compaction_tick_moves [OF assms] by blast
  then have "store_ok L1" by (simp add: compacts_def)
  from compacts_trans [OF L'(3) level_moves_compacts [OF L'(2) this]] L'(1) show ?thesis by blast
qed

end
