(* ===== verification/EngineRun.thy ===== *)
theory EngineRun
  imports CompactOps
begin

text \<open>
  Runs of the engine: writes, deletes, reads and rounds of the background loop
  in any order, as a step relation over the engine and the set of all entries
  written so far.  Every step keeps the engine's invariant, and of every entry
  written a version at least as new is still in the store.
\<close>

section \<open>The invariant of a running engine\<close>

definition all_set :: "lsm \<Rightarrow> entry set" where
  "all_set L = set (mem_entries L) \<union> stored_set L"

definition engine_ok :: "lsm \<Rightarrow> bool" where
  "engine_ok L \<longleftrightarrow> store_ok L \<and> wal_ready L \<and> saved L \<and> l_flushThreshold L \<le> 4 * 2 ^ 20
     \<and> (\<forall>e\<in>set (mem_entries L). entry_small e)"

definition at_most :: "int \<Rightarrow> lsm \<Rightarrow> bool" where
  "at_most n L \<longleftrightarrow> mt_Size (l_memtable L) \<le> n"

text \<open>The memtable holds what the log replays to.\<close>

definition logged :: "lsm \<Rightarrow> bool" where
  "logged L \<longleftrightarrow> (\<exists>w bs. l_wal L = Some w \<and> wal_holds w bs
     \<and> (\<forall>x. mt_Get (l_memtable L) x = mt_Get (replay_into (concat bs) mt_New) x))"

lemma logged_cong: "l_wal L' = l_wal L \<Longrightarrow> l_memtable L' = l_memtable L \<Longrightarrow> logged L' = logged L"
  by (simp add: logged_def)

lemma logged_empty: "l_wal L = Some w \<Longrightarrow> wal_holds w [] \<Longrightarrow> l_memtable L = mt_New \<Longrightarrow> logged L"
  unfolding logged_def by (intro exI [of _ w] exI [of _ "[]"]) (simp add: replay_into_def)

lemma replay_into_append: "replay_into (xs @ ys) m = replay_into ys (replay_into xs m)"
  by (simp add: replay_into_def)

lemma logged_write:
  assumes log: "logged L" and es: "batch_fits es" and L': "l_memtable L' = replay_into es (l_memtable L)"
    and app: "\<forall>v data. l_wal L = Some v \<longrightarrow> wal_at v data \<longrightarrow>
      (\<exists>v'. l_wal L' = Some v' \<and> wal_at v' (data @ serializeEntries es) \<and> wal_up v')"
  shows "logged L'"
proof -
  obtain w bs where w: "l_wal L = Some w" "wal_holds w bs"
      "\<forall>x. mt_Get (l_memtable L) x = mt_Get (replay_into (concat bs) mt_New) x"
    using log by (auto simp: logged_def)
  have at: "wal_at w (log_bytes bs)" "\<forall>b\<in>set bs. batch_fits b" using w(2) by (simp_all add: wal_holds_def)
  obtain w' where w': "l_wal L' = Some w'" "wal_at w' (log_bytes bs @ serializeEntries es)" "wal_up w'"
    using app w(1) at(1) by blast
  have "wal_holds w' (bs @ [es])" using w' at(2) es by (simp add: wal_holds_def)
  moreover have "mt_Get (l_memtable L') x = mt_Get (replay_into (concat (bs @ [es])) mt_New) x" for x
    unfolding L' using w(3) by (simp add: replay_into_append replay_into_get [of es] split: option.splits)
  ultimately show ?thesis using w'(1) unfolding logged_def by blast
qed

lemma engine_inv: "engine_ok L \<Longrightarrow> lsm_inv L (contents_of L) \<and> mt_wf (l_memtable L)"
  by (simp add: engine_ok_def store_ok_def lsm_inv_def)

lemma mem_entries_iff:
  "mt_wf (l_memtable L) \<Longrightarrow> e \<in> set (mem_entries L) \<longleftrightarrow> mt_Get (l_memtable L) (e_key e) = Some e"
  by (simp add: mem_entries_def mt_Entries_set)

section \<open>Flush\<close>

lemma flushed_stored:
  assumes "lsm_inv L (contents_of L)" "flushed L (contents_of L) L' esss'"
  shows "stored_set L' = all_set L"
proof -
  have "lsm_inv L' esss'" using assms(2) unfolding flushed_def in_level0_def by blast
  then have e: "contents_of L' = esss'" using lsm_inv_contents by blast
  have "esss' = (contents_of L)[0 := contents_of L ! 0 @ [mem_entries L]]"
    using assms(2) by (simp add: flushed_def in_level0_def)
  moreover have "0 < length (contents_of L)" using inv_lengths [OF assms(1)] by blast
  ultimately show ?thesis
    unfolding stored_set_eq all_set_def e
    using stored_add [of "contents_of L" "mem_entries L"] stored_split [of "contents_of L"] by auto
qed

lemma flushed_store_ok:
  assumes ok: "engine_ok L" and fl: "flushed L (contents_of L) L' esss'"
  shows "store_ok L'" "saved L'" "mem_entries L' = []" "all_set L' = all_set L"
proof -
  have inv: "lsm_inv L (contents_of L)" using engine_inv [OF ok] by simp
  have f: "lsm_inv L' esss'" "l_memtable L' = mt_New" "l_numLevels L' = l_numLevels L"
      "l_maxL0Files L' = l_maxL0Files L" "d_manifest (l_disk L') = Some (snapshot (l_levels L'))"
    using fl unfolding flushed_def in_level0_def by blast+
  obtain s where s: "l_levels L' = (l_levels L)[0 := l_levels L ! 0 @ [s]]" "table_at (files_of L') s (mem_entries L)"
      "s_path s = flush_name (l_nextID L)"
    using fl by (auto simp: flushed_def in_level0_def)
  show "mem_entries L' = []" using mem_entries_New [OF f(2)] .
  then show "all_set L' = all_set L"
    using flushed_stored [OF inv fl] by (simp add: all_set_def [of L'])
  show "saved L'" using f(5) by (simp add: saved_def)
  obtain ss sss where levels: "l_levels L = ss # sss" using inv by (cases "l_levels L") (auto simp: lsm_inv_def)
  have tables: "set (concat (l_levels L')) = insert s (set (concat (l_levels L)))"
    by (simp add: s(1) levels)
  have "cont s = mem_entries L" using table_at_cont [OF s(2)] .
  then have "small_table s" using ok by (simp add: small_table_def engine_ok_def)
  moreover have "esss' = contents_of L'" using lsm_inv_contents [OF f(1)] .
  ultimately show "store_ok L'"
    using ok f tables s(3) by (auto simp: store_ok_def engine_ok_def paths_of_def)
qed

lemma flush_part_engine:
  assumes ok: "engine_ok L" and size: "at_most (4 * 2 ^ 20 + 2 ^ 17) L"
  shows "\<exists>L'. flush_part os_ok k L = (Inr (), L')
     \<and> flushed L (contents_of L) L' ((contents_of L)[0 := contents_of L ! 0 @ [mem_entries L]])"
proof -
  have inv: "lsm_inv L (contents_of L)" "mt_wf (l_memtable L)" using engine_inv [OF ok] by simp_all
  have "mem_fits L"
    by (rule mem_fits_small [OF inv(2)]) (use ok size in \<open>auto simp: engine_ok_def at_most_def\<close>)
  moreover have "wal_ready L" using ok by (simp add: engine_ok_def)
  ultimately show ?thesis using flush_part_ok [OF inv(1)] by blast
qed

text \<open>A flush that leaves level 0 short enough does not compact.\<close>

lemma flush_only:
  assumes ok: "engine_ok L" and size: "at_most (4 * 2 ^ 20 + 2 ^ 17) L" and some: "mt_Count (l_memtable L) \<noteq> 0"
    and room: "length (l_levels L ! 0) < l_maxL0Files L * 2"
  shows "\<exists>L'. flushMemtable os_ok k L = (Inr (), L')
     \<and> flushed L (contents_of L) L' ((contents_of L)[0 := contents_of L ! 0 @ [mem_entries L]])"
proof -
  obtain L' where L': "flush_part os_ok k L = (Inr (), L')"
      "flushed L (contents_of L) L' ((contents_of L)[0 := contents_of L ! 0 @ [mem_entries L]])"
    using flush_part_engine [OF ok size] by blast
  have "\<exists>s. l_levels L' = (l_levels L)[0 := l_levels L ! 0 @ [s]]" "l_maxL0Files L' = l_maxL0Files L"
    using L'(2) unfolding flushed_def in_level0_def by auto
  moreover have "0 < length (l_levels L)" using engine_inv [OF ok] by (simp add: lsm_inv_def)
  ultimately have "\<not> l_maxL0Files L' * 2 < length (l_levels L' ! 0)" using room by auto
  then have "flushMemtable os_ok k L = (Inr (), L')"
    using flushMemtable_part [OF some, of os_ok k] L'(1) by (simp add: andthen_def)
  with L'(2) show ?thesis by blast
qed

lemma flush_ok:
  assumes ok: "engine_ok L" and size: "at_most (4 * 2 ^ 20 + 2 ^ 17) L"
  shows "\<exists>L'. flushMemtable os_ok k L = (Inr (), L') \<and> engine_ok L' \<and> at_most 0 L'
     \<and> outlives (7 \<le> l_numLevels L) (all_set L) (all_set L') \<and> l_numLevels L' = l_numLevels L
     \<and> (logged L \<longrightarrow> logged L')"
proof (cases "mt_Count (l_memtable L) = 0")
  case True
  then have "mt_Size (l_memtable L) = 0"
    using engine_inv [OF ok] by (simp add: mt_Count_def mt_wf_def mt_Size_def)
  then show ?thesis using True ok by (simp add: flushMemtable_def at_most_def)
next
  case False
  obtain L1 where L1: "flush_part os_ok k L = (Inr (), L1)"
      "flushed L (contents_of L) L1 ((contents_of L)[0 := contents_of L ! 0 @ [mem_entries L]])"
    using flush_part_engine [OF ok size] by blast
  note f = flushed_store_ok [OF ok L1(2)]
  have L1': "l_memtable L1 = mt_New" "wal_ready L1" "l_flushThreshold L1 = l_flushThreshold L"
      "l_numLevels L1 = l_numLevels L"
    using L1(2) by (simp_all add: flushed_def in_level0_def)
  have "\<exists>L2. (if l_maxL0Files L1 * 2 < length (l_levels L1 ! 0) then compactL0ToL1 os_ok L1 else (Inr (), L1))
      = (Inr (), L2) \<and> compacts L1 L2"
    using compactL0ToL1_ok [OF f(1)] compacts_refl [OF f(1)] by auto
  then obtain L2 where L2: "(if l_maxL0Files L1 * 2 < length (l_levels L1 ! 0) then compactL0ToL1 os_ok L1 else (Inr (), L1))
      = (Inr (), L2)" "compacts L1 L2" by blast
  have "flushMemtable os_ok k L = (Inr (), L2)"
    unfolding flushMemtable_part [OF False] using L1(1) L2(1) by (simp add: andthen_def)
  moreover have mem: "l_memtable L2 = mt_New" "l_wal L2 = l_wal L1" using L2(2) L1'(1) by (simp_all add: compacts_def)
  then have "mem_entries L2 = []" by (simp add: mem_entries_New)
  moreover from this have "engine_ok L2"
    using L2(2) f(2) L1' ok mem by (simp add: engine_ok_def compacts_def wal_ready_def)
  moreover have "outlives (7 \<le> l_numLevels L) (all_set L) (all_set L2)"
    using L2(2) f(3,4) L1'(4) \<open>mem_entries L2 = []\<close> by (simp add: compacts_def all_set_def [of L1] all_set_def [of L2])
  moreover have "at_most 0 L2" by (simp add: at_most_def mem(1) mt_Size_def mt_New_def)
  moreover have "l_numLevels L2 = l_numLevels L" using L2(2) L1'(4) by (simp add: compacts_def)
  moreover have "logged L2" if log: "logged L"
  proof -
    obtain w where w: "l_wal L1 = Some w" "wal_holds w []"
      using log L1(2) unfolding logged_def flushed_def in_level0_def by blast
    then show ?thesis using mem by (intro logged_empty) simp_all
  qed
  ultimately show ?thesis by blast
qed

section \<open>Writes\<close>

text \<open>The timestamps of a batch count up from the clock.\<close>

lemma put_entries_nth:
  assumes "i < length kvs"
  shows "put_entries t kvs ! i = \<lparr>e_key = fst (kvs ! i), e_val = snd (kvs ! i), e_ts = t + of_nat i, e_tomb = False\<rparr>"
  using assms
proof (induction t kvs arbitrary: i rule: put_entries.induct)
  case (2 t k v kvs)
  then show ?case by (cases i) (simp_all add: algebra_simps)
qed simp

lemma sint_add_small:
  fixes t :: i64
  assumes "sint t + int n < 2 ^ 63"
  shows "sint (t + of_nat n) = sint t + int n"
proof -
  have "- (2 ^ 63) \<le> sint t" using sint_ge [of t] by simp
  moreover have "t + of_nat n = word_of_int (sint t + int n)" by simp
  then have "sint (t + of_nat n) = signed_take_bit 63 (sint t + int n)" by (simp only: sint_sbintrunc') simp
  ultimately show ?thesis using assms by (simp add: signed_take_bit_int_eq_self)
qed

lemma last_write_newest:
  assumes "sorted (map (sint \<circ> e_ts) es)" "e \<in> set es"
  shows "\<exists>x. last_write es (e_key e) = Some x \<and> x \<in> set es \<and> e_key x = e_key e \<and> sint (e_ts e) \<le> sint (e_ts x)"
  using assms
proof (induction es rule: rev_induct)
  case (snoc y es)
  then show ?case
    by (cases "e_key y = e_key e") (auto simp: last_write_snoc sorted_append)
qed simp

lemma put_entries_sorted:
  assumes "sint t + int (length kvs) < 2 ^ 63"
  shows "sorted (map (sint \<circ> e_ts) (put_entries t kvs))" "\<forall>e\<in>set (put_entries t kvs). sint t \<le> sint (e_ts e)"
proof -
  have ts: "sint (e_ts (put_entries t kvs ! i)) = sint t + int i" if "i < length kvs" for i
    using that assms by (simp add: put_entries_nth sint_add_small)
  then show "sorted (map (sint \<circ> e_ts) (put_entries t kvs))" by (simp add: sorted_iff_nth_mono)
  show "\<forall>e\<in>set (put_entries t kvs). sint t \<le> sint (e_ts e)" using ts by (simp add: all_set_conv_all_nth)
qed

text \<open>Entries written in the order of their timestamps, none older than what the store has.\<close>

definition plain :: "entry \<Rightarrow> bool" where
  "plain e \<longleftrightarrow> (e_tomb e \<longrightarrow> e_val e = [])"

lemma stored_plain: "plain e \<Longrightarrow> stored e = e"
  by (cases e) (simp add: plain_def stored_def)

definition fresh_writes :: "entry list \<Rightarrow> entry set \<Rightarrow> bool" where
  "fresh_writes es A \<longleftrightarrow> sorted (map (sint \<circ> e_ts) es) \<and> (\<forall>e\<in>set es. plain e)
     \<and> (\<forall>e\<in>set es. \<forall>a\<in>A. sint (e_ts a) \<le> sint (e_ts e))"

lemma mem_replay:
  assumes wf: "mt_wf (l_memtable L)" and es: "\<forall>e\<in>set es. plain e"
    and L': "l_memtable L' = replay_into es (l_memtable L)"
  shows "e \<in> set (mem_entries L') \<longleftrightarrow>
     (case last_write es (e_key e) of Some x \<Rightarrow> x = e | None \<Rightarrow> e \<in> set (mem_entries L))"
proof -
  have "mt_wf (l_memtable L')" unfolding L' by (rule replay_into_wf [OF wf])
  then have "e \<in> set (mem_entries L') \<longleftrightarrow> mt_Get (replay_into es (l_memtable L)) (e_key e) = Some e"
    unfolding L' [symmetric] by (rule mem_entries_iff)
  then have iff: "e \<in> set (mem_entries L') \<longleftrightarrow>
      (case last_write es (e_key e) of Some x \<Rightarrow> Some (stored x) | None \<Rightarrow> mt_Get (l_memtable L) (e_key e)) = Some e"
    by (simp only: replay_into_get)
  show ?thesis
  proof (cases "last_write es (e_key e)")
    case None
    with iff mem_entries_iff [OF wf, of e] show ?thesis by simp
  next
    case (Some x)
    then have "stored x = x" using last_write_mem es stored_plain by blast
    with iff Some show ?thesis by simp
  qed
qed

lemma write_newer:
  assumes wf: "mt_wf (l_memtable L)" and es: "fresh_writes es (all_set L)"
    and L': "l_memtable L' = replay_into es (l_memtable L)" "l_levels L' = l_levels L" and e: "e \<in> all_set L \<union> set es"
  shows "\<exists>x\<in>all_set L'. x \<in> all_set L \<union> set es \<and> e_key x = e_key e \<and> sint (e_ts e) \<le> sint (e_ts x)"
proof -
  have live: "\<forall>e\<in>set es. plain e" and sorted: "sorted (map (sint \<circ> e_ts) es)"
    using es by (simp_all add: fresh_writes_def)
  note mem = mem_replay [OF wf live L'(1)]
  show ?thesis
  proof (cases "last_write es (e_key e)")
    case None
    then have "e \<notin> set es" using last_write_newest [OF sorted] by fastforce
    with e have a: "e \<in> all_set L" by simp
    then have "e \<in> all_set L'" using None mem [of e] by (auto simp: all_set_def stored_set_def L'(2))
    with a show ?thesis by blast
  next
    case (Some x)
    then have x: "x \<in> set es" "e_key x = e_key e" using last_write_mem by blast+
    then have "x \<in> all_set L'" using Some mem [of x] by (simp add: all_set_def)
    moreover have "sint (e_ts e) \<le> sint (e_ts x)"
    proof (cases "e \<in> set es")
      case True
      then show ?thesis using last_write_newest [OF sorted True] Some by auto
    next
      case False
      then show ?thesis using es x(1) e by (simp add: fresh_writes_def)
    qed
    ultimately show ?thesis using x by blast
  qed
qed

lemma write_outlives:
  assumes wf: "mt_wf (l_memtable L)" and es: "fresh_writes es (all_set L)"
    and L': "l_memtable L' = replay_into es (l_memtable L)" "l_levels L' = l_levels L"
  shows "outlives b (all_set L \<union> set es) (all_set L')"
proof -
  have live: "\<forall>e\<in>set es. plain e" using es by (simp add: fresh_writes_def)
  note mem = mem_replay [OF wf live L'(1)]
  have "e \<in> all_set L \<union> set es" if "e \<in> all_set L'" for e
  proof (cases "e \<in> stored_set L")
    case False
    then have e: "e \<in> set (mem_entries L')" using that by (simp add: all_set_def stored_set_def L'(2))
    show ?thesis
    proof (cases "last_write es (e_key e)")
      case None
      with e mem [of e] show ?thesis by (simp add: all_set_def)
    next
      case (Some x)
      with e mem [of e] last_write_mem [OF Some] show ?thesis by simp
    qed
  qed (simp add: all_set_def)
  then have "all_set L' \<subseteq> all_set L \<union> set es" by (rule subsetI)
  moreover have "\<exists>x\<in>all_set L \<union> set es. e_key x = e_key e \<and> sint (e_ts e) \<le> sint (e_ts x) \<and> (x \<in> all_set L' \<or> b \<and> e_tomb x)"
    if "e \<in> all_set L \<union> set es" for e
    using write_newer [OF assms that] by (elim bexE) (intro bexI, auto)
  ultimately show ?thesis unfolding outlives_def by blast
qed

lemma mt_store_size:
  assumes "mt_wf m"
  shows "mt_Size (mt_store m e) \<le> mt_Size m + entry_cost e"
  by (auto simp: mt_store_def mt_Size_def Let_def split: option.splits)

lemma replay_into_store:
  "\<forall>e\<in>set es. plain e \<Longrightarrow> replay_into es m = foldl mt_store m es"
proof (induction es arbitrary: m)
  case (Cons e es)
  obtain k v t b where "e = \<lparr>e_key = k, e_val = v, e_ts = t, e_tomb = b\<rparr>" by (cases e)
  with Cons.prems have "(if e_tomb e then mt_Delete m (e_key e) (e_ts e) else mt_Put m (e_key e) (e_val e) (e_ts e)) = mt_store m e"
    by (simp add: mt_Put_store mt_Delete_store plain_def)
  with Cons show ?case by (simp add: replay_into_def)
qed (simp add: replay_into_def)

lemma replay_into_size:
  assumes "mt_wf m" "\<forall>e\<in>set es. plain e"
  shows "mt_Size (replay_into es m) \<le> mt_Size m + sum_list (map entry_cost es)"
  unfolding replay_into_store [OF assms(2)] using assms
proof (induction es arbitrary: m)
  case (Cons e es)
  have "mt_wf (mt_store m e)" using Cons.prems by (intro mt_wf_store) (simp_all add: plain_def)
  from Cons.IH [OF this] Cons.prems show ?case using mt_store_size [OF Cons.prems(1), of e] by simp
qed simp

definition small_batch :: "(gostr \<times> gostr) list \<Rightarrow> bool" where
  "small_batch kvs \<longleftrightarrow> (\<forall>(k, v)\<in>set kvs. length k \<le> 512 \<and> length v \<le> 65536) \<and> put_estimate kvs \<le> 2 ^ 17"

lemma put_entries_small:
  "\<forall>(k, v)\<in>set kvs. length k \<le> 512 \<and> length v \<le> 65536 \<Longrightarrow> \<forall>e\<in>set (put_entries t kvs). entry_small e"
  by (induction t kvs rule: put_entries.induct) (auto simp: entry_small_def)

lemma put_entries_cost: "sum_list (map entry_cost (put_entries t kvs)) = put_estimate kvs"
  by (induction t kvs rule: put_entries.induct) (auto simp: entry_cost_def put_estimate_def)

lemma small_batch_fits: "small_batch kvs \<Longrightarrow> batch_fits (put_entries t kvs)"
proof -
  assume kvs: "small_batch kvs"
  have "16 * int (length kvs) \<le> put_estimate kvs" by (induction kvs) (auto simp: put_estimate_def)
  then have "length kvs * 48 \<le> 2 ^ 48" using kvs by (simp add: small_batch_def)
  then show ?thesis
    using put_entries_small [of kvs t] kvs by (auto simp: batch_fits_def small_batch_def intro: entry_small_fits)
qed

lemma put_entries_plain: "\<forall>e\<in>set (put_entries t kvs). plain e"
  using put_entries_live by (auto simp: plain_def)

text \<open>Writing into the memtable and the log keeps the engine's invariant.\<close>

lemma engine_write:
  assumes ok: "engine_ok L" and es: "\<forall>e\<in>set es. plain e \<and> entry_small e" "fresh_writes es (all_set L)"
    and L': "L' = L\<lparr>l_memtable := replay_into es (l_memtable L), l_wal := w, l_stats := s\<rparr>"
      "ss_LevelSizes s = ss_LevelSizes (l_stats L)" "\<forall>v. w = Some v \<longrightarrow> wal_up v \<and> (\<exists>data. wal_at v data)"
  shows "engine_ok L'" "outlives b (all_set L \<union> set es) (all_set L')" "l_numLevels L' = l_numLevels L"
    "mt_Size (l_memtable L') \<le> mt_Size (l_memtable L) + sum_list (map entry_cost es)"
proof -
  have inv: "lsm_inv L (contents_of L)" and wf: "mt_wf (l_memtable L)" using engine_inv [OF ok] by simp_all
  have c: "contents_of L' = contents_of L" "paths_of L' = paths_of L" "l_memtable L' = replay_into es (l_memtable L)"
      "l_levels L' = l_levels L" "l_wal L' = w"
    by (simp_all add: L'(1) contents_of_def paths_of_def)
  have plain: "\<forall>e\<in>set es. plain e" using es(1) by simp
  have "lsm_inv L' (contents_of L)"
    unfolding L'(1) by (rule lsm_inv_memtable [OF inv replay_into_wf [OF wf] L'(2)])
  then have "lsm_inv L' (contents_of L')" by (simp only: c(1))
  then have "store_ok L'" using ok c by (simp add: store_ok_def engine_ok_def) (simp add: L'(1))
  moreover have "entry_small e" if "e \<in> set (mem_entries L')" for e
  proof (cases "last_write es (e_key e)")
    case None
    then show ?thesis using that mem_replay [OF wf plain c(3), of e] ok by (simp add: engine_ok_def)
  next
    case (Some x)
    then show ?thesis using that mem_replay [OF wf plain c(3), of e] last_write_mem [OF Some] es(1) by simp
  qed
  ultimately show "engine_ok L'"
    using ok L'(3) c(5) by (simp add: engine_ok_def wal_ready_def) (simp add: L'(1) saved_def)
  show "outlives b (all_set L \<union> set es) (all_set L')"
    by (rule write_outlives [OF wf es(2) c(3,4)])
  show "l_numLevels L' = l_numLevels L" by (simp add: L'(1))
  show "mt_Size (l_memtable L') \<le> mt_Size (l_memtable L) + sum_list (map entry_cost es)"
    unfolding c(3) by (rule replay_into_size [OF wf plain])
qed

text \<open>The clock is not behind any entry, and does not run over within the batch.\<close>

definition clock_ok :: "i64 \<Rightarrow> nat \<Rightarrow> entry set \<Rightarrow> bool" where
  "clock_ok now n A \<longleftrightarrow> sint now + int n < 2 ^ 63 \<and> (\<forall>a\<in>A. sint (e_ts a) \<le> sint now)"

lemma put_step_engine:
  assumes ok: "engine_ok L" and size: "at_most (4 * 2 ^ 20) L" and kvs: "small_batch kvs"
    and clock: "clock_ok now (length kvs) (all_set L)"
  shows "\<exists>L1. put_step os_ok k now kvs L = (Inr (), L1) \<and> engine_ok L1 \<and> at_most (4 * 2 ^ 20 + 2 ^ 17) L1
     \<and> outlives b (all_set L \<union> set (put_entries now kvs)) (all_set L1) \<and> (logged L \<longrightarrow> logged L1)
     \<and> l_memtable L1 = replay_into (put_entries now kvs) (l_memtable L) \<and> l_levels L1 = l_levels L
     \<and> l_numLevels L1 = l_numLevels L \<and> l_maxL0Files L1 = l_maxL0Files L \<and> l_flushThreshold L1 = l_flushThreshold L
     \<and> l_nextID L1 = l_nextID L"
proof -
  let ?es = "put_entries now kvs"
  have wal: "wal_ready L" using ok by (simp add: engine_ok_def)
  obtain w s where st: "put_step os_ok k now kvs L = (Inr (), (puts now kvs L)\<lparr>l_wal := w, l_stats := s\<rparr>)"
     "ss_LevelSizes s = ss_LevelSizes (l_stats L)"
     "\<forall>v. w = Some v \<longrightarrow> wal_up v \<and> (\<exists>data. wal_at v data)"
     "\<forall>v data. l_wal L = Some v \<longrightarrow> wal_at v data \<longrightarrow>
          (\<exists>v'. w = Some v' \<and> wal_at v' (data @ serializeEntries ?es) \<and> wal_up v')"
    using put_step_ok [OF wal, of k now kvs] by (elim exE conjE) (rule that)
  define L1 where "L1 = (puts now kvs L)\<lparr>l_wal := w, l_stats := s\<rparr>"
  have L1: "L1 = L\<lparr>l_memtable := replay_into ?es (l_memtable L), l_wal := w, l_stats := s\<rparr>"
    by (simp add: L1_def puts_def)
  have "sint now + int (length kvs) < 2 ^ 63" using clock by (simp add: clock_ok_def)
  note sorted = put_entries_sorted [OF this]
  have es: "\<forall>e\<in>set ?es. plain e \<and> entry_small e" "fresh_writes ?es (all_set L)"
    using put_entries_plain put_entries_small kvs sorted clock
    by (auto simp: small_batch_def fresh_writes_def clock_ok_def intro: order_trans)
  note W = engine_write [OF ok es L1 st(2,3)]
  have "batch_fits ?es" using kvs by (rule small_batch_fits)
  then have "logged L1" if "logged L"
    by (rule logged_write [OF that]) (use st(4) in \<open>simp_all add: L1\<close>)
  moreover have "at_most (4 * 2 ^ 20 + 2 ^ 17) L1"
    using W(4) size kvs by (simp add: at_most_def put_entries_cost small_batch_def)
  moreover have "put_step os_ok k now kvs L = (Inr (), L1)" using st(1) by (simp add: L1_def)
  ultimately show ?thesis using W(1,2) by (intro exI [of _ L1]) (simp add: L1)
qed

lemma PutBatch_ok:
  assumes ok: "engine_ok L" and size: "at_most (4 * 2 ^ 20) L" and kvs: "kvs \<noteq> []" "small_batch kvs"
    and clock: "clock_ok now (length kvs) (all_set L)"
  shows "\<exists>L'. PutBatch os_ok k now kvs L = (Inr (), L') \<and> engine_ok L' \<and> at_most (4 * 2 ^ 20) L'
     \<and> outlives (7 \<le> l_numLevels L) (all_set L \<union> set (put_entries now kvs)) (all_set L')
     \<and> l_numLevels L' = l_numLevels L \<and> (logged L \<longrightarrow> logged L')"
proof -
  let ?A = "all_set L \<union> set (put_entries now kvs)"
  obtain L1 where L1: "put_step os_ok k now kvs L = (Inr (), L1)" "engine_ok L1" "at_most (4 * 2 ^ 20 + 2 ^ 17) L1"
      "outlives (7 \<le> l_numLevels L) ?A (all_set L1)" "logged L \<longrightarrow> logged L1" "l_numLevels L1 = l_numLevels L"
    using put_step_engine [OF ok size kvs(2) clock, of k] by blast
  have thr: "l_flushThreshold L1 \<le> 4 * 2 ^ 20" using L1(2) by (simp add: engine_ok_def)
  show ?thesis
  proof (cases "l_flushThreshold L1 \<le> mt_Size (l_memtable L1)")
    case True
    obtain L2 where L2: "flushMemtable os_ok k L1 = (Inr (), L2)" "engine_ok L2" "at_most 0 L2"
        "outlives (7 \<le> l_numLevels L1) (all_set L1) (all_set L2)" "l_numLevels L2 = l_numLevels L1"
        "logged L1 \<longrightarrow> logged L2"
      using flush_ok [OF L1(2,3)] by blast
    have "PutBatch os_ok k now kvs L = (Inr (), L2)"
      using True L2(1) by (simp add: PutBatch_step [OF kvs(1)] andthen_def L1(1))
    moreover have "outlives (7 \<le> l_numLevels L) ?A (all_set L2)"
      using outlives_trans [OF L1(4)] L2(4) L1(6) by simp
    moreover have "at_most (4 * 2 ^ 20) L2" using L2(3) by (simp add: at_most_def)
    ultimately show ?thesis using L2(2,5,6) L1(5,6) by auto
  next
    case False
    then have "PutBatch os_ok k now kvs L = (Inr (), L1)"
      by (simp add: PutBatch_step [OF kvs(1)] andthen_def L1(1))
    moreover have "at_most (4 * 2 ^ 20) L1" using False thr by (simp add: at_most_def)
    ultimately show ?thesis using L1 by blast
  qed
qed

lemma written_count:
  assumes "kvs \<noteq> []"
  shows "mt_Count (replay_into (put_entries now kvs) m) \<noteq> 0"
proof -
  obtain e kvs' where "put_entries now kvs = e # kvs'" using assms by (cases kvs) auto
  then have "last_write (put_entries now kvs) (e_key e) \<noteq> None" by (auto simp: last_write_def find_None_iff)
  then have "mt_Get (replay_into (put_entries now kvs) m) (e_key e) \<noteq> None"
    unfolding replay_into_get by (auto split: option.splits)
  then show ?thesis by (auto simp: mt_Count_def mt_Get_def)
qed

text \<open>A batch that fills the memtable is a write followed by a flush.\<close>

lemma PutBatch_flush:
  assumes ok: "engine_ok L" and size: "at_most (4 * 2 ^ 20) L" and kvs: "kvs \<noteq> []" "small_batch kvs"
    and clock: "clock_ok now (length kvs) (all_set L)"
    and full: "l_flushThreshold L \<le> mt_Size (l_memtable (puts now kvs L))"
    and room: "length (l_levels L ! 0) < l_maxL0Files L * 2"
  shows "\<exists>L1 L2. PutBatch os_ok k now kvs L = (Inr (), L2) \<and> engine_ok L1 \<and> engine_ok L2
     \<and> l_memtable L1 = replay_into (put_entries now kvs) (l_memtable L) \<and> l_levels L1 = l_levels L
     \<and> l_numLevels L2 = l_numLevels L \<and> l_nextID L2 = l_nextID L + 1
     \<and> flushed L1 (contents_of L1) L2 ((contents_of L1)[0 := contents_of L1 ! 0 @ [mem_entries L1]])"
proof -
  obtain L1 where L1: "put_step os_ok k now kvs L = (Inr (), L1)" "engine_ok L1" "at_most (4 * 2 ^ 20 + 2 ^ 17) L1"
      "l_memtable L1 = replay_into (put_entries now kvs) (l_memtable L)" "l_levels L1 = l_levels L"
      "l_numLevels L1 = l_numLevels L" "l_maxL0Files L1 = l_maxL0Files L" "l_flushThreshold L1 = l_flushThreshold L"
      "l_nextID L1 = l_nextID L"
    using put_step_engine [OF ok size kvs(2) clock, of k] by blast
  have "mt_Count (l_memtable L1) \<noteq> 0" unfolding L1(4) by (rule written_count [OF kvs(1)])
  from flush_only [OF L1(2,3) this, of k] obtain L2 where
    L2: "flushMemtable os_ok k L1 = (Inr (), L2)"
      "flushed L1 (contents_of L1) L2 ((contents_of L1)[0 := contents_of L1 ! 0 @ [mem_entries L1]])"
    using room L1(5,7) by auto
  have "engine_ok L2" "l_numLevels L2 = l_numLevels L1" using flush_ok [OF L1(2,3), of k] L2(1) by auto
  moreover have "PutBatch os_ok k now kvs L = (Inr (), L2)"
    using L2(1) full L1(4,8) by (simp add: PutBatch_step [OF kvs(1)] andthen_def L1(1) puts_def)
  moreover have "l_nextID L2 = l_nextID L1 + 1" using L2(2) by (simp add: flushed_def in_level0_def)
  ultimately show ?thesis using L1(2,4,5,6,9) L2(2) by (intro exI [of _ L1] exI [of _ L2] conjI) simp_all
qed

definition tombstone :: "i64 \<Rightarrow> gostr \<Rightarrow> entry" where
  "tombstone now key = \<lparr>e_key = key, e_val = [], e_ts = now, e_tomb = True\<rparr>"

lemma Delete_ok:
  assumes ok: "engine_ok L" and key: "length key \<le> 512" and clock: "clock_ok now 1 (all_set L)"
  shows "\<exists>L'. lsm_Delete os_ok k now key L = (Inr (), L') \<and> engine_ok L'
     \<and> outlives (7 \<le> l_numLevels L) (all_set L \<union> {tombstone now key}) (all_set L')
     \<and> l_numLevels L' = l_numLevels L \<and> (logged L \<longrightarrow> logged L')"
proof -
  let ?e = "tombstone now key"
  have wal: "wal_ready L" using ok by (simp add: engine_ok_def)
  obtain w s where run: "lsm_Delete os_ok k now key L
      = (Inr (), L\<lparr>l_memtable := mt_Delete (l_memtable L) key now, l_wal := w, l_stats := s\<rparr>)"
      "ss_LevelSizes s = ss_LevelSizes (l_stats L)"
      "\<forall>w'. w = Some w' \<longrightarrow> wal_up w' \<and> (\<exists>data. wal_at w' data)"
      "\<forall>v data. l_wal L = Some v \<longrightarrow> wal_at v data \<longrightarrow>
          (\<exists>v'. w = Some v' \<and> wal_at v' (data @ serializeEntries [?e]) \<and> wal_up v')"
    using Delete_run [OF wal, of k now key, folded tombstone_def] by (elim exE conjE) (rule that)
  define L1 where "L1 = L\<lparr>l_memtable := mt_Delete (l_memtable L) key now, l_wal := w, l_stats := s\<rparr>"
  have L1: "L1 = L\<lparr>l_memtable := replay_into [?e] (l_memtable L), l_wal := w, l_stats := s\<rparr>"
    by (simp add: L1_def replay_into_def tombstone_def)
  have es: "\<forall>e\<in>set [?e]. plain e \<and> entry_small e" "fresh_writes [?e] (all_set L)"
    using key clock by (simp_all add: plain_def tombstone_def entry_small_def fresh_writes_def clock_ok_def)
  note W = engine_write [OF ok es L1 run(2,3)]
  have "batch_fits [?e]" using es(1) by (simp add: batch_fits_def entry_small_fits)
  then have "logged L1" if "logged L"
    by (rule logged_write [OF that]) (use run(4) in \<open>simp_all add: L1\<close>)
  then show ?thesis
    using run(1) W(1-3) by (intro exI [of _ L1]) (simp add: L1_def)
qed

section \<open>Reads and the background loop\<close>

lemma get_tables_stats: "get_tables ss k L = (r, L') \<Longrightarrow> same_but_stats L L'"
proof (induction ss k L rule: get_tables.induct)
  case (2 s ss k L)
  let ?skip = "upd_stats (\<lambda>x. x\<lparr>ss_BloomFilterSkips := ss_BloomFilterSkips x + 1\<rparr>) L"
  let ?open = "upd_stats (\<lambda>x. x\<lparr>ss_FilesOpened := ss_FilesOpened x + 1\<rparr>) L"
  have open_ok: "same_but_stats L ?open" by (rule same_but_stats_upd(2) [OF same_but_stats_refl])
  show ?case
  proof (cases "st_MayContain s k")
    case (Inl err)
    with "2.prems" show ?thesis by (simp add: same_but_stats_refl)
  next
    case (Inr b)
    show ?thesis
    proof (cases b)
      case False
      with Inr 2 have "same_but_stats ?skip L'" by simp
      then show ?thesis by (rule same_but_stats_upd(1))
    next
      case True
      show ?thesis
      proof (cases "st_Get s k = Inr None")
        case none: True
        with Inr True 2 have "same_but_stats ?open L'" by (simp add: Let_def)
        then show ?thesis by (rule same_but_stats_upd(2))
      next
        case False
        with Inr True "2.prems" have "L' = ?open" by (auto simp: Let_def split: sum.splits option.splits)
        with open_ok show ?thesis by simp
      qed
    qed
  qed
qed (simp add: same_but_stats_refl)

lemma get_levels_stats: "get_levels sss k L = (r, L') \<Longrightarrow> same_but_stats L L'"
proof (induction sss k L rule: get_levels.induct)
  case (2 ss sss k L)
  obtain r1 L1 where g: "get_tables ss k L = (r1, L1)" by fastforce
  note same = get_tables_stats [OF g]
  show ?case
  proof (cases "r1 = Inr None")
    case True
    with 2 g have "same_but_stats L1 L'" by simp
    with same show ?thesis by (rule same_but_stats_trans)
  next
    case False
    with "2.prems" g same show ?thesis by (auto split: sum.splits option.splits)
  qed
qed (simp add: same_but_stats_refl)

lemma lsm_Get_stats: "lsm_Get k L = (r, L') \<Longrightarrow> same_but_stats L L'"
  by (auto simp: lsm_Get_def andthen_def ret_def same_but_stats_refl dest: get_levels_stats
      split: option.splits prod.splits sum.splits)

lemma same_but_stats_engine:
  assumes "same_but_stats L L'"
  shows "engine_ok L' = engine_ok L" "all_set L' = all_set L" "l_numLevels L' = l_numLevels L"
    "l_memtable L' = l_memtable L" "logged L' = logged L"
  using assms
  by (auto simp: same_but_stats_def upd_stats_def engine_ok_def logged_def store_ok_def lsm_inv_def contents_of_def
      wal_ready_def saved_def mem_entries_def all_set_def stored_set_def paths_of_def)

lemma engine_compacts:
  assumes ok: "engine_ok L" and cm: "compacts L L'"
  shows "engine_ok L'" "l_memtable L' = l_memtable L" "outlives (7 \<le> l_numLevels L) (all_set L) (all_set L')"
    "l_numLevels L' = l_numLevels L" "logged L' = logged L"
proof -
  have mem: "l_memtable L' = l_memtable L" "l_wal L' = l_wal L" using cm by (simp_all add: compacts_def)
  then have e: "mem_entries L' = mem_entries L" by (simp add: mem_entries_def)
  show "engine_ok L'" using cm ok mem e by (simp add: engine_ok_def compacts_def wal_ready_def)
  show "outlives (7 \<le> l_numLevels L) (all_set L) (all_set L')"
    using cm outlives_union [of _ "stored_set L" "stored_set L'" "set (mem_entries L)"]
    by (simp add: all_set_def e compacts_def Un_commute)
  show "l_memtable L' = l_memtable L" "l_numLevels L' = l_numLevels L" "logged L' = logged L"
    using mem logged_cong [OF mem(2,1)] cm by (simp_all add: compacts_def)
qed

lemma engine_tick:
  assumes ok: "engine_ok L"
  shows "\<exists>L'. compaction_tick os_ok L = (Inr (), L') \<and> engine_ok L' \<and> l_memtable L' = l_memtable L
     \<and> outlives (7 \<le> l_numLevels L) (all_set L) (all_set L') \<and> l_numLevels L' = l_numLevels L
     \<and> logged L' = logged L"
proof -
  have "store_ok L" using ok by (simp add: engine_ok_def)
  from compaction_tick_ok [OF this] obtain L' where "compaction_tick os_ok L = (Inr (), L')" "compacts L L'" by blast
  with engine_compacts [OF ok] show ?thesis by blast
qed

section \<open>Runs\<close>

text \<open>
  A configuration is the engine and the entries written so far.  Writes are
  bounded: keys of at most 512 bytes, values of at most 64 KiB, a batch of at
  most 128 KiB, and no write while deletes have let the memtable grow beyond
  4 MiB; for larger ones the table writer may run out of its mapping.
\<close>

inductive engine_step :: "kernel \<Rightarrow> lsm \<times> entry set \<Rightarrow> lsm \<times> entry set \<Rightarrow> bool" for kn where
  put: "\<lbrakk> small_batch kvs; clock_ok now (length kvs) W; at_most (4 * 2 ^ 20) L;
         PutBatch os_ok kn now kvs L = (r, L') \<rbrakk>
       \<Longrightarrow> engine_step kn (L, W) (L', W \<union> set (put_entries now kvs))"
| delete: "\<lbrakk> length key \<le> 512; clock_ok now 1 W; lsm_Delete os_ok kn now key L = (r, L') \<rbrakk>
       \<Longrightarrow> engine_step kn (L, W) (L', insert (tombstone now key) W)"
| get: "lsm_Get key L = (g, L') \<Longrightarrow> engine_step kn (L, W) (L', W)"
| compact: "compaction_tick os_ok L = (r, L') \<Longrightarrow> engine_step kn (L, W) (L', W)"

inductive_cases engine_stepE: "engine_step kn (L, W) c"

text \<open>\<open>d\<close> says whether the engine keeps a log.\<close>

definition engine_inv_for :: "nat \<Rightarrow> bool \<Rightarrow> lsm \<times> entry set \<Rightarrow> bool" where
  "engine_inv_for n d c \<longleftrightarrow> (case c of (L, W) \<Rightarrow>
     engine_ok L \<and> l_numLevels L = n \<and> outlives (7 \<le> n) W (all_set L) \<and> (d \<longrightarrow> logged L))"

lemma clock_ok_mono: "clock_ok now n W \<Longrightarrow> A \<subseteq> W \<Longrightarrow> clock_ok now n A"
  by (auto simp: clock_ok_def)

lemma engine_step_inv:
  assumes step: "engine_step kn c c'" and inv: "engine_inv_for n d c"
  shows "engine_inv_for n d c'"
  using step inv
proof cases
  case (put kvs now W L r L')
  have ok: "engine_ok L" "l_numLevels L = n" "outlives (7 \<le> n) W (all_set L)" "d \<longrightarrow> logged L"
    using inv put(1) by (simp_all add: engine_inv_for_def)
  have clock: "clock_ok now (length kvs) (all_set L)"
    by (rule clock_ok_mono [OF put(4)]) (use ok(3) in \<open>simp add: outlives_def\<close>)
  show ?thesis
  proof (cases "kvs = []")
    case True
    then have "L' = L" using put(6) by (simp add: PutBatch_def)
    with True inv put show ?thesis by simp
  next
    case False
    from PutBatch_ok [OF ok(1) put(5) False put(3) clock, of kn] put(6)
    have L': "engine_ok L'" "outlives (7 \<le> n) (all_set L \<union> set (put_entries now kvs)) (all_set L')" "l_numLevels L' = n"
        "logged L \<longrightarrow> logged L'"
      by (simp_all add: ok(2))
    have "outlives (7 \<le> n) (W \<union> set (put_entries now kvs)) (all_set L')"
      by (rule outlives_trans [OF outlives_union [OF ok(3)] L'(2)])
    with L' put(2) ok(4) show ?thesis by (simp add: engine_inv_for_def)
  qed
next
  case (delete key now W L r L')
  have ok: "engine_ok L" "l_numLevels L = n" "outlives (7 \<le> n) W (all_set L)" "d \<longrightarrow> logged L"
    using inv delete(1) by (simp_all add: engine_inv_for_def)
  have clock: "clock_ok now 1 (all_set L)"
    by (rule clock_ok_mono [OF delete(4)]) (use ok(3) in \<open>simp add: outlives_def\<close>)
  from Delete_ok [OF ok(1) delete(3) clock, of kn] delete(5)
  have L': "engine_ok L'" "outlives (7 \<le> n) (all_set L \<union> {tombstone now key}) (all_set L')" "l_numLevels L' = n"
      "logged L \<longrightarrow> logged L'"
    by (simp_all add: ok(2))
  have "outlives (7 \<le> n) (W \<union> {tombstone now key}) (all_set L')"
    by (rule outlives_trans [OF outlives_union [OF ok(3)] L'(2)])
  with L' delete(2) ok(4) show ?thesis by (simp add: engine_inv_for_def)
next
  case (get key L g L' W)
  with inv same_but_stats_engine [OF lsm_Get_stats [OF get(3)]] show ?thesis by (simp add: engine_inv_for_def)
next
  case (compact L r L' W)
  have ok: "engine_ok L" "l_numLevels L = n" "outlives (7 \<le> n) W (all_set L)" "d \<longrightarrow> logged L"
    using inv compact(1) by (simp_all add: engine_inv_for_def)
  from engine_tick [OF ok(1)] compact(3)
  have "engine_ok L'" "outlives (7 \<le> n) (all_set L) (all_set L')" "l_numLevels L' = n" "logged L' = logged L"
    by (simp_all add: ok(2))
  with compact(2) outlives_trans [OF ok(3)] ok(4) show ?thesis by (simp add: engine_inv_for_def)
qed

lemma engine_run_inv: "(engine_step kn)\<^sup>*\<^sup>* c c' \<Longrightarrow> engine_inv_for n d c \<Longrightarrow> engine_inv_for n d c'"
  by (induction rule: rtranclp_induct) (auto intro: engine_step_inv)

section \<open>A new engine\<close>

lemma scan_dir_none:
  "\<forall>p\<in>set ps. \<not> has_suffix p sst_suffix \<Longrightarrow> scan_dir os fs n ps levels = Inr levels"
  by (induction ps) auto

text \<open>The first part of an opening: the log, if there is one.\<close>

definition log_part :: "os \<Rightarrow> kernel \<Rightarrow> options \<Rightarrow> (unit, lsm) prog" where
  "log_part os k opts =
     (if op_NoWAL opts then ret ()
      else
        andthen (on_files (wal_New os k wal_name (op_WALSyncMode opts))) (\<lambda>w.
        andthen (update (\<lambda>L. L\<lparr>l_wal := Some w\<rparr>)) (\<lambda>_. recoverWAL os k)))"

lemma log_part_new:
  assumes "op_WALSyncMode opts \<noteq> SyncIouring" "files_of L = []" "l_wal L = None" "l_memtable L = mt_New"
  shows "\<exists>w fs. log_part os_ok kn opts L = (Inr (), L\<lparr>l_disk := (l_disk L)\<lparr>d_files := fs\<rparr>, l_wal := w\<rparr>)
     \<and> (\<forall>v. w = Some v \<longrightarrow> wal_up v \<and> (\<exists>data. wal_at v data))
     \<and> (\<forall>p. has_suffix p sst_suffix \<longrightarrow> p \<notin> fst ` set fs)
     \<and> (\<not> op_NoWAL opts \<longrightarrow> (\<exists>v. w = Some v \<and> wal_holds v [] \<and> wa_mode v = op_WALSyncMode opts
          \<and> wa_file v = walVersion # replicate (wal_initialMmapSize - 1) 0 \<and> wa_synced v = []))"
proof (cases "op_NoWAL opts")
  case True
  then show ?thesis using assms(2,3) by (intro exI [of _ None] exI [of _ "[]"]) (simp add: log_part_def ret_def)
next
  case False
  obtain w fs where w: "wal_New os_ok kn wal_name (op_WALSyncMode opts) [] = (Inr w, fs)" "wal_at w []" "wal_up w"
      "map_of fs = [wal_name \<mapsto> wa_file w]" "wa_mode w = op_WALSyncMode opts"
      "wa_file w = walVersion # replicate (wal_initialMmapSize - 1) 0"  "wa_synced w = []"
    using wal_New_empty [of "[]" wal_name "op_WALSyncMode opts" kn] assms(1) by auto
  have "wal_Replay w = Inr []" using wal_Replay_at [OF w(2)] by simp
  then have "log_part os_ok kn opts L = (Inr (), L\<lparr>l_disk := (l_disk L)\<lparr>d_files := fs\<rparr>, l_wal := Some w\<rparr>)"
    using False w(1) assms(2,4)
    by (simp add: log_part_def andthen_def on_files_def on_disk_def update_def recoverWAL_def replay_into_def)
  moreover have "p \<notin> fst ` set fs" if "has_suffix p sst_suffix" for p
  proof -
    have "p \<noteq> wal_name" using that by (auto simp: wal_name_def has_suffix_def sst_suffix_def)
    then have "map_of fs p = None" by (simp add: w(4))
    then show ?thesis by (simp add: map_of_eq_None_iff)
  qed
  ultimately show ?thesis using w by (intro exI [of _ "Some w"] exI [of _ fs]) (auto simp: wal_holds_def)
qed

lemma lsm_Open_new:
  assumes opts: "op_WALSyncMode opts \<noteq> SyncIouring" "op_NumLevels opts \<noteq> 1" "op_NumLevels opts < 2 ^ 63"
      "op_FlushThreshold opts \<le> 4 * 2 ^ 20" and now: "0 \<le> sint now"
  shows "\<exists>L d. lsm_Open os_ok kn now opts empty_disk = (Inr L, d) \<and> engine_ok L \<and> all_set L = {}
     \<and> l_memtable L = mt_New \<and> l_numLevels L = (if op_NumLevels opts \<le> 0 then 7 else nat (op_NumLevels opts))
     \<and> contents_of L = replicate (l_numLevels L) [] \<and> (\<not> op_NoWAL opts \<longrightarrow> logged L) \<and> l_nextID L = sint now
     \<and> (\<not> op_NoWAL opts \<longrightarrow> (\<exists>w. l_wal L = Some w \<and> wal_holds w [] \<and> wa_mode w = op_WALSyncMode opts
            \<and> wa_file w = walVersion # replicate (wal_initialMmapSize - 1) 0 \<and> wa_synced w = []))
     \<and> l_maxL0Files L = 8 \<and> l_baseLevelSize L = 2 ^ 20
     \<and> (0 < op_FlushThreshold opts \<longrightarrow> l_flushThreshold L = op_FlushThreshold opts)"
proof -
  define L0 where "L0 = lsm_init now opts empty_disk"
  define n where "n = (if op_NumLevels opts \<le> 0 then 7 else nat (op_NumLevels opts))"
  have L0: "l_numLevels L0 = n" "l_memtable L0 = mt_New" "l_levels L0 = replicate n []" "l_nextID L0 = sint now"
      "l_maxL0Files L0 = 8" "l_flushThreshold L0 \<le> 4 * 2 ^ 20" "files_of L0 = []" "d_manifest (l_disk L0) = None"
      "l_wal L0 = None" "d_tmp (l_disk L0) = None"
      "l_baseLevelSize L0 = 2 ^ 20" "0 < op_FlushThreshold opts \<longrightarrow> l_flushThreshold L0 = op_FlushThreshold opts"
    using opts(4) by (auto simp: L0_def lsm_init_def n_def empty_disk_def Let_def)
  have n: "2 \<le> n" "int n < 2 ^ 63" using opts(2,3) by (auto simp: n_def)
  obtain w fs where first: "log_part os_ok kn opts L0 = (Inr (), L0\<lparr>l_disk := (l_disk L0)\<lparr>d_files := fs\<rparr>, l_wal := w\<rparr>)"
      "\<forall>v. w = Some v \<longrightarrow> wal_up v \<and> (\<exists>data. wal_at v data)" "\<forall>p. has_suffix p sst_suffix \<longrightarrow> p \<notin> fst ` set fs"
      "\<not> op_NoWAL opts \<longrightarrow> (\<exists>v. w = Some v \<and> wal_holds v [] \<and> wa_mode v = op_WALSyncMode opts
          \<and> wa_file v = walVersion # replicate (wal_initialMmapSize - 1) 0 \<and> wa_synced v = [])"
    using log_part_new [OF opts(1) L0(7,9,2), of kn] by blast
  define L1 where "L1 = L0\<lparr>l_disk := (l_disk L0)\<lparr>d_files := fs\<rparr>, l_wal := w\<rparr>"
  have L1: "l_numLevels L1 = n" "files_of L1 = fs" "d_manifest (l_disk L1) = None" "l_levels L1 = replicate n []"
    using L0 by (simp_all add: L1_def)
  have "\<forall>p\<in>set (sort (map fst fs)). \<not> has_suffix p sst_suffix" using first(3) by auto
  from scan_dir_none [OF this] have load: "lsm_load os_ok L1 = (Inr (), L1)"
    using L1 by (simp add: lsm_load_def loadExistingSSTables_def readManifest_def)
  define L2 where "L2 = updateLevelStats L1"
  define L where "L = L2\<lparr>l_disk := (l_disk L2)\<lparr>d_manifest := Some (snapshot (l_levels L2)), d_tmp := None\<rparr>\<rparr>"
  have "lsm_start os_ok kn opts L0 = (Inr (), L)"
    using first(1) load
    by (simp add: lsm_start_def log_part_def [symmetric] andthen_def L1_def [symmetric] update_def L2_def [symmetric] manifest_ok L_def)
  then have "lsm_Open os_ok kn now opts empty_disk = (Inr L, disk_image L)"
    by (simp add: lsm_Open_def L0_def)
  moreover have L: "l_levels L = replicate n []" "l_numLevels L = n" "l_memtable L = mt_New" "l_nextID L = sint now"
      "l_maxL0Files L = 8" "l_flushThreshold L \<le> 4 * 2 ^ 20" "l_wal L = w" "sizes_of L = level_sizes (l_levels L)"
      "paths_of L = []" "saved L" "l_baseLevelSize L = 2 ^ 20" "l_flushThreshold L = l_flushThreshold L0"
    using L0 by (simp_all add: L_def L2_def L1_def updateLevelStats_def upd_stats_def paths_of_def saved_def)
  moreover have mem: "mem_entries L = []" by (rule mem_entries_New [OF L(3)])
  moreover have "lsm_inv L (contents_of L)"
    using n now by (simp add: lsm_inv_iff L(1-5,8,9) fresh_from_def)
  moreover have "engine_ok L"
    using calculation first(2) n by (simp add: engine_ok_def store_ok_def wal_ready_def)
  moreover have "all_set L = {}" by (simp add: all_set_def mem stored_set_def L(1))
  moreover have "\<not> op_NoWAL opts \<longrightarrow> logged L" using first(4) L(3,7) logged_empty [of L] by auto
  ultimately show ?thesis using first(4) L0(12) by (auto simp: n_def contents_of_def)
qed

end
