(* ===== verification/Recovery.thy ===== *)
theory Recovery
  imports EngineRun
begin

text \<open>
  Opening the directory a stopped engine leaves.  The tables come back from the
  manifest, the memtable from the log; what is in neither is lost.
\<close>

section \<open>The log of a stopped engine\<close>

text \<open>What the log replays to, also behind the zero bytes that pad its file.\<close>

definition wal_replays :: "wal \<Rightarrow> entry list \<Rightarrow> bool" where
  "wal_replays w es \<longleftrightarrow> wal_up w \<and>
     (\<exists>data. wal_at w data \<and> (\<forall>n. replay_loop (data @ replicate n 0) = Inr es))"

lemma wal_holds_replays: "wal_holds w bs \<Longrightarrow> wal_replays w (concat bs)"
  unfolding wal_replays_def wal_holds_def using replay_padded by blast

lemma wal_replays_Replay: "wal_replays w es \<Longrightarrow> wal_Replay w = Inr es"
  using wal_Replay_at unfolding wal_replays_def by (metis append_Nil2 replicate_0)

text \<open>
  The file opened again.  A log of one byte is made as large as a new one; any
  other file becomes the log's content as a whole, padding included.
\<close>

lemma wal_New_again:
  assumes w: "wal_replays w es" and img: "map_of fs path = Some (wa_file w)" and mode: "mode \<noteq> SyncIouring"
  shows "\<exists>w' fs'. wal_New os_ok k path mode fs = (Inr w', fs') \<and> wal_replays w' es \<and> wa_mode w' = mode
     \<and> map_of fs' = (map_of fs)(path \<mapsto> wa_file w')
     \<and> (2 \<le> length (wa_file w) \<longrightarrow> wa_file w' = wa_file w \<and> wal_at w' (tl (wa_file w)))"
proof -
  obtain data n where at: "wal_at w data" "\<forall>n. replay_loop (data @ replicate n 0) = Inr es"
      "wa_file w = walVersion # data @ replicate n 0"
    using w by (auto simp: wal_replays_def wal_at_def)
  show ?thesis
  proof (cases "data @ replicate n 0 = []")
    case True
    then have "data = []" "wa_file w = [walVersion]" using at(3) by simp_all
    then have rep: "\<forall>n. replay_loop ([] @ replicate n 0) = Inr es" "map_of fs path \<in> {None, Some [], Some [walVersion]}"
      using at(2) img by simp_all
    show ?thesis
      using wal_New_empty [OF rep(2) mode, of k] rep(1) \<open>wa_file w = [walVersion]\<close>
      unfolding wal_replays_def by fastforce
  next
    case False
    have "(data @ replicate n 0) @ replicate m 0 = data @ replicate (n + m) 0" for m by (simp add: replicate_add)
    then have "\<forall>m. replay_loop ((data @ replicate n 0) @ replicate m 0) = Inr es" using at(2) by simp
    with wal_New_existing [OF _ False mode, of fs path k] img at(3) show ?thesis
      unfolding wal_replays_def by fastforce
  qed
qed

section \<open>Reopening\<close>

definition recovery_opts :: "options \<Rightarrow> nat \<Rightarrow> bool" where
  "recovery_opts opts n \<longleftrightarrow> \<not> op_NoWAL opts \<and> op_WALSyncMode opts \<noteq> SyncIouring
     \<and> (if op_NumLevels opts \<le> 0 then 7 else nat (op_NumLevels opts)) = n \<and> op_FlushThreshold opts \<le> 4 * 2 ^ 20"

text \<open>
  A directory with a manifest, a log, and \<open>levels\<close> of tables: those the manifest
  lists whose files are there.
\<close>

definition dir_lists :: "disk \<Rightarrow> sstable list list \<Rightarrow> sstable list list \<Rightarrow> wal \<Rightarrow> entry list \<Rightarrow> bool" where
  "dir_lists d listed levels w es \<longleftrightarrow> d_manifest d = Some (snapshot listed)
     \<and> levels = map (filter (present (d_files d))) listed
     \<and> (\<forall>s\<in>set (concat listed). has_suffix (s_path s) sst_suffix)
     \<and> (\<forall>s\<in>set (concat levels). table_at (d_files d) s (cont s))
     \<and> distinct (map s_path (concat levels))
     \<and> map_of (d_files d) wal_name = Some (wa_file w) \<and> wal_replays w es"

definition dir_ok :: "disk \<Rightarrow> sstable list list \<Rightarrow> wal \<Rightarrow> entry list \<Rightarrow> bool" where
  "dir_ok d levels w es \<longleftrightarrow> d_manifest d = Some (snapshot levels)
     \<and> (\<forall>s\<in>set (concat levels). table_at (d_files d) s (cont s) \<and> has_suffix (s_path s) sst_suffix)
     \<and> distinct (map s_path (concat levels))
     \<and> map_of (d_files d) wal_name = Some (wa_file w) \<and> wal_replays w es"

lemma table_at_present: "table_at fs s es \<Longrightarrow> present fs s"
  by (auto simp: table_at_def present_def)

lemma dir_ok_lists: "dir_ok d levels w es \<Longrightarrow> dir_lists d levels levels w es"
  by (auto simp: dir_ok_def dir_lists_def intro!: map_idI [symmetric] filter_True dest!: table_at_present)

lemma suffix_wal: "has_suffix p sst_suffix \<Longrightarrow> p \<noteq> wal_name"
  by (auto simp: wal_name_def has_suffix_def sst_suffix_def)

lemma recoverWAL_ok:
  assumes "l_wal L = Some w" "wal_replays w es"
  shows "\<exists>w'. recoverWAL os_ok k L = (Inr (), L\<lparr>l_memtable := replay_into es (l_memtable L), l_wal := Some w'\<rparr>)
     \<and> wal_up w' \<and> (es \<noteq> [] \<longrightarrow> wal_holds w' []) \<and> (es = [] \<longrightarrow> w' = w) \<and> (\<exists>data. wal_at w' data)"
proof (cases "es = []")
  case True
  then show ?thesis
    using assms wal_replays_Replay [OF assms(2)]
    by (intro exI [of _ w]) (auto simp: recoverWAL_def wal_replays_def)
next
  case False
  obtain data where at: "wal_at w data" "wal_up w" using assms(2) by (auto simp: wal_replays_def)
  obtain w' where "wal_Reset os_ok k w = (w', None)" "wal_at w' []" "wal_up w'"
    using wal_Reset_at [OF at, of k] by blast
  with False assms(1) wal_replays_Replay [OF assms(2)] show ?thesis
    by (intro exI [of _ w']) (auto simp: recoverWAL_def on_wal_def wal_holds_def)
qed

text \<open>Neither the log nor the removal of orphans touches a table of the manifest.\<close>

lemma dir_tables:
  assumes dir: "dir_lists d listed levels w es" and log: "map_of fs1 = (map_of (d_files d))(wal_name \<mapsto> file)"
  shows "s \<in> set (concat listed) \<Longrightarrow> present fs1 s \<longleftrightarrow> present (d_files d) s"
    and "s \<in> set (concat levels) \<Longrightarrow> table_at fs1 s (cont s)"
    and "s \<in> set (concat levels) \<Longrightarrow> table_at (recoverOrphans os_ok (set (concat (snapshot listed))) fs1) s (cont s)"
proof -
  have same: "map_of fs1 (s_path s) = map_of (d_files d) (s_path s)" if "s \<in> set (concat listed)" for s
  proof -
    have "s_path s \<noteq> wal_name" using dir that suffix_wal unfolding dir_lists_def by blast
    then show ?thesis by (simp add: log)
  qed
  then show "s \<in> set (concat listed) \<Longrightarrow> present fs1 s \<longleftrightarrow> present (d_files d) s" by (simp add: present_def)
  have sub: "set (concat levels) \<subseteq> set (concat listed)" using dir by (auto simp: dir_lists_def)
  then show t: "s \<in> set (concat levels) \<Longrightarrow> table_at fs1 s (cont s)"
    using dir same table_at_other unfolding dir_lists_def by (metis subsetD)
  show "table_at (recoverOrphans os_ok (set (concat (snapshot listed))) fs1) s (cont s)"
    if s: "s \<in> set (concat levels)"
  proof (rule table_at_other [OF t [OF s]])
    have "s \<in> set (concat listed)" using s sub by blast
    then have "s_path s \<in> set (concat (snapshot listed))" by (auto simp: snapshot_def)
    then show "map_of (recoverOrphans os_ok (set (concat (snapshot listed))) fs1) (s_path s) = map_of fs1 (s_path s)"
      unfolding map_of_recoverOrphans by simp
  qed
qed

lemma lsm_Open_listed:
  assumes dir: "dir_lists d listed levels w es" and opts: "recovery_opts opts (length listed)"
    and n: "0 < length levels" "int (length levels) < 2 ^ 63"
    and now: "0 \<le> sint now" "fresh_from (sint now) (set (map s_path (concat levels)))"
  shows "\<exists>L d'. lsm_Open os_ok k now opts d = (Inr L, d') \<and> d' = disk_image L \<and> l_levels L = levels
     \<and> l_memtable L = replay_into es mt_New \<and> lsm_inv L (contents_of L) \<and> saved L \<and> wal_ready L
     \<and> l_numLevels L = length levels \<and> l_maxL0Files L = 8 \<and> l_flushThreshold L \<le> 4 * 2 ^ 20
     \<and> (op_FlushThreshold opts \<le> 0 \<longrightarrow> l_flushThreshold L = 4 * 2 ^ 20) \<and> l_nextID L = sint now
     \<and> (\<exists>w'. l_wal L = Some w' \<and> (es \<noteq> [] \<longrightarrow> wal_holds w' [])
          \<and> (es = [] \<longrightarrow> 2 \<le> length (wa_file w) \<longrightarrow> wal_at w' (tl (wa_file w))))"
proof -
  define L0 where "L0 = lsm_init now opts d"
  define n where "n = length listed"
  have n_levels: "length levels = n" using dir by (simp add: dir_lists_def n_def)
  have L0: "l_numLevels L0 = n" "l_memtable L0 = mt_New" "l_nextID L0 = sint now" "l_disk L0 = d"
      "l_maxL0Files L0 = 8" "l_flushThreshold L0 \<le> 4 * 2 ^ 20" "l_wal L0 = None"
      "op_FlushThreshold opts \<le> 0 \<longrightarrow> l_flushThreshold L0 = 4 * 2 ^ 20"
    using opts by (auto simp: L0_def lsm_init_def n_def recovery_opts_def Let_def)
  have D: "d_manifest d = Some (snapshot listed)"
      "distinct (map s_path (concat levels))" "map_of (d_files d) wal_name = Some (wa_file w)" "wal_replays w es"
    using dir by (auto simp: dir_lists_def)
  have mode: "op_WALSyncMode opts \<noteq> SyncIouring" "\<not> op_NoWAL opts" using opts by (simp_all add: recovery_opts_def)
  obtain w1 fs1 where w1: "wal_New os_ok k wal_name (op_WALSyncMode opts) (d_files d) = (Inr w1, fs1)" "wal_replays w1 es"
      "map_of fs1 = (map_of (d_files d))(wal_name \<mapsto> wa_file w1)"
      "2 \<le> length (wa_file w) \<longrightarrow> wal_at w1 (tl (wa_file w))"
    using wal_New_again [OF D(4,3) mode(1), of k] by blast
  define L1 where "L1 = L0\<lparr>l_disk := d\<lparr>d_files := fs1\<rparr>, l_wal := Some w1\<rparr>"
  have "l_wal L1 = Some w1" by (simp add: L1_def)
  from recoverWAL_ok [OF this w1(2), of k] obtain w2 where
    w2: "recoverWAL os_ok k L1 = (Inr (), L1\<lparr>l_memtable := replay_into es (l_memtable L1), l_wal := Some w2\<rparr>)"
      "wal_up w2" "es \<noteq> [] \<longrightarrow> wal_holds w2 []" "es = [] \<longrightarrow> w2 = w1" "\<exists>data. wal_at w2 data" by blast
  define L2 where "L2 = L1\<lparr>l_memtable := replay_into es (l_memtable L1), l_wal := Some w2\<rparr>"
  define fs2 where "fs2 = recoverOrphans os_ok (set (concat (snapshot listed))) fs1"
  note tabs = dir_tables [OF dir w1(3), folded fs2_def]
  have kept: "levels = map (filter (present fs1)) listed"
    using dir tabs(1) by (auto simp: dir_lists_def intro!: filter_cong)
  have "\<forall>s\<in>set (concat listed). present fs1 s \<longrightarrow> (\<exists>es. table_at fs1 s es)"
    using tabs(2) by (auto simp: kept)
  then have load: "lsm_load os_ok L2 = (Inr (), L2\<lparr>l_levels := levels, l_disk := (l_disk L2)\<lparr>d_files := fs2\<rparr>\<rparr>)"
    using load_listed [of "l_disk L2" listed n] D(1) L0(1)
    by (simp add: lsm_load_def L2_def L1_def n_def fs2_def kept [symmetric])
  define L3 where "L3 = updateLevelStats (L2\<lparr>l_levels := levels, l_disk := (l_disk L2)\<lparr>d_files := fs2\<rparr>\<rparr>)"
  define L where "L = L3\<lparr>l_disk := (l_disk L3)\<lparr>d_manifest := Some (snapshot (l_levels L3)), d_tmp := None\<rparr>\<rparr>"
  have run: "lsm_start os_ok k opts L0 = (Inr (), L)"
    using w1(1) mode L0(4)
    by (simp add: lsm_start_def andthen_def on_files_def on_disk_def update_def L1_def [symmetric] w2(1)
        L2_def [symmetric] load L3_def [symmetric] manifest_ok L_def)
  then have opened: "lsm_Open os_ok k now opts d = (Inr L, disk_image L)"
    by (simp add: lsm_Open_def L0_def)
  have L: "l_levels L = levels" "l_memtable L = replay_into es mt_New" "l_numLevels L = n" "l_maxL0Files L = 8"
      "l_flushThreshold L = l_flushThreshold L0" "l_nextID L = sint now" "l_wal L = Some w2" "saved L" "files_of L = fs2"
      "sizes_of L = level_sizes (l_levels L)" "paths_of L = map s_path (concat levels)"
    using L0 by (simp_all add: L_def L3_def L2_def L1_def updateLevelStats_def upd_stats_def saved_def paths_of_def)
  have "lsm_inv L (contents_of L)"
    using n now D(2) tabs(3) replay_into_wf [of mt_New es]
    by (simp add: lsm_inv_iff L(1-3,6,9-11) n_levels)
  moreover have "wal_ready L" using w2(2,5) by (simp add: wal_ready_def L(7))
  ultimately show ?thesis
    using opened L L0(6,8) w2(3,4) w1(4) n_levels by auto
qed

lemma lsm_Open_dir:
  assumes "dir_ok d levels w es" "recovery_opts opts (length levels)"
    and "0 < length levels" "int (length levels) < 2 ^ 63"
    and "0 \<le> sint now" "fresh_from (sint now) (set (map s_path (concat levels)))"
  shows "\<exists>L d'. lsm_Open os_ok k now opts d = (Inr L, d') \<and> d' = disk_image L \<and> l_levels L = levels
     \<and> l_memtable L = replay_into es mt_New \<and> lsm_inv L (contents_of L) \<and> saved L \<and> wal_ready L
     \<and> l_numLevels L = length levels \<and> l_maxL0Files L = 8 \<and> l_flushThreshold L \<le> 4 * 2 ^ 20
     \<and> (op_FlushThreshold opts \<le> 0 \<longrightarrow> l_flushThreshold L = 4 * 2 ^ 20) \<and> l_nextID L = sint now
     \<and> (\<exists>w'. l_wal L = Some w' \<and> (es \<noteq> [] \<longrightarrow> wal_holds w' [])
          \<and> (es = [] \<longrightarrow> 2 \<le> length (wa_file w) \<longrightarrow> wal_at w' (tl (wa_file w))))"
  by (rule lsm_Open_listed [OF dir_ok_lists [OF assms(1)] assms(2-)])

section \<open>Crashes\<close>

lemma image_dir:
  assumes inv: "lsm_inv L (contents_of L)" and man: "d_manifest (l_disk L) = Some (snapshot levels)"
    and sub: "set (concat levels) \<subseteq> set (concat (l_levels L))" "distinct (map s_path (concat levels))"
    and names: "\<forall>p\<in>set (paths_of L). has_suffix p sst_suffix"
    and w: "l_wal L = Some w" "wal_replays w es"
  shows "dir_ok (disk_image L) levels w es"
proof -
  have files: "map_of (d_files (disk_image L)) = (map_of (files_of L))(wal_name \<mapsto> wa_file w)"
    using w(1) by (simp add: disk_image_def update_conv)
  have "table_at (d_files (disk_image L)) s (cont s) \<and> has_suffix (s_path s) sst_suffix"
    if s: "s \<in> set (concat levels)" for s
  proof -
    have "s \<in> set (concat (l_levels L))" using s sub(1) by blast
    then have at: "table_at (files_of L) s (cont s)" "has_suffix (s_path s) sst_suffix"
      using inv names by (auto simp: lsm_inv_iff paths_of_def)
    moreover have "map_of (d_files (disk_image L)) (s_path s) = map_of (files_of L) (s_path s)"
      using suffix_wal [OF at(2)] by (simp add: files)
    ultimately show ?thesis using table_at_other by blast
  qed
  moreover have "d_manifest (disk_image L) = Some (snapshot levels)"
    using man w(1) by (simp add: disk_image_def)
  ultimately show ?thesis using files w sub(2) by (simp add: dir_ok_def)
qed

lemma engine_dir:
  assumes ok: "engine_ok L" and w: "l_wal L = Some w" "wal_replays w es"
  shows "dir_ok (disk_image L) (l_levels L) w es"
proof (rule image_dir [OF _ _ subset_refl _ _ w])
  show "lsm_inv L (contents_of L)" using engine_inv [OF ok] by simp
  then show "distinct (map s_path (concat (l_levels L)))" by (simp add: lsm_inv_def paths_of_def)
qed (use ok in \<open>simp_all add: engine_ok_def store_ok_def saved_def\<close>)

lemma engine_levels:
  assumes "engine_ok L"
  shows "length (l_levels L) = l_numLevels L" "0 < length (l_levels L)" "int (length (l_levels L)) < 2 ^ 63"
    "fresh_from (l_nextID L) (set (map s_path (concat (l_levels L))))" "0 \<le> l_nextID L"
    "2 \<le> l_numLevels L" "\<forall>p\<in>set (map s_path (concat (l_levels L))). has_suffix p sst_suffix"
    "\<forall>s\<in>set (concat (l_levels L)). small_table s"
  using assms by (auto simp: engine_ok_def store_ok_def lsm_inv_def paths_of_def)

lemma engine_ok_opened:
  assumes "engine_ok L" "l_levels L' = l_levels L" "l_numLevels L' = l_numLevels L" "l_maxL0Files L' = 8"
    "lsm_inv L' (contents_of L')" "saved L'" "wal_ready L'" "l_flushThreshold L' \<le> 4 * 2 ^ 20"
    "\<forall>e\<in>set (mem_entries L'). entry_small e"
  shows "engine_ok L'"
  using assms engine_levels [OF assms(1)] by (simp add: engine_ok_def store_ok_def paths_of_def)

text \<open>Opening what a stopped engine leaves: its tables, and what its log replays to.\<close>

lemma reopen:
  assumes ok: "engine_ok L" and w: "l_wal L = Some w" "wal_replays w es" and opts: "recovery_opts opts (l_numLevels L)"
    and now: "l_nextID L \<le> sint now"
  shows "\<exists>L'. lsm_Open os_ok k now opts (disk_image L) = (Inr L', disk_image L') \<and> l_levels L' = l_levels L
     \<and> l_memtable L' = replay_into es mt_New \<and> lsm_inv L' (contents_of L') \<and> saved L' \<and> wal_ready L'
     \<and> l_numLevels L' = l_numLevels L \<and> l_maxL0Files L' = 8 \<and> l_flushThreshold L' \<le> 4 * 2 ^ 20
     \<and> (op_FlushThreshold opts \<le> 0 \<longrightarrow> l_flushThreshold L' = 4 * 2 ^ 20) \<and> l_nextID L' = sint now
     \<and> (\<exists>w'. l_wal L' = Some w' \<and> (es \<noteq> [] \<longrightarrow> wal_holds w' [])
          \<and> (es = [] \<longrightarrow> 2 \<le> length (wa_file w) \<longrightarrow> wal_at w' (tl (wa_file w))))"
proof -
  note lv = engine_levels [OF ok]
  have opts': "recovery_opts opts (length (l_levels L))" using opts lv(1) by simp
  have "fresh_from (sint now) (set (map s_path (concat (l_levels L))))" using fresh_less [OF lv(4) now] .
  moreover have "0 \<le> sint now" using lv(5) now by simp
  ultimately show ?thesis
    using lsm_Open_dir [OF engine_dir [OF ok w] opts' lv(2,3), of now k] lv(1) by auto
qed

text \<open>One crash loses nothing that was logged.\<close>

lemma reopen_logged:
  assumes ok: "engine_ok L" and log: "logged L" and opts: "recovery_opts opts (l_numLevels L)"
    and now: "l_nextID L \<le> sint now"
  shows "\<exists>L'. lsm_Open os_ok k now opts (disk_image L) = (Inr L', disk_image L') \<and> engine_ok L'
     \<and> l_levels L' = l_levels L \<and> (\<forall>x. mt_Get (l_memtable L') x = mt_Get (l_memtable L) x)
     \<and> (\<forall>x. look L' (contents_of L') x = look L (contents_of L) x) \<and> l_nextID L' = sint now
     \<and> l_numLevels L' = l_numLevels L \<and> (mem_entries L \<noteq> [] \<longrightarrow> (\<exists>w'. l_wal L' = Some w' \<and> wal_holds w' []))"
proof -
  obtain w bs where w: "l_wal L = Some w" "wal_holds w bs"
      "\<forall>x. mt_Get (l_memtable L) x = mt_Get (replay_into (concat bs) mt_New) x"
    using log by (auto simp: logged_def)
  obtain L' where L': "lsm_Open os_ok k now opts (disk_image L) = (Inr L', disk_image L')" "l_levels L' = l_levels L"
      "l_memtable L' = replay_into (concat bs) mt_New" "lsm_inv L' (contents_of L')" "saved L'" "wal_ready L'"
      "l_numLevels L' = l_numLevels L" "l_maxL0Files L' = 8" "l_flushThreshold L' \<le> 4 * 2 ^ 20" "l_nextID L' = sint now"
      "\<exists>w'. l_wal L' = Some w' \<and> (concat bs \<noteq> [] \<longrightarrow> wal_holds w' [])"
    using reopen [OF ok w(1) wal_holds_replays [OF w(2)] opts now, of k] by blast
  have get: "mt_Get (l_memtable L') x = mt_Get (l_memtable L) x" for x using w(3) L'(3) by simp
  have wf: "mt_wf (l_memtable L)" "mt_wf (l_memtable L')"
    using engine_inv [OF ok] L'(4) by (simp_all add: lsm_inv_def)
  have mem: "e \<in> set (mem_entries L') \<longleftrightarrow> e \<in> set (mem_entries L)" for e
    using mem_entries_iff [OF wf(1), of e] mem_entries_iff [OF wf(2), of e] get by simp
  have "\<forall>e\<in>set (mem_entries L'). entry_small e" using ok mem by (auto simp: engine_ok_def)
  then have "engine_ok L'" using engine_ok_opened [OF ok L'(2,7,8,4,5,6,9)] by blast
  moreover have "look L' (contents_of L') x = look L (contents_of L) x" for x
    using get L'(2) by (simp add: look_def contents_of_def)
  moreover have "concat bs \<noteq> []" if "mem_entries L \<noteq> []"
  proof
    assume "concat bs = []"
    with L'(3) have "l_memtable L' = replay_into [] mt_New" by (simp only:)
    then have "l_memtable L' = mt_New" by (simp add: replay_into_def)
    then have "mem_entries L' = []" by (rule mem_entries_New)
    moreover have "set (mem_entries L) = set (mem_entries L')" using mem by blast
    ultimately show False using that by simp
  qed
  ultimately show ?thesis using L' get by blast
qed

text \<open>A second crash: the log was reset when the first one was recovered from.\<close>

lemma reopen_twice:
  assumes ok: "engine_ok L" and log: "logged L" and mem: "mem_entries L \<noteq> []"
    and opts: "recovery_opts opts (l_numLevels L)" and now: "l_nextID L \<le> sint now" "sint now \<le> sint now'"
  shows "\<exists>L1 L2. lsm_Open os_ok k now opts (disk_image L) = (Inr L1, disk_image L1)
     \<and> lsm_Open os_ok k now' opts (disk_image L1) = (Inr L2, disk_image L2)
     \<and> l_memtable L2 = mt_New \<and> l_levels L2 = l_levels L \<and> lsm_inv L2 (contents_of L2)"
proof -
  obtain L1 w1 where L1: "lsm_Open os_ok k now opts (disk_image L) = (Inr L1, disk_image L1)" "engine_ok L1"
      "l_levels L1 = l_levels L" "l_nextID L1 = sint now" "l_numLevels L1 = l_numLevels L"
      "l_wal L1 = Some w1" "wal_holds w1 []"
    using reopen_logged [OF ok log opts now(1), of k] mem by blast
  have "wal_replays w1 []" using wal_holds_replays [OF L1(7)] by simp
  from reopen [OF L1(2,6) this, of opts now' k] obtain L2 where
    "lsm_Open os_ok k now' opts (disk_image L1) = (Inr L2, disk_image L2)" "l_levels L2 = l_levels L1"
    "l_memtable L2 = replay_into [] mt_New" "lsm_inv L2 (contents_of L2)"
    using opts now(2) L1(4,5) by auto
  with L1(1,3) show ?thesis by (auto simp: replay_into_def)
qed

text \<open>
  A crash inside a flush: the log has been reset and the new table file
  written, but the manifest does not list it yet.
\<close>

lemma flush_crash:
  assumes ok: "engine_ok L" and size: "at_most (4 * 2 ^ 20 + 2 ^ 17) L" and w: "l_wal L = Some w"
    and opts: "recovery_opts opts (l_numLevels L)" and now: "l_nextID L \<le> sint now"
  shows "\<exists>L1 L2. flush_head os_ok k L = (Inr (), L1) \<and> stored_set L1 = all_set L
     \<and> lsm_Open os_ok k now opts (disk_image L1) = (Inr L2, disk_image L2)
     \<and> l_levels L2 = l_levels L \<and> l_memtable L2 = mt_New \<and> lsm_inv L2 (contents_of L2)"
proof -
  have inv: "lsm_inv L (contents_of L)" "mt_wf (l_memtable L)" using engine_inv [OF ok] by simp_all
  note lv = engine_levels [OF ok]
  have "mem_fits L"
    by (rule mem_fits_small [OF inv(2)]) (use ok size in \<open>auto simp: engine_ok_def at_most_def\<close>)
  moreover have "wal_ready L" using ok by (simp add: engine_ok_def)
  ultimately obtain L1 where L1: "flush_head os_ok k L = (Inr (), L1)"
      "in_level0 L (contents_of L) L1 ((contents_of L)[0 := contents_of L ! 0 @ [mem_entries L]])"
      "d_manifest (l_disk L1) = d_manifest (l_disk L)"
    using flush_head_ok [OF inv(1)] by blast
  have inv1: "lsm_inv L1 (contents_of L1)" using L1(2) lsm_inv_contents unfolding in_level0_def by metis
  obtain s where s: "l_levels L1 = (l_levels L)[0 := l_levels L ! 0 @ [s]]" "s_path s = flush_name (l_nextID L)"
      "cont s = mem_entries L"
    using L1(2) table_at_cont unfolding in_level0_def by blast
  obtain w1 where w1: "l_wal L1 = Some w1" "wal_holds w1 []" using L1(2) w unfolding in_level0_def by blast
  obtain ss sss where levels: "l_levels L = ss # sss" using lv(2) by (cases "l_levels L") auto
  have tables: "set (concat (l_levels L1)) = insert s (set (concat (l_levels L)))" by (simp add: s(1) levels)
  have dir: "dir_ok (disk_image L1) (l_levels L) w1 []"
  proof (rule image_dir [OF inv1 _ _ _ _ w1(1)])
    show "d_manifest (l_disk L1) = Some (snapshot (l_levels L))" using L1(3) ok by (simp add: engine_ok_def saved_def)
    show "set (concat (l_levels L)) \<subseteq> set (concat (l_levels L1))" unfolding tables by blast
    show "distinct (map s_path (concat (l_levels L)))" using inv(1) by (simp add: lsm_inv_def paths_of_def)
    show "\<forall>p\<in>set (paths_of L1). has_suffix p sst_suffix"
      using lv(7) tables s(2) by (auto simp: paths_of_def)
    show "wal_replays w1 []" using wal_holds_replays [OF w1(2)] by simp
  qed
  have "recovery_opts opts (length (l_levels L))" using opts lv(1) by simp
  moreover have "fresh_from (sint now) (set (map s_path (concat (l_levels L))))" using fresh_less [OF lv(4) now] .
  moreover have "0 \<le> sint now" using lv(5) now by simp
  ultimately obtain L2 where "lsm_Open os_ok k now opts (disk_image L1) = (Inr L2, disk_image L2)"
      "l_levels L2 = l_levels L" "l_memtable L2 = replay_into [] mt_New" "lsm_inv L2 (contents_of L2)"
    using lsm_Open_dir [OF dir _ lv(2,3), of opts now k] by blast
  moreover have "stored_set L1 = all_set L"
    unfolding stored_set_def tables by (simp add: s(3) all_set_def stored_set_def)
  ultimately show ?thesis using L1(1) by (auto simp: replay_into_def)
qed

text \<open>
  An empty log that is found again with the zero bytes of its mapping: what is
  appended behind them is synced, acknowledged and never replayed.
\<close>

lemma padded_log_loss:
  assumes ok: "engine_ok L" and w: "l_wal L = Some w" "wal_holds w []"
      "wa_file w = walVersion # replicate (wal_initialMmapSize - 1) 0"
    and opts: "recovery_opts opts (l_numLevels L)" "op_FlushThreshold opts \<le> 0"
    and kvs: "kvs \<noteq> []" "small_batch kvs" and now: "l_nextID L \<le> sint now" "sint now \<le> sint now'"
  shows "\<exists>L1 L2 L3. lsm_Open os_ok k now opts (disk_image L) = (Inr L1, disk_image L1)
     \<and> PutBatch os_ok k t kvs L1 = (Inr (), L2)
     \<and> lsm_Open os_ok k now' opts (disk_image L2) = (Inr L3, disk_image L3)
     \<and> l_memtable L3 = mt_New \<and> l_levels L3 = l_levels L \<and> lsm_inv L3 (contents_of L3)"
proof -
  let ?es = "put_entries t kvs" and ?pad = "replicate (wal_initialMmapSize - 1) (0 :: byte)"
  note lv = engine_levels [OF ok]
  have "wal_replays w []" using wal_holds_replays [OF w(2)] by simp
  moreover have "2 \<le> length (wa_file w)" by (simp add: w(3) wal_initialMmapSize_def)
  ultimately obtain L1 w1 where L1: "lsm_Open os_ok k now opts (disk_image L) = (Inr L1, disk_image L1)"
      "l_levels L1 = l_levels L" "l_memtable L1 = mt_New" "lsm_inv L1 (contents_of L1)" "saved L1" "wal_ready L1"
      "l_numLevels L1 = l_numLevels L" "l_flushThreshold L1 = 4 * 2 ^ 20" "l_nextID L1 = sint now"
      "l_wal L1 = Some w1" "wal_at w1 (tl (wa_file w))"
    using reopen [OF ok w(1) _ opts(1) now(1), of "[]" k] opts(2) by (auto simp: replay_into_def)
  have at1: "wal_at w1 ?pad" using L1(11) by (simp add: w(3))
  have "mt_Size (l_memtable (puts t kvs L1)) \<le> mt_Size mt_New + put_estimate kvs"
    using replay_into_size [OF mt_wf_New put_entries_plain, of t kvs] L1(3) by (simp add: puts_def put_entries_cost)
  then have "mt_Size (l_memtable (puts t kvs L1)) < l_flushThreshold L1"
    using kvs(2) L1(8) by (simp add: small_batch_def mt_Size_def mt_New_def)
  from PutBatch_no_flush [OF L1(4,6) kvs(1) this, of k] at1 L1(10) obtain L2 w2 where
    L2: "PutBatch os_ok k t kvs L1 = (Inr (), L2)" "lsm_inv L2 (contents_of L1)" "l_levels L2 = l_levels L1"
      "l_disk L2 = l_disk L1" "l_nextID L2 = l_nextID L1" "l_numLevels L2 = l_numLevels L1"
      "l_wal L2 = Some w2" "wal_at w2 (?pad @ serializeEntries ?es)" "wal_up w2" by blast
  have "?es \<noteq> []" using kvs(1) by (metis length_0_conv length_put_entries)
  have "replay_loop ((?pad @ serializeEntries ?es) @ replicate n 0) = Inr []" for n
    using padding_mod_5 replay_misaligned [OF small_batch_fits [OF kvs(2)] \<open>?es \<noteq> []\<close>] by (metis append.assoc)
  then have rep: "wal_replays w2 []" using L2(8,9) unfolding wal_replays_def by blast
  have c: "contents_of L2 = contents_of L1" using L2(3) by (simp add: contents_of_def)
  have dir: "dir_ok (disk_image L2) (l_levels L) w2 []"
  proof (rule image_dir [OF _ _ _ _ _ L2(7) rep])
    show "lsm_inv L2 (contents_of L2)" using L2(2) c by simp
    show "d_manifest (l_disk L2) = Some (snapshot (l_levels L))" using L1(2,5) L2(4) by (simp add: saved_def)
    show "distinct (map s_path (concat (l_levels L)))" using L1(2,4) by (simp add: lsm_inv_def paths_of_def)
    show "\<forall>p\<in>set (paths_of L2). has_suffix p sst_suffix" using lv(7) L1(2) L2(3) by (simp add: paths_of_def)
  qed (simp add: L1(2) L2(3))
  have "recovery_opts opts (length (l_levels L))" using opts(1) lv(1) by simp
  moreover have "fresh_from (sint now') (set (map s_path (concat (l_levels L))))"
    using fresh_less [OF lv(4)] now by simp
  moreover have "0 \<le> sint now'" using lv(5) now by simp
  ultimately obtain L3 where "lsm_Open os_ok k now' opts (disk_image L2) = (Inr L3, disk_image L3)"
      "l_levels L3 = l_levels L" "l_memtable L3 = replay_into [] mt_New" "lsm_inv L3 (contents_of L3)"
    using lsm_Open_dir [OF dir _ lv(2,3), of opts now' k] by blast
  then show ?thesis using L1(1) L2(1) by (auto simp: replay_into_def)
qed

end
