(* ===== verification/Reads.thy ===== *)
theory Reads
  imports Recovery
begin

text \<open>
  What a read finds after a flush or a compaction.  Merging two whole levels
  keeps the answer for a key whose versions lie newest first in reading order;
  a flush, the merge of level 0 and the bottom rule for tombstones can change
  the answer, and each of them is shown to do so.
\<close>

section \<open>Versions in reading order\<close>

definition versions_of :: "entry list \<Rightarrow> gostr \<Rightarrow> entry list" where
  "versions_of es k = filter (\<lambda>e. e_key e = k) es"

definition newest_first :: "entry list \<Rightarrow> gostr \<Rightarrow> bool" where
  "newest_first es k \<longleftrightarrow> sorted_wrt (\<lambda>x y. sint (e_ts y) < sint (e_ts x)) (versions_of es k)"

lemma versions_of_simps [simp]:
  "versions_of [] k = []" "versions_of (xs @ ys) k = versions_of xs k @ versions_of ys k"
  by (simp_all add: versions_of_def)

lemma newest_versions: "newest es k = (case versions_of es k of [] \<Rightarrow> None | e # _ \<Rightarrow> Some e)"
  by (induction es) (auto simp: newest_def versions_of_def)

lemma strict_keys_versions:
  "sorted_strict (map e_key es) \<Longrightarrow> versions_of es k = (case newest es k of None \<Rightarrow> [] | Some e \<Rightarrow> [e])"
proof (induction es)
  case (Cons e es)
  show ?case
  proof (cases "e_key e = k")
    case True
    then have "versions_of es k = []" using Cons.prems by (auto simp: versions_of_def filter_empty_conv)
    with True show ?thesis by (simp add: newest_def versions_of_def)
  next
    case False
    with Cons show ?thesis by (simp add: newest_def versions_of_def)
  qed
qed (simp add: newest_def)

text \<open>Of versions in order the merge keeps the first, unless it is a tombstone in the bottom level.\<close>

lemma merge_set: "merge_of ess es \<Longrightarrow> set es = set (concat ess)"
  by (metis merge_of_def set_mset_mset)

lemma merge_newest:
  assumes m: "merge_of ess es" and ord: "newest_first (concat ess) k"
  shows "newest es k = newest (concat ess) k"
proof (cases "versions_of (concat ess) k")
  case Nil
  then have "k \<notin> e_key ` set es" unfolding merge_set [OF m] by (auto simp: versions_of_def filter_empty_conv)
  then have "newest es k = None" unfolding newest_None .
  with Nil show ?thesis by (simp add: newest_versions [of "concat ess"])
next
  case (Cons e vs)
  then have "e \<in> set (versions_of (concat ess) k)" by simp
  then have e: "e \<in> set es" "e_key e = k" unfolding merge_set [OF m] by (auto simp: versions_of_def)
  then have "k \<in> e_key ` set es" by blast
  then obtain x where x: "newest es k = Some x" using newest_None [of es k] by (cases "newest es k") simp_all
  then have "x \<in> set es" "e_key x = k" using newest_SomeD by blast+
  then have "x \<in> set (versions_of (concat ess) k)" unfolding merge_set [OF m] by (simp add: versions_of_def)
  then have "x = e \<or> sint (e_ts x) < sint (e_ts e)" using ord Cons by (auto simp: newest_first_def)
  moreover have "sint (e_ts e) \<le> sint (e_ts x)" using newest_ts [OF _ x e] m by (simp add: merge_of_def)
  ultimately show ?thesis using x Cons by (simp add: newest_versions [of "concat ess"])
qed

lemma kept_versions:
  assumes m: "merge_of ess es" and k: "k \<noteq> []" and ord: "newest_first (concat ess) k"
  shows "versions_of (kept level [] es) k =
     (case newest (concat ess) k of None \<Rightarrow> [] | Some e \<Rightarrow> if e_tomb e \<and> 6 \<le> level then [] else [e])"
proof -
  have "sorted (map mkey es)" using m by (simp add: merge_of_def)
  note keys = keys_sorted [OF this]
  have strict: "sorted_strict (map e_key (kept level [] es))"
    using kept_sorted [OF keys, of "[]" level] by simp
  note iff = kept_iff [OF keys, of "[]"]
  note same = merge_newest [OF m ord]
  show ?thesis
  proof (cases "newest (concat ess) k")
    case None
    then have "k \<notin> e_key ` set es" using same newest_None by metis
    then have "\<forall>e\<in>set (kept level [] es). e_key e \<noteq> k" using kept_subset [of level "[]" es] by blast
    with None show ?thesis by (simp add: versions_of_def filter_empty_conv)
  next
    case (Some e)
    then have ek: "newest es k = Some e" "e_key e = k" using same newest_SomeD by auto
    show ?thesis
    proof (cases "e_tomb e \<and> 6 \<le> level")
      case True
      have "e_key x \<noteq> k" if "x \<in> set (kept level [] es)" for x
      proof
        assume xk: "e_key x = k"
        have "newest es (e_key x) = Some x" "\<not> (e_tomb x \<and> 6 \<le> level)" using iff [of x level] that by auto
        with xk ek True show False by simp
      qed
      with True Some show ?thesis by (simp add: versions_of_def filter_empty_conv)
    next
      case False
      then have "e \<in> set (kept level [] es)" using iff [of e level] ek k by simp
      then have "newest (kept level [] es) k = Some e" using sorted_keys_newest [OF strict] ek by blast
      with strict_keys_versions [OF strict, of k] Some False show ?thesis by simp
    qed
  qed
qed

section \<open>Merging a level into the next\<close>

lemma split_two:
  assumes "i + 1 < length xs"
  shows "xs = take i xs @ xs ! i # xs ! (i + 1) # drop (i + 2) xs"
    and "xs[i := a, i + 1 := b] = take i xs @ a # b # drop (i + 2) xs"
proof -
  show eq: "xs = take i xs @ xs ! i # xs ! (i + 1) # drop (i + 2) xs"
    using assms id_take_nth_drop [of i xs] id_take_nth_drop [of 0 "drop (Suc i) xs"] by (simp add: Cons_nth_drop_Suc)
  show "xs[i := a, i + 1 := b] = take i xs @ a # b # drop (i + 2) xs"
    using assms by (subst (1) eq) (simp add: list_update_append)
qed

lemma visible_kept:
  assumes "newest ks k = (case newest ms k of None \<Rightarrow> None | Some e \<Rightarrow> if e_tomb e \<and> b then None else Some e)"
    and "b \<Longrightarrow> back = []"
  shows "visible (newest (front @ ks @ back) k) = visible (newest (front @ ms @ back) k)"
  using assms
  by (cases "newest front k"; cases "newest ms k")
    (auto simp: newest_append visible_def answer_def newest_def [of "[]"] split: if_splits)

lemma level_merge_look:
  assumes inv: "lsm_inv L esss" and i: "i + 1 < l_numLevels L" and n: "l_numLevels L \<le> 7"
    and rep: "replaced L i (i + 1) (l_levels L ! i) [] (l_levels L ! (i + 1)) [] es L'"
    and k: "k \<noteq> []" and ord: "newest_first (stored_entries (contents_of L)) k"
  shows "newest_first (stored_entries (contents_of L')) k"
    and "visible (newest (stored_entries (contents_of L')) k) = visible (newest (stored_entries (contents_of L)) k)"
proof -
  define A where "A = stored_entries (map (map cont) (take i (l_levels L)))"
  define B where "B = stored_entries (map (map cont) (drop (i + 2) (l_levels L)))"
  define M where "M = concat (map cont (l_levels L ! i @ l_levels L ! (i + 1)))"
  have len: "length (l_levels L) = l_numLevels L" using inv by (simp add: lsm_inv_def)
  have i': "i + 1 < length (l_levels L)" using i len by simp
  obtain new where new: "l_levels L' = (l_levels L)[i := [], i + 1 := new]"
      "map cont new = split_chunks [] (kept (int (i + 1)) [] es)"
      and m: "merge_of (map cont (l_levels L ! i @ l_levels L ! (i + 1))) es"
    using rep by (auto simp: replaced_def)
  define K where "K = kept (int (i + 1)) [] es"
  have kept: "concat (map cont new) = K" using new(2) concat_split [of "[]"] by (simp add: K_def)
  have old: "stored_entries (contents_of L) = A @ M @ B"
    by (subst contents_of_def, subst split_two(1) [OF i']) (simp add: stored_entries_def A_def M_def B_def)
  have after: "stored_entries (contents_of L') = A @ K @ B"
    unfolding contents_of_def new(1) split_two(2) [OF i']
    using kept by (simp add: stored_entries_def A_def B_def)
  have "newest_first M k" using ord by (simp add: old newest_first_def sorted_wrt_append)
  from kept_versions [OF m k this [unfolded M_def], of "int (i + 1)"]
  have K: "versions_of K k = (case newest M k of None \<Rightarrow> [] | Some e \<Rightarrow> if e_tomb e \<and> 5 \<le> i then [] else [e])"
    by (simp add: M_def K_def split: option.splits)
  show "newest_first (stored_entries (contents_of L')) k"
    using ord K
    by (cases "versions_of M k") (auto simp: old after newest_first_def sorted_wrt_append newest_versions [of M])
  have "newest K k = (case newest M k of None \<Rightarrow> None | Some e \<Rightarrow> if e_tomb e \<and> 5 \<le> i then None else Some e)"
    using K by (simp add: newest_versions [of K] split: option.splits)
  moreover have "B = []" if "5 \<le> i" using that i n len by (simp add: B_def stored_entries_def)
  ultimately show "visible (newest (stored_entries (contents_of L')) k) = visible (newest (stored_entries (contents_of L)) k)"
    unfolding old after by (rule visible_kept)
qed

text \<open>What a reader sees of a key, and the order of its stored versions.\<close>

definition same_view :: "gostr \<Rightarrow> lsm \<Rightarrow> lsm \<Rightarrow> bool" where
  "same_view k L L' \<longleftrightarrow> l_memtable L' = l_memtable L \<and> l_numLevels L' = l_numLevels L
     \<and> visible (newest (stored_entries (contents_of L')) k) = visible (newest (stored_entries (contents_of L)) k)
     \<and> newest_first (stored_entries (contents_of L')) k"

lemma same_view_look:
  "same_view k L L' \<Longrightarrow> visible (look L' (contents_of L') k) = visible (look L (contents_of L) k)"
  by (auto simp: same_view_def look_def split: option.splits)

lemma level_moves_view:
  assumes "level_move\<^sup>*\<^sup>* L L'" "l_numLevels L \<le> 7" "k \<noteq> []" "newest_first (stored_entries (contents_of L)) k"
  shows "same_view k L L'"
  using assms(1)
proof (induction rule: rtranclp_induct)
  case base
  then show ?case using assms(4) by (simp add: same_view_def)
next
  case (step M N)
  obtain i es where i: "i + 1 < l_numLevels M" and st: "store_ok M" "compacts M N"
      and rep: "replaced M i (i + 1) (l_levels M ! i) [] (l_levels M ! (i + 1)) [] es N"
    using step.hyps(2) by (auto simp: level_move_def)
  have inv: "lsm_inv M (contents_of M)" using st by (simp add: store_ok_def)
  have "l_numLevels M \<le> 7" "newest_first (stored_entries (contents_of M)) k"
    using step.IH assms(2) by (simp_all add: same_view_def)
  from level_merge_look [OF inv i this(1) rep assms(3) this(2)] step.IH st(2) show ?case
    by (simp add: same_view_def compacts_def)
qed

lemma compactLevel_look:
  assumes "store_ok L" "l_numLevels L \<le> 7" "k \<noteq> []" "newest_first (stored_entries (contents_of L)) k"
    and "compactLevel os_ok (l_numLevels L) level L = (Inr (), L')"
  shows "visible (look L' (contents_of L') k) = visible (look L (contents_of L) k)"
    and "newest_first (stored_entries (contents_of L')) k"
proof -
  have "level_move\<^sup>*\<^sup>* L L'" using compactLevel_moves [OF assms(1), of level] assms(5) by auto
  from level_moves_view [OF this assms(2-4)] have v: "same_view k L L'" .
  show "visible (look L' (contents_of L') k) = visible (look L (contents_of L) k)" by (rule same_view_look [OF v])
  show "newest_first (stored_entries (contents_of L')) k" using v by (simp add: same_view_def)
qed

end
