(* ===== verification/Anomalies.thy ===== *)
theory Anomalies
  imports Reads
begin

text \<open>
  Stores with given contents, and what the engine does on a few of them that
  its documentation does not promise: a read that prefers an older version, a
  deleted value that returns, a key that is lost, overlapping tables.
\<close>

section \<open>Stores with given contents\<close>

definition good_table :: "entry list \<Rightarrow> bool" where
  "good_table es \<longleftrightarrow> chunk_fits es \<and> (\<forall>e\<in>set es. entry_small e)"

lemma good_table_small:
  assumes "sorted_strict (map e_key es)" "\<forall>e\<in>set es. entry_small e" "chunk_size es \<le> 4 * 2 ^ 20"
  shows "good_table es"
  using assms
  by (simp add: good_table_def chunk_fits_def table_fits_small entriesPerChunk_def entry_small_fits)

lemma engine_grow:
  assumes ok: "engine_ok L" and i: "i < l_numLevels L" and es: "good_table es"
  shows "\<exists>L'. engine_ok L' \<and> contents_of L' = (contents_of L)[i := contents_of L ! i @ [es]]
     \<and> l_wal L' = l_wal L \<and> l_memtable L' = l_memtable L \<and> l_numLevels L' = l_numLevels L
     \<and> l_maxL0Files L' = l_maxL0Files L \<and> l_flushThreshold L' = l_flushThreshold L
     \<and> l_baseLevelSize L' = l_baseLevelSize L"
proof -
  have inv: "lsm_inv L (contents_of L)" using engine_inv [OF ok] by simp
  obtain L' s where L': "lsm_inv L' ((contents_of L)[i := contents_of L ! i @ [es]])" "l_wal L' = l_wal L"
      "l_memtable L' = l_memtable L" "l_numLevels L' = l_numLevels L" "l_maxL0Files L' = l_maxL0Files L"
      "l_flushThreshold L' = l_flushThreshold L" "l_baseLevelSize L' = l_baseLevelSize L"
      "d_manifest (l_disk L') = Some (snapshot (l_levels L'))"
      "l_levels L' = (l_levels L)[i := l_levels L ! i @ [s]]" "has_suffix (s_path s) sst_suffix" "cont s = es"
    using lsm_inv_grow [OF inv i] es unfolding good_table_def by blast
  have c: "contents_of L' = (contents_of L)[i := contents_of L ! i @ [es]]"
    using lsm_inv_contents [OF L'(1)] by simp
  have "i < length (l_levels L)" using inv i by (simp add: lsm_inv_def)
  then have "mset (concat (l_levels L')) + mset (l_levels L ! i) = mset (concat (l_levels L)) + mset (l_levels L ! i @ [s])"
    unfolding L'(9) by (rule concat_update)
  then have "mset (concat (l_levels L')) = add_mset s (mset (concat (l_levels L)))" by simp
  then have "set (concat (l_levels L')) = insert s (set (concat (l_levels L)))"
    by (metis set_mset_add_mset_insert set_mset_mset)
  moreover have "small_table s" using es L'(11) by (simp add: small_table_def good_table_def)
  moreover have "mem_entries L' = mem_entries L" using L'(3) by (simp add: mem_entries_def)
  ultimately have "engine_ok L'"
    using ok L' c by (simp add: engine_ok_def store_ok_def paths_of_def wal_ready_def saved_def)
  with c L' show ?thesis by blast
qed

definition add_tables :: "(nat \<times> entry list) list \<Rightarrow> contents \<Rightarrow> contents" where
  "add_tables ts c = foldl (\<lambda>c (i, es). c[i := c ! i @ [es]]) c ts"

lemma add_tables_simps [simp]:
  "add_tables [] c = c" "add_tables ((i, es) # ts) c = add_tables ts (c[i := c ! i @ [es]])"
  by (simp_all add: add_tables_def)

lemma engine_with:
  "engine_ok L \<Longrightarrow> \<forall>(i, es)\<in>set ts. i < l_numLevels L \<and> good_table es \<Longrightarrow>
     \<exists>L'. engine_ok L' \<and> contents_of L' = add_tables ts (contents_of L)
     \<and> l_wal L' = l_wal L \<and> l_memtable L' = l_memtable L \<and> l_numLevels L' = l_numLevels L
     \<and> l_maxL0Files L' = l_maxL0Files L \<and> l_flushThreshold L' = l_flushThreshold L
     \<and> l_baseLevelSize L' = l_baseLevelSize L"
proof (induction ts arbitrary: L)
  case (Cons t ts)
  obtain i es where t: "t = (i, es)" by (cases t)
  have "i < l_numLevels L" "good_table es" using Cons.prems(2) t by auto
  from engine_grow [OF Cons.prems(1) this] obtain L1 where L1: "engine_ok L1"
      "contents_of L1 = (contents_of L)[i := contents_of L ! i @ [es]]"
      "l_wal L1 = l_wal L" "l_memtable L1 = l_memtable L" "l_numLevels L1 = l_numLevels L"
      "l_maxL0Files L1 = l_maxL0Files L" "l_flushThreshold L1 = l_flushThreshold L"
      "l_baseLevelSize L1 = l_baseLevelSize L" by blast
  have "\<forall>(i, es)\<in>set ts. i < l_numLevels L1 \<and> good_table es" using Cons.prems(2) L1(5) by auto
  from Cons.IH [OF L1(1) this] L1 t show ?case by simp
qed auto

text \<open>An engine with \<open>n\<close> levels, without a log, and with the given tables.\<close>

definition no_wal :: "int \<Rightarrow> int \<Rightarrow> options" where
  "no_wal n threshold = \<lparr>op_FlushThreshold = threshold, op_NumLevels = n, op_WALSyncMode = SyncAlways, op_NoWAL = True\<rparr>"

lemma engine_exists:
  assumes n: "2 \<le> n" "n < 2 ^ 31" and thr: "0 < threshold" "threshold \<le> 4 * 2 ^ 20"
    and ts: "\<forall>(i, es)\<in>set ts. i < n \<and> good_table es"
  shows "\<exists>L. engine_ok L \<and> contents_of L = add_tables ts (replicate n []) \<and> l_memtable L = mt_New
     \<and> l_numLevels L = n \<and> l_maxL0Files L = 8 \<and> l_baseLevelSize L = 2 ^ 20 \<and> l_flushThreshold L = threshold"
proof -
  obtain L0 where L0: "engine_ok L0" "l_memtable L0 = mt_New" "l_numLevels L0 = n" "contents_of L0 = replicate n []"
      "l_maxL0Files L0 = 8" "l_baseLevelSize L0 = 2 ^ 20" "l_flushThreshold L0 = threshold"
    using lsm_Open_new [of "no_wal (int n) threshold" 0 undefined] n thr
    by (auto simp: no_wal_def)
  then have "\<forall>(i, es)\<in>set ts. i < l_numLevels L0 \<and> good_table es" using ts by simp
  from engine_with [OF L0(1) this] L0 show ?thesis by auto
qed

section \<open>Tables with few entries\<close>

lemma index_from_few:
  "0 < i \<Longrightarrow> i + length es \<le> 128 \<Longrightarrow> index_from 128 i off es = []"
proof (induction es arbitrary: i off)
  case (Cons e es)
  then have "int i mod 128 \<noteq> 0" by (simp add: mod_pos_pos_trivial)
  with Cons show ?case by simp
qed simp

lemma index_of_few: "length es < 128 \<Longrightarrow>
   index_from 128 0 0 es = (case es of [] \<Rightarrow> [] | e # _ \<Rightarrow> [\<lparr>ie_key = e_key e, ie_off = 0\<rparr>])"
  by (cases es) (simp_all add: index_from_few)

text \<open>The largest key is the last indexed one: with fewer than 128 entries, the smallest.\<close>

lemma few_keys:
  assumes "table_at fs s es" "es \<noteq> []" "length es < 128"
  shows "st_MinKey s = e_key (hd es)" "st_MaxKey s = e_key (hd es)" "si_entries (s_index s) \<noteq> []"
proof -
  obtain bf where "s = opened (s_path s) 128 bf es" using assms(1) by (auto simp: table_at_def)
  then have "si_entries (s_index s) = [\<lparr>ie_key = e_key (hd es), ie_off = 0\<rparr>]"
    using index_of_few [OF assms(3)] assms(2) by (cases es) (metis opened_def sparse_index.select_convs(1) sstable.select_convs(2) list.simps(5) list.sel(1) neq_Nil_conv)+
  then show "st_MinKey s = e_key (hd es)" "st_MaxKey s = e_key (hd es)" "si_entries (s_index s) \<noteq> []"
    by (simp_all add: st_MinKey_def st_MaxKey_def)
qed

section \<open>Reading at a store with given contents\<close>

text \<open>A key no larger than some key of every table is read from the contents alone.\<close>

lemma engine_tables:
  assumes "engine_ok L" "s \<in> set (concat (l_levels L))"
  shows "table_at (files_of L) s (cont s)" "st_holds s (cont s)"
proof -
  show "table_at (files_of L) s (cont s)" using engine_inv [OF assms(1)] assms(2) by (auto simp: lsm_inv_iff)
  then show "st_holds s (cont s)" by (rule table_at_holds)
qed

lemma clean_contents:
  assumes ok: "engine_ok L" and all: "\<forall>es\<in>set (concat (contents_of L)). \<exists>e\<in>set es. k \<le> e_key e"
  shows "clean_for L k"
  unfolding clean_for_def
proof
  fix s
  assume s: "s \<in> set (concat (l_levels L))"
  then have "cont s \<in> set (concat (contents_of L))" by (auto simp: contents_of_def)
  with all show "st_clean s k" using st_clean_iff [OF engine_tables(2) [OF ok s]] by blast
qed

lemma engine_Get:
  assumes ok: "engine_ok L" and "\<forall>es\<in>set (concat (contents_of L)). \<exists>e\<in>set es. k \<le> e_key e"
  shows "\<exists>L'. lsm_Get k L = (Inr (visible (look L (contents_of L) k)), L')"
  using lsm_Get_look [of L "contents_of L" k] engine_inv [OF ok] clean_contents [OF assms] by blast

section \<open>A flush behind an older version in level 0\<close>

lemma stale_flush:
  assumes ok: "engine_ok L" and size: "at_most (4 * 2 ^ 20) L" and small: "small_batch [(k, v)]"
    and clock: "clock_ok now 1 (all_set L)" and full: "l_flushThreshold L \<le> mt_Size (l_memtable (puts now [(k, v)] L))"
    and room: "length (l_levels L ! 0) < l_maxL0Files L * 2"
    and old: "newest (concat (contents_of L ! 0)) k = Some x" and clean: "clean_for L k"
  shows "\<exists>L1 L2. lsm_Put os_ok kn now k v L = (Inr (), L1) \<and> lsm_Get k L1 = (Inr (answer x), L2)"
proof -
  obtain L1 L2 where L2: "PutBatch os_ok kn now [(k, v)] L = (Inr (), L2)" "engine_ok L1" "engine_ok L2"
      "l_memtable L1 = replay_into (put_entries now [(k, v)]) (l_memtable L)" "l_levels L1 = l_levels L"
      "flushed L1 (contents_of L1) L2 ((contents_of L1)[0 := contents_of L1 ! 0 @ [mem_entries L1]])"
    using PutBatch_flush [OF ok size _ small _ full room, of kn] clock by auto
  have same: "contents_of L1 = contents_of L" by (simp add: contents_of_def L2(5))
  have inv1: "lsm_inv L1 (contents_of L1)" using engine_inv [OF L2(2)] by simp
  have cl1: "clean_for L1 k" using clean by (simp add: clean_for_def L2(5))
  have got: "mt_Get (l_memtable L1) k \<noteq> None" by (simp add: L2(4) replay_into_get last_write_def)
  let ?c = "(contents_of L1)[0 := contents_of L1 ! 0 @ [mem_entries L1]]"
  have "look L2 ?c k = Some x" using flushed_look [OF inv1 L2(6), of k] old same by simp
  moreover have "lsm_inv L2 ?c" using L2(6) unfolding flushed_def in_level0_def by blast
  moreover have "clean_for L2 k" by (rule flushed_clean [OF inv1 L2(6) cl1 got])
  ultimately have "\<exists>L3. lsm_Get k L2 = (Inr (answer x), L3)"
    using lsm_Get_look [of L2 ?c k] by (auto simp: visible_def)
  with L2(1) show ?thesis by (auto simp: lsm_Put_def)
qed

section \<open>Compactions of chosen stores\<close>

lemma merge_of_one: "merge_of ess xs \<Longrightarrow> concat ess = [e] \<Longrightarrow> xs = [e]"
proof -
  assume m: "merge_of ess xs" and c: "concat ess = [e]"
  have "mset xs = {#e#}" using m unfolding merge_of_def c by simp
  then show ?thesis by (cases xs) auto
qed


text \<open>The table of level 1 reaches beyond its last indexed key and is not merged.\<close>

lemma l0_merge_overlap:
  assumes ok: "engine_ok L" and c: "contents_of L = [[[y]], [[x, z]]]"
    and keys: "e_key x < e_key z" "e_key y = e_key z"
  shows "\<exists>L'. compactL0ToL1 os_ok L = (Inr (), L') \<and> engine_ok L' \<and> contents_of L' = [[], [[x, z], [y]]]
     \<and> l_memtable L' = l_memtable L \<and> HasOverlappingLevels L' = Inr False"
proof -
  have st: "store_ok L" using ok by (simp add: engine_ok_def)
  obtain s t where levels: "l_levels L = [[s], [t]]" and cont: "cont s = [y]" "cont t = [x, z]"
  proof -
    have "map (map cont) (l_levels L) = [[[y]], [[x, z]]]" using c by (simp add: contents_of_def)
    then show thesis using that by (auto simp: map_eq_Cons_conv)
  qed
  have keys_s: "st_MinKey s = e_key y" "st_MaxKey s = e_key y"
    using few_keys [OF engine_tables(1) [OF ok, of s]] by (simp_all add: levels cont)
  have keys_t: "st_MinKey t = e_key x" "st_MaxKey t = e_key x" "si_entries (s_index t) \<noteq> []"
    using few_keys [OF engine_tables(1) [OF ok, of t]] by (simp_all add: levels cont)
  have "2 \<le> l_maxL0Files L" using st by (simp add: store_ok_def)
  then have cnt: "l0_count (length [s]) (l_maxL0Files L) = 1" by (simp add: l0_count_def)
  have in0: "l0_inputs L = [s]" "l0_rest L = []"
    using cnt by (simp_all add: l0_inputs_def l0_rest_def levels)
  have ap: "apart (key_min [s]) (key_max [s]) t"
    using keys keys_s keys_t by (simp add: apart_def key_min_def key_max_def)
  have in1: "l1_inputs L = []" "l1_rest L = [t]"
    using ap by (simp_all add: l1_inputs_def l1_rest_def in0 levels)
  obtain L' es where L': "compactL0ToL1 os_ok L = (Inr (), L')" "compacts L L'" "replaced L 0 1 [s] [] [] [t] es L'"
    using compactL0ToL1_ok [OF st] in0 in1 by (auto simp: levels)
  obtain new where new: "l_levels L' = [[], t # new]" "map cont new = split_chunks [] (kept 1 [] es)"
    using L'(3) by (auto simp: replaced_def levels)
  have "merge_of [[y]] es" using L'(3) by (simp add: replaced_def cont)
  then have "es = [y]" by (rule merge_of_one) simp
  moreover have "e_key y \<noteq> []" using keys by auto
  ultimately have "map cont new = [[y]]" using new(2) by simp
  then obtain u where u: "new = [u]" "cont u = [y]" by (auto simp: map_eq_Cons_conv)
  have ok': "engine_ok L'"
    using L'(2) ok by (simp add: engine_ok_def compacts_def wal_ready_def mem_entries_def)
  have lev: "l_levels L' = [[], [t, u]]" using new(1) u(1) by simp
  have keys_u: "st_MinKey u = e_key y" "st_MaxKey u = e_key y" "si_entries (s_index u) \<noteq> []"
    using few_keys [OF engine_tables(1) [OF ok', of u]] by (simp_all add: lev u(2))
  have "l_numLevels L' = 2" using engine_levels(1) [OF ok'] by (simp add: lev)
  moreover have "sort_key st_MinKey [t, u] = [t, u]" using keys keys_t keys_u by simp
  ultimately have "HasOverlappingLevels L' = Inr False"
    using keys keys_t keys_u by (simp add: HasOverlappingLevels_def lev) 
  then show ?thesis
    using L'(1,2) ok' by (auto simp: contents_of_def lev cont u compacts_def)
qed

text \<open>A tombstone that reaches level 6 is dropped although level 7 holds an older value.\<close>

lemma level6_resurrects:
  assumes ok: "engine_ok L" and c: "contents_of L = [[], [], [], [], [], [[t]], [], [[e]]]"
    and t: "e_tomb t" "e_key t \<noteq> []" and base: "l_baseLevelSize L = 2 ^ 20"
  shows "\<exists>L'. compactLevel os_ok (l_numLevels L) 5 L = (Inr (), L') \<and> engine_ok L'
     \<and> contents_of L' = [[], [], [], [], [], [], [], [[e]]] \<and> l_memtable L' = l_memtable L"
proof -
  have st: "store_ok L" using ok by (simp add: engine_ok_def)
  then have inv: "lsm_inv L (contents_of L)" by (simp add: store_ok_def)
  obtain s u where levels: "l_levels L = [[], [], [], [], [], [s], [], [u]]" and cont: "cont s = [t]" "cont u = [e]"
  proof -
    have "map (map cont) (l_levels L) = [[], [], [], [], [], [[t]], [], [[e]]]" using c by (simp add: contents_of_def)
    then show thesis using that by (auto simp: map_eq_Cons_conv)
  qed
  have n: "l_numLevels L = 8" using engine_levels(1) [OF ok] by (simp add: levels)
  have ne: "l_levels L ! 5 \<noteq> []" by (simp add: levels)
  have "parts L 5 6 [s] [] [] []" by (simp add: parts_def n levels)
  from replace_compacts [OF st this] obtain es L' where
    L': "replace_tables os_ok 5 6 [s] [] [] [] L = (Inr (), L')" "compacts L L'" "replaced L 5 6 [s] [] [] [] es L'"
    by blast
  obtain new where new: "l_levels L' = [[], [], [], [], [], [], new, [u]]" "map cont new = split_chunks [] (kept 6 [] es)"
    using L'(3) by (auto simp: replaced_def levels)
  have "merge_of [[t]] es" using L'(3) by (simp add: replaced_def cont)
  then have "es = [t]" by (rule merge_of_one) simp
  then have "new = []" using new(2) t by simp
  then have lev: "l_levels L' = [[], [], [], [], [], [], [], [u]]" using new(1) by simp
  have ok': "engine_ok L'"
    using L'(2) ok by (simp add: engine_ok_def compacts_def wal_ready_def mem_entries_def)
  have "sizes_of L' = level_sizes (l_levels L')" using engine_inv [OF ok'] by (simp add: lsm_inv_def)
  then have "ss_LevelSizes (l_stats L') ! 6 = 0" by (simp add: lev level_sizes_def)
  moreover have "l_baseLevelSize L' = l_baseLevelSize L" using L'(3) by (simp add: replaced_def)
  then have "0 \<le> LevelSize (l_baseLevelSize L') 6" using base by (simp add: LevelSize_def LevelMultiplier_def)
  ultimately have stop: "\<not> LevelSize (l_baseLevelSize L') 6 < ss_LevelSizes (l_stats L') ! 6" by simp
  have "compactLevel os_ok (l_numLevels L) 5 L = (Inr (), L')"
    using compactLevel_replace [OF inv _ _ ne] L'(1) stop by (simp add: n levels)
  then show ?thesis
    using ok' L'(2) by (auto simp: contents_of_def lev cont compacts_def)
qed

text \<open>The entry of the empty key does not survive a compaction.\<close>

lemma empty_key_lost:
  assumes ok: "engine_ok L" and c: "contents_of L = [[[e]], []]" and e: "e_key e = []"
  shows "\<exists>L'. compactL0ToL1 os_ok L = (Inr (), L') \<and> engine_ok L' \<and> contents_of L' = [[], []]
     \<and> l_memtable L' = l_memtable L"
proof -
  have st: "store_ok L" using ok by (simp add: engine_ok_def)
  obtain s where levels: "l_levels L = [[s], []]" and cont: "cont s = [e]"
  proof -
    have "map (map cont) (l_levels L) = [[[e]], []]" using c by (simp add: contents_of_def)
    then show thesis using that by (auto simp: map_eq_Cons_conv)
  qed
  have "2 \<le> l_maxL0Files L" using st by (simp add: store_ok_def)
  then have cnt: "l0_count (length [s]) (l_maxL0Files L) = 1" by (simp add: l0_count_def)
  have in0: "l0_inputs L = [s]" "l0_rest L = []"
    using cnt by (simp_all add: l0_inputs_def l0_rest_def levels)
  have in1: "l1_inputs L = []" "l1_rest L = []" by (simp_all add: l1_inputs_def l1_rest_def levels)
  obtain L' es where L': "compactL0ToL1 os_ok L = (Inr (), L')" "compacts L L'" "replaced L 0 1 [s] [] [] [] es L'"
    using compactL0ToL1_ok [OF st] in0 in1 by (auto simp: levels)
  obtain new where new: "l_levels L' = [[], new]" "map cont new = split_chunks [] (kept 1 [] es)"
    using L'(3) by (auto simp: replaced_def levels)
  have "merge_of [[e]] es" using L'(3) by (simp add: replaced_def cont)
  then have "es = [e]" by (rule merge_of_one) simp
  then have "new = []" using new(2) e by simp
  moreover have "engine_ok L'"
    using L'(2) ok by (simp add: engine_ok_def compacts_def wal_ready_def mem_entries_def)
  ultimately show ?thesis using L'(1,2) new(1) by (auto simp: contents_of_def compacts_def)
qed

end
