(* ===== verification/Faults.thy ===== *)
theory Faults
  imports Anomalies
begin

text \<open>
  Failing operations and what they leave behind, the overlap check, and the
  files of the first table format.
\<close>

section \<open>A write whose log append fails\<close>

lemma PutBatch_error:
  assumes kvs: "kvs \<noteq> []" and w: "l_wal L = Some w"
    and err: "wal_AppendBatch os k w (put_entries now kvs) = (w', Some e)"
  shows "\<exists>L'. PutBatch os k now kvs L = (Inl e, L')
     \<and> l_memtable L' = replay_into (put_entries now kvs) (l_memtable L)
     \<and> l_levels L' = l_levels L \<and> l_numLevels L' = l_numLevels L"
proof -
  have "put_step os k now kvs L = (Inl e, (puts now kvs L)\<lparr>l_wal := Some w'\<rparr>)"
    using w err by (simp add: put_step_def on_wal_def andthen_def puts_def)
  then have "PutBatch os k now kvs L = (Inl e, (puts now kvs L)\<lparr>l_wal := Some w'\<rparr>)"
    by (simp add: PutBatch_step [OF kvs] andthen_def)
  then show ?thesis by (simp add: puts_def)
qed

text \<open>The value of the failed write answers the next read.\<close>

lemma PutBatch_error_Get:
  assumes "l_memtable L' = replay_into (put_entries now kvs) (l_memtable L)"
    and x: "last_write (put_entries now kvs) key = Some x"
  shows "lsm_Get key L' = (Inr (Some (e_val x)), L')"
proof -
  have "\<not> e_tomb x" using last_write_mem [OF x] put_entries_live by blast
  then show ?thesis
    using assms by (simp add: lsm_Get_def replay_into_get stored_def answer_def)
qed

text \<open>A failing sync is such an error.\<close>

lemma sync_fails:
  assumes at: "wal_at w data" and mode: "wa_mode w = SyncAlways"
    and os: "os = (\<lambda>c. c \<noteq> OsSync (wa_path w))"
  shows "\<exists>w'. wal_AppendBatch os k w es = (w', Some ErrOS)"
proof -
  have g: "wal_grow os w n = wal_grow os_ok w n" for n by (cases "grow_size (map_len w * 2) n") (simp_all add: wal_grow_def os)
  obtain w1 where w1: "writeToMmap os_ok w (serializeEntries es) = (w1, None)" "same_handle w w1"
    using writeToMmap_at [OF at] by blast
  have "writeToMmap os w (serializeEntries es) = (w1, None)"
    using w1(1) unfolding writeToMmap_def Let_def g .
  moreover have "wa_path w1 = wa_path w" using w1(2) by (simp add: same_handle_def)
  ultimately show ?thesis using mode by (simp add: wal_AppendBatch_def wal_AppendRaw_def syncFile_def os)
qed

section \<open>A log that is closed\<close>

lemma wal_shut_map:
  "wal_shut os w = (w', r) \<Longrightarrow> wa_map w' = None \<and> wa_mode w' = wa_mode w"
  by (auto simp: wal_shut_def Let_def split: if_splits)

text \<open>Doubling a size of zero does not end, so an append to a closed log never returns.\<close>

lemma append_unmapped:
  assumes "wa_map w = None" "wa_mode w \<noteq> SyncIouring" "0 < wa_writeAt w + length buf"
  shows "wal_AppendRaw os k w buf = (w, Some Hang)"
proof -
  have "grow_size 0 (wa_writeAt w + length buf) = None" using grow_size_zero [OF assms(3)] .
  then have "writeToMmap os w buf = (w, Some Hang)"
    using assms(1,3) by (simp add: writeToMmap_def map_len_def wal_grow_def)
  with assms(2) show ?thesis by (cases "wa_mode w") (simp_all add: wal_AppendRaw_def)
qed

lemma wal_Close_map:
  assumes "wal_at w data" "wal_up w" "wal_Close os_ok k w = (w', None)"
  shows "wa_map w' = None" "wa_mode w' = wa_mode w" "wa_mode w' \<noteq> SyncIouring"
proof -
  have m: "wa_mode w \<noteq> SyncIouring" using assms(2) by (simp add: wal_up_def)
  have "wa_map w' = None \<and> wa_mode w' = wa_mode w"
  proof (cases "wa_mode w = SyncAsync")
    case True
    define w1 where "w1 = aw_drain os_ok (w\<lparr>wa_chClosed := True\<rparr>)"
    have "wa_mode w1 = wa_mode w"
      by (simp add: w1_def aw_drain_def aw_stop_def aw_flush_def aw_recv_def syncFile_def)
    moreover have "wal_shut os_ok w1 = (w', None)"
      using assms(2,3) True by (auto simp: wal_Close_def wal_up_def w1_def [symmetric] Let_def split: if_splits)
    ultimately show ?thesis using wal_shut_map by metis
  next
    case False
    then have "wal_shut os_ok w = (w', None)" using assms(3) m by (cases "wa_mode w") (simp_all add: wal_Close_def)
    then show ?thesis using wal_shut_map by blast
  qed
  with m show "wa_map w' = None" "wa_mode w' = wa_mode w" "wa_mode w' \<noteq> SyncIouring" by simp_all
qed

lemma serializeEntries_nonempty: "serializeEntries es \<noteq> []"
  by (simp add: serializeEntries_def)

lemma close_then_put:
  assumes ok: "engine_ok L" and w: "l_wal L = Some w" and kvs: "kvs \<noteq> []"
  shows "\<exists>L1 L2. lsm_Close os_ok k L = (Inr (), L1) \<and> PutBatch os_ok k now kvs L1 = (Inl Hang, L2)"
proof -
  obtain data where at: "wal_at w data" "wal_up w" using ok w by (auto simp: engine_ok_def wal_ready_def)
  obtain w1 where w1: "wal_Close os_ok k w = (w1, None)" using wal_Close_at [OF at, of k] by blast
  define L0 where "L0 = L\<lparr>l_closed := True, l_levels := map (map st_Close) (l_levels L)\<rparr>"
  have "lsm_Close os_ok k L = (Inr (), L0\<lparr>l_wal := Some w1\<rparr>)"
    using w w1 by (simp add: lsm_Close_def andthen_def update_def on_wal_def L0_def)
  moreover have "wal_AppendBatch os_ok k w1 (put_entries now kvs) = (w1, Some Hang)"
    unfolding wal_AppendBatch_def using wal_Close_map [OF at w1] serializeEntries_nonempty
    by (intro append_unmapped) simp_all
  from PutBatch_error [OF kvs _ this, of "L0\<lparr>l_wal := Some w1\<rparr>"]
  have "\<exists>L2. PutBatch os_ok k now kvs (L0\<lparr>l_wal := Some w1\<rparr>) = (Inl Hang, L2)" by auto
  ultimately show ?thesis by blast
qed

section \<open>The overlap check\<close>

text \<open>What it reports is an overlap of two tables' key ranges.\<close>

definition ranges_meet :: "entry list \<Rightarrow> entry list \<Rightarrow> bool" where
  "ranges_meet xs ys \<longleftrightarrow> (\<exists>a\<in>set xs. \<exists>b\<in>set xs. \<exists>c\<in>set ys. e_key a \<le> e_key c \<and> e_key c \<le> e_key b)"

lemma index_keys_held:
  assumes "st_holds s es" "si_entries (s_index s) \<noteq> []"
  shows "st_MinKey s \<in> e_key ` set es" "st_MaxKey s \<in> e_key ` set es"
proof -
  obtain step where i: "si_entries (s_index s) = index_from step 0 0 es" using assms(1) by (auto simp: st_holds_def)
  have sub: "ie_key ` set (si_entries (s_index s)) \<subseteq> e_key ` set es"
    using index_from_keys [of step 0 0 es] unfolding i by simp
  have "st_MinKey s = ie_key (hd (si_entries (s_index s)))"
    using assms(2) by (cases "si_entries (s_index s)") (simp_all add: st_MinKey_def)
  moreover have "st_MaxKey s = ie_key (last (si_entries (s_index s)))"
    using assms(2) by (simp add: st_MaxKey_def Let_def last_conv_nth)
  ultimately show "st_MinKey s \<in> e_key ` set es" "st_MaxKey s \<in> e_key ` set es"
    using sub hd_in_set [OF assms(2)] last_in_set [OF assms(2)] by auto
qed

lemma neighbours_meet:
  assumes "sorted (map st_MinKey ss)" "neighbours_overlap ss"
  shows "\<exists>i j. i < j \<and> j < length ss \<and> st_MinKey (ss ! i) \<le> st_MinKey (ss ! j) \<and> st_MinKey (ss ! j) \<le> st_MaxKey (ss ! i)"
  using assms
proof (induction ss rule: neighbours_overlap.induct)
  case (1 s t ss)
  show ?case
  proof (cases "st_MinKey t \<le> st_MaxKey s")
    case True
    with 1 show ?thesis by (intro exI [of _ 0] exI [of _ 1]) simp
  next
    case False
    with 1 obtain i j where "i < j" "j < length (t # ss)" "st_MinKey ((t # ss) ! i) \<le> st_MinKey ((t # ss) ! j)"
        "st_MinKey ((t # ss) ! j) \<le> st_MaxKey ((t # ss) ! i)" by auto
    then show ?thesis by (intro exI [of _ "Suc i"] exI [of _ "Suc j"]) simp
  qed
qed simp_all

lemma two_of_list:
  assumes "i < j" "j < length xs"
  shows "{#xs ! i, xs ! j#} \<subseteq># mset xs"
proof -
  have "xs = take j xs @ xs ! j # drop (Suc j) xs" using assms(2) by (rule id_take_nth_drop)
  then have "mset xs = mset (take j xs) + add_mset (xs ! j) (mset (drop (Suc j) xs))" by (metis mset.simps(2) mset_append)
  moreover have "xs ! i \<in> set (take j xs)" using assms by (metis in_set_conv_nth length_take min.absorb4 nth_take)
  then have "{#xs ! i#} \<subseteq># mset (take j xs)" by simp
  then have "{#xs ! i#} + {#xs ! j#} \<subseteq># mset (take j xs) + add_mset (xs ! j) (mset (drop (Suc j) xs))"
    by (intro subset_mset.add_mono) simp_all
  ultimately show ?thesis by (simp add: add_mset_commute)
qed

lemma levels_overlap_sound:
  assumes "levels_overlap sss = Inr True" "\<forall>ss\<in>set sss. \<forall>s\<in>set ss. st_holds s (cont s)"
  shows "\<exists>ss\<in>set sss. \<exists>s t. {#s, t#} \<subseteq># mset ss \<and> ranges_meet (cont s) (cont t)"
  using assms
proof (induction sss)
  case (Cons ss sss)
  show ?case
  proof (cases "length ss \<le> 1 \<or> (\<not> (\<exists>s\<in>set ss. si_entries (s_index s) = []) \<and> \<not> neighbours_overlap (sort_key st_MinKey ss))")
    case True
    with Cons show ?thesis by (auto split: if_splits)
  next
    case False
    then have ne: "\<forall>s\<in>set ss. si_entries (s_index s) \<noteq> []" and n: "neighbours_overlap (sort_key st_MinKey ss)"
      using Cons.prems(1) by (auto split: if_splits)
    obtain i j where ij: "i < j" "j < length (sort_key st_MinKey ss)" "st_MinKey (sort_key st_MinKey ss ! i) \<le> st_MinKey (sort_key st_MinKey ss ! j)"
        "st_MinKey (sort_key st_MinKey ss ! j) \<le> st_MaxKey (sort_key st_MinKey ss ! i)"
      using neighbours_meet [OF _ n] by auto
    define s where "s = sort_key st_MinKey ss ! i"
    define t where "t = sort_key st_MinKey ss ! j"
    have two: "{#s, t#} \<subseteq># mset ss" using two_of_list [OF ij(1,2)] by (simp add: s_def t_def)
    then have "s \<in> set ss" "t \<in> set ss" by (auto dest: mset_subset_eqD)
    then have "st_MinKey s \<in> e_key ` set (cont s)" "st_MaxKey s \<in> e_key ` set (cont s)" "st_MinKey t \<in> e_key ` set (cont t)"
      using index_keys_held ne Cons.prems(2) by auto
    moreover have "st_MinKey s \<le> st_MinKey t" "st_MinKey t \<le> st_MaxKey s" using ij(3,4) by (simp_all add: s_def t_def)
    ultimately have "ranges_meet (cont s) (cont t)" unfolding ranges_meet_def by force
    with two show ?thesis by auto
  qed
qed simp

section \<open>Files of the first format\<close>

text \<open>
  \<open>openV1\<close> takes the last twenty bytes for the footer, two offsets and the
  magic number \<open>LSM1\<close>; the check that leads to it looks for the magic number
  four bytes further ahead.
\<close>

definition v1_file :: "byte list \<Rightarrow> u64 \<Rightarrow> u64 \<Rightarrow> byte list" where
  "v1_file body indexOffset bloomOffset = body @ put_u64 indexOffset @ put_u64 bloomOffset @ magicV1"

lemma drop_bit_small:
  fixes x :: u64
  assumes "x < 2 ^ 32" "32 \<le> n"
  shows "drop_bit n x = 0"
proof -
  have "unat x < 2 ^ 32" using assms(1) by (simp add: word_less_nat_alt)
  also have "\<dots> \<le> 2 ^ n" using assms(2) by (intro power_increasing) simp_all
  finally have "unat x < 2 ^ n" .
  then have "unat (drop_bit n x) = 0" unfolding unat_drop_bit_eq unfolding drop_bit_eq_div by (rule div_less)
  then show ?thesis by (simp add: unat_eq_0)
qed

lemma put_u64_high: "x < 2 ^ 32 \<Longrightarrow> drop 4 (put_u64 x) = [0, 0, 0, 0]"
  by (simp add: put_u64_def upt_8 drop_bit_small)

lemma v1_rejected:
  assumes body: "4 \<le> length body" and off: "bloomOffset < 2 ^ 32"
    and at: "map_of fs p = Some (v1_file body indexOffset bloomOffset)"
  shows "st_Open os_ok fs p = Inl ErrMagic" "st_OpenNoVerify os_ok fs p = Inl ErrMagic"
proof -
  define f where "f = drop (length body - 4) body @ put_u64 indexOffset @ put_u64 bloomOffset @ magicV1"
  have m: "map_file os_ok fs p = Inr (v1_file body indexOffset bloomOffset)"
    using at body by (simp add: map_file_def v1_file_def footerSize_def magicV1_def)
  have foot: "footer_of (v1_file body indexOffset bloomOffset) = f"
    using body by (simp add: footer_of_def v1_file_def footerSize_def magicV1_def f_def)
  have len: "length f = 24" using body by (simp add: f_def magicV1_def)
  have four: "length (drop (length body - 4) body) = 4" using body by simp
  have "take 4 (drop 16 f) = drop 4 (put_u64 bloomOffset)" "take 4 (drop 20 f) = magicV1"
    using four by (simp_all add: f_def magicV1_def drop_append)
  then have magic: "take 4 (drop 16 f) \<noteq> magicV1" "take 4 (drop 20 f) \<noteq> magicNumber"
    using put_u64_high [OF off] by (simp_all add: magicV1_def magicNumber_def)
  obtain a b where "get_u64 (take 8 f) = Inr a" "get_u64 (take 8 (drop 8 f)) = Inr b"
    using len by (simp add: get_u64_def)
  with m magic show "st_Open os_ok fs p = Inl ErrMagic" "st_OpenNoVerify os_ok fs p = Inl ErrMagic"
    by (simp_all add: st_Open_def st_OpenNoVerify_def foot Let_def)
qed

end
