(* ===== verification/Refine.thy ===== *)
theory Refine
  imports Faults
begin

text \<open>
  The engine as a map from keys to values.  A run that never flushes a key into
  a level 0 that already holds it, and whose compactions of level 0 miss no
  overlap, implements the map: the conditions are stated on the engine's states,
  and the anomalies of the reads are what happens without them.
\<close>

section \<open>Versions in a list of tables\<close>

definition vers :: "sstable list \<Rightarrow> gostr \<Rightarrow> entry list" where
  "vers ss k = versions_of (concat (map cont ss)) k"

lemma vers_simps [simp]:
  "vers [] k = []" "vers (xs @ ys) k = vers xs k @ vers ys k"
  by (simp_all add: vers_def)

lemma vers_mset:
  assumes "mset xs = mset ys"
  shows "mset (vers xs k) = mset (vers ys k)"
proof -
  have "mset (concat (map cont zs)) = sum_mset (image_mset (\<lambda>s. mset (cont s)) (mset zs))" for zs
    by (induction zs) simp_all
  then have "mset (concat (map cont xs)) = mset (concat (map cont ys))" using assms by simp
  then show ?thesis by (simp add: vers_def versions_of_def mset_filter)
qed

lemma short_mset_eq:
  assumes "mset xs = mset ys" "length xs \<le> 1"
  shows "xs = ys"
proof (cases xs)
  case (Cons x xs')
  then have "xs = [x]" using assms(2) by simp
  with assms(1) show ?thesis by (metis mset_single_iff_right mset.simps(1,2) mset_single_iff)
qed (use assms in simp)

lemma vers_parts:
  assumes "mset ss = mset (as @ bs)" "length (vers ss k) \<le> 1"
  shows "vers ss k = vers as k @ vers bs k"
  using short_mset_eq [OF vers_mset [OF assms(1)] assms(2)] by simp

lemma vers_in: "x \<in> set (vers ss k) \<longleftrightarrow> e_key x = k \<and> (\<exists>s\<in>set ss. x \<in> set (cont s))"
  by (auto simp: vers_def versions_of_def)

lemma stored_vers:
  assumes "2 \<le> length (l_levels L)"
  shows "versions_of (stored_entries (contents_of L)) k
     = vers (l_levels L ! 0) k @ vers (l_levels L ! 1) k @ vers (concat (drop 2 (l_levels L))) k"
proof -
  have "l_levels L = l_levels L ! 0 # l_levels L ! 1 # drop 2 (l_levels L)"
    using split_two(1) [of 0 "l_levels L"] assms by (simp add: numeral_2_eq_2)
  then have "contents_of L = map cont (l_levels L ! 0) # map cont (l_levels L ! 1) # map (map cont) (drop 2 (l_levels L))"
    unfolding contents_of_def by (metis list.simps(9))
  then show ?thesis by (simp add: stored_entries_def vers_def map_concat)
qed

section \<open>Stores that list their versions in order\<close>

definition in_order :: "lsm \<Rightarrow> gostr \<Rightarrow> bool" where
  "in_order L k \<longleftrightarrow> newest_first (stored_entries (contents_of L)) k
     \<and> length (vers (l_levels L ! 0) k) \<le> 1 \<and> length (vers (l_levels L ! 1) k) \<le> 1
     \<and> (\<forall>e. mt_Get (l_memtable L) k = Some e \<longrightarrow> (\<forall>x\<in>stored_set L. e_key x = k \<longrightarrow> sint (e_ts x) < sint (e_ts e)))"

lemma level_moves_order:
  assumes "level_move\<^sup>*\<^sup>* L L'" "l_numLevels L \<le> 7" "k \<noteq> []" "in_order L k"
  shows "in_order L' k \<and> same_view k L L'"
  using assms(1)
proof (induction rule: rtranclp_induct)
  case base
  then show ?case using assms(4) by (simp add: same_view_def in_order_def)
next
  case (step M N)
  obtain i es where i: "1 \<le> i" "i + 1 < l_numLevels M" and st: "store_ok M" "compacts M N"
      and rep: "replaced M i (i + 1) (l_levels M ! i) [] (l_levels M ! (i + 1)) [] es N"
    using step.hyps(2) by (auto simp: level_move_def)
  have view: "same_view k L N"
    by (rule level_moves_view [OF _ assms(2,3)]) (use step.hyps assms(4) in \<open>auto simp: in_order_def\<close>)
  obtain new where "l_levels N = (l_levels M)[i := [], i + 1 := new]" using rep by (auto simp: replaced_def)
  moreover have "length (l_levels M) = l_numLevels M" using st(1) by (simp add: store_ok_def lsm_inv_def)
  ultimately have "l_levels N ! 0 = l_levels M ! 0" "l_levels N ! 1 = l_levels M ! 1 \<or> l_levels N ! 1 = []"
    using i by (auto simp: nth_list_update)
  moreover have "stored_set N \<subseteq> stored_set M" "l_memtable N = l_memtable M"
    using st(2) by (simp_all add: compacts_def outlives_def)
  ultimately show ?case using step.IH view by (auto simp: in_order_def same_view_def)
qed

text \<open>The compaction of level 0 takes every table of level 1 that shares a key with its inputs.\<close>

definition no_overlap_missed :: "lsm \<Rightarrow> bool" where
  "no_overlap_missed L \<longleftrightarrow>
     (\<forall>s\<in>set (l0_inputs L). \<forall>t\<in>set (l1_rest L). \<forall>x\<in>set (cont s). \<forall>y\<in>set (cont t). e_key x \<noteq> e_key y)"

lemma l0_versions:
  assumes st: "store_ok L" and rep: "replaced L 0 1 (l0_inputs L) (l0_rest L) (l1_inputs L) (l1_rest L) es L'"
    and k: "k \<noteq> []" and ord: "in_order L k" and all: "no_overlap_missed L"
  shows "vers (l_levels L' ! 0) k = vers (l0_rest L) k"
    and "vers (l_levels L' ! 1) k
       = vers (l1_rest L) k @ (case vers (l0_inputs L @ l1_inputs L) k of [] \<Rightarrow> [] | e # _ \<Rightarrow> [e])"
    and "drop 2 (l_levels L') = drop 2 (l_levels L)"
    and "vers (l_levels L ! 0) k = vers (l0_inputs L) k @ vers (l0_rest L) k"
    and "vers (l_levels L ! 1) k = vers (l1_inputs L) k @ vers (l1_rest L) k"
    and "vers (l0_inputs L) k = [] \<or> vers (l1_rest L) k = []"
proof -
  have inv: "lsm_inv L (contents_of L)" "2 \<le> l_numLevels L" using st by (simp_all add: store_ok_def)
  note parts = l0_parts [OF inv]
  show v0: "vers (l_levels L ! 0) k = vers (l0_inputs L) k @ vers (l0_rest L) k"
    by (rule vers_parts) (use parts ord in \<open>simp_all add: parts_def in_order_def\<close>)
  show v1: "vers (l_levels L ! 1) k = vers (l1_inputs L) k @ vers (l1_rest L) k"
    by (rule vers_parts) (use parts ord in \<open>simp_all add: parts_def in_order_def\<close>)
  have len: "2 \<le> length (l_levels L)" "l_levels L \<noteq> []" using inv by (auto simp: lsm_inv_def)
  obtain new where new: "l_levels L' = (l_levels L)[0 := l0_rest L, 1 := l1_rest L @ new]"
      "map cont new = split_chunks [] (kept 1 [] es)" and m: "merge_of (map cont (l0_inputs L @ l1_inputs L)) es"
    using rep by (auto simp: replaced_def)
  have "sorted_wrt (\<lambda>x y. sint (e_ts y) < sint (e_ts x)) (vers (l0_inputs L) k @ vers (l1_inputs L) k)"
    using ord v0 v1 by (simp add: in_order_def newest_first_def stored_vers [OF len(1)] sorted_wrt_append)
  then have "newest_first (concat (map cont (l0_inputs L @ l1_inputs L))) k"
    by (simp add: newest_first_def vers_def)
  from kept_versions [OF m k this, of 1]
  have "vers new k = (case vers (l0_inputs L @ l1_inputs L) k of [] \<Rightarrow> [] | e # _ \<Rightarrow> [e])"
    using new(2) concat_split [of "[]"] by (simp add: vers_def newest_versions split: list.splits)
  then show "vers (l_levels L' ! 1) k
       = vers (l1_rest L) k @ (case vers (l0_inputs L @ l1_inputs L) k of [] \<Rightarrow> [] | e # _ \<Rightarrow> [e])"
    and "vers (l_levels L' ! 0) k = vers (l0_rest L) k"
    and "drop 2 (l_levels L') = drop 2 (l_levels L)"
    using len by (auto simp: new(1) nth_list_update)
  show "vers (l0_inputs L) k = [] \<or> vers (l1_rest L) k = []"
  proof (rule ccontr)
    assume "\<not> ?thesis"
    then obtain x y where "x \<in> set (vers (l0_inputs L) k)" "y \<in> set (vers (l1_rest L) k)"
      by (metis list.set_sel(1))
    with all show False unfolding no_overlap_missed_def vers_in by metis
  qed
qed

lemma l0_move_order:
  assumes st: "store_ok L" and rep: "replaced L 0 1 (l0_inputs L) (l0_rest L) (l1_inputs L) (l1_rest L) es L'"
    and cm: "compacts L L'" and k: "k \<noteq> []" and ord: "in_order L k" and all: "no_overlap_missed L"
  shows "in_order L' k \<and> same_view k L L'"
proof -
  note v = l0_versions [OF st rep k ord all]
  have inv: "lsm_inv L (contents_of L)" "2 \<le> l_numLevels L" "lsm_inv L' (contents_of L')" "l_numLevels L' = l_numLevels L"
    using st cm by (simp_all add: store_ok_def compacts_def)
  then have len: "2 \<le> length (l_levels L)" "2 \<le> length (l_levels L')" by (simp_all add: lsm_inv_def)
  let ?R = "vers (concat (drop 2 (l_levels L))) k"
  have old: "versions_of (stored_entries (contents_of L)) k
      = (vers (l0_inputs L) k @ vers (l0_rest L) k) @ (vers (l1_inputs L) k @ vers (l1_rest L) k) @ ?R"
    unfolding stored_vers [OF len(1)] v(4,5) by simp
  have new: "versions_of (stored_entries (contents_of L')) k
      = vers (l0_rest L) k @ (vers (l1_rest L) k @ (case vers (l0_inputs L) k @ vers (l1_inputs L) k of [] \<Rightarrow> [] | e # _ \<Rightarrow> [e])) @ ?R"
    unfolding stored_vers [OF len(2)] v(1,2,3) by simp
  have short: "length (vers (l0_inputs L) k @ vers (l0_rest L) k) \<le> 1" "length (vers (l1_inputs L) k @ vers (l1_rest L) k) \<le> 1"
    using ord v(4,5) by (simp_all add: in_order_def)
  have desc: "sorted_wrt (\<lambda>x y. sint (e_ts y) < sint (e_ts x)) (versions_of (stored_entries (contents_of L)) k)"
    using ord by (simp add: in_order_def newest_first_def)
  have "newest_first (stored_entries (contents_of L')) k
     \<and> newest (stored_entries (contents_of L')) k = newest (stored_entries (contents_of L)) k
     \<and> length (vers (l_levels L' ! 0) k) \<le> 1 \<and> length (vers (l_levels L' ! 1) k) \<le> 1"
  proof (cases "vers (l0_inputs L) k")
    case Nil
    then have "versions_of (stored_entries (contents_of L')) k = versions_of (stored_entries (contents_of L)) k"
      using old new short(2) by (cases "vers (l1_inputs L) k") auto
    then show ?thesis using desc v(1,2) short Nil
      by (cases "vers (l1_inputs L) k") (auto simp: newest_first_def newest_versions)
  next
    case (Cons e r)
    then have e: "vers (l0_inputs L) k = [e]" "vers (l0_rest L) k = []" "vers (l1_rest L) k = []" using short(1) v(6) by auto
    then show ?thesis using desc v(1,2) old new by (auto simp: newest_first_def newest_versions sorted_wrt_append)
  qed
  moreover have "stored_set L' \<subseteq> stored_set L" "l_memtable L' = l_memtable L"
    using cm by (simp_all add: compacts_def outlives_def)
  ultimately show ?thesis using ord inv(4) by (auto simp: in_order_def same_view_def)
qed

lemma l0_compaction_order:
  assumes st: "store_ok L" and run: "compactL0ToL1 os_ok L = (Inr (), L')"
    and k: "k \<noteq> []" and ord: "in_order L k" and all: "no_overlap_missed L"
  shows "in_order L' k \<and> same_view k L L'"
proof (cases "l_levels L ! 0 = []")
  case True
  then have "L' = L" using run by (simp add: compactL0ToL1_def Let_def)
  then show ?thesis using ord by (simp add: same_view_def in_order_def)
next
  case False
  obtain es where "replaced L 0 1 (l0_inputs L) (l0_rest L) (l1_inputs L) (l1_rest L) es L'" "compacts L L'"
    using compactL0ToL1_ok [OF st] run False by auto
  from l0_move_order [OF st this k ord all] show ?thesis .
qed

section \<open>Writes and flushes\<close>

text \<open>The last value a batch gives a key.\<close>

lemma last_write_batch: "map_of (rev kvs) k = map_option e_val (last_write (put_entries t kvs) k)"
proof (induction kvs arbitrary: t)
  case (Cons p kvs)
  obtain a b where p: "p = (a, b)" by (cases p)
  have "last_write (put_entries t (p # kvs)) k
      = last_write ([\<lparr>e_key = a, e_val = b, e_ts = t, e_tomb = False\<rparr>] @ put_entries (t + 1) kvs) k"
    by (simp add: p)
  also have "\<dots> = (case last_write (put_entries (t + 1) kvs) k of Some e \<Rightarrow> Some e
      | None \<Rightarrow> if a = k then Some \<lparr>e_key = a, e_val = b, e_ts = t, e_tomb = False\<rparr> else None)"
    unfolding last_write_append by (auto simp: last_write_def split: option.splits)
  finally show ?case using Cons [of "t + 1"] by (auto simp: p map_add_def split: option.splits)
qed simp

text \<open>A clock that is ahead of every version in the engine.\<close>

definition newer :: "i64 \<Rightarrow> nat \<Rightarrow> lsm \<Rightarrow> bool" where
  "newer now n L \<longleftrightarrow> sint now + int n < 2 ^ 63 \<and> (\<forall>a\<in>all_set L. sint (e_ts a) < sint now)"

lemma newer_clock: "newer now n L \<Longrightarrow> clock_ok now n (all_set L)"
  by (auto simp: newer_def clock_ok_def intro: less_imp_le)

lemma write_order:
  assumes ord: "in_order L k" and clock: "newer now (length kvs) L"
    and L': "l_levels L' = l_levels L" "l_memtable L' = replay_into (put_entries now kvs) (l_memtable L)"
  shows "in_order L' k"
    and "visible (look L' (contents_of L') k)
       = (case map_of (rev kvs) k of Some v \<Rightarrow> Some v | None \<Rightarrow> visible (look L (contents_of L) k))"
proof -
  have same: "contents_of L' = contents_of L" "stored_set L' = stored_set L"
    by (simp_all add: contents_of_def stored_set_def L'(1))
  have mem: "mt_Get (l_memtable L') k
      = (case last_write (put_entries now kvs) k of Some e \<Rightarrow> Some e | None \<Rightarrow> mt_Get (l_memtable L) k)"
  proof (cases "last_write (put_entries now kvs) k")
    case (Some e)
    then have "\<not> e_tomb e" using last_write_mem [OF Some] put_entries_live by blast
    then show ?thesis using Some by (simp add: L'(2) replay_into_get stored_def)
  qed (simp add: L'(2) replay_into_get)
  have "sint (e_ts x) < sint (e_ts e)" if "last_write (put_entries now kvs) k = Some e" "x \<in> stored_set L" for e x
  proof -
    have "sint now + int (length kvs) < 2 ^ 63" using clock by (simp add: newer_def)
    then have "sint now \<le> sint (e_ts e)" using put_entries_sorted(2) last_write_mem [OF that(1)] by blast
    moreover have "sint (e_ts x) < sint now" using clock that(2) by (auto simp: newer_def all_set_def)
    ultimately show ?thesis by simp
  qed
  then show "in_order L' k" using ord mem by (auto simp: in_order_def same L'(1) split: option.splits)
  have "e_tomb e = False" if "last_write (put_entries now kvs) k = Some e" for e
    using last_write_mem [OF that] put_entries_live by blast
  then show "visible (look L' (contents_of L') k)
      = (case map_of (rev kvs) k of Some v \<Rightarrow> Some v | None \<Rightarrow> visible (look L (contents_of L) k))"
    unfolding last_write_batch [of kvs k now] look_def same(1) mem
    by (auto simp: visible_def answer_def split: option.splits)
qed

lemma delete_order:
  assumes ord: "in_order L k" and clock: "newer now 1 L"
    and L': "l_levels L' = l_levels L" "l_memtable L' = mt_Delete (l_memtable L) key now"
  shows "in_order L' k"
    and "visible (look L' (contents_of L') k) = (if k = key then None else visible (look L (contents_of L) k))"
proof -
  have same: "contents_of L' = contents_of L" "stored_set L' = stored_set L"
    by (simp_all add: contents_of_def stored_set_def L'(1))
  have "sint (e_ts x) < sint now" if "x \<in> stored_set L" for x
    using clock that by (auto simp: newer_def all_set_def)
  then show "in_order L' k" using ord by (auto simp: in_order_def same L'(1,2) split: if_splits)
  show "visible (look L' (contents_of L') k) = (if k = key then None else visible (look L (contents_of L) k))"
    by (simp add: look_def same(1) L'(2) visible_def answer_def)
qed

text \<open>A flush keeps the order when level 0 holds none of the memtable's keys.\<close>

lemma flushed_order:
  assumes ok: "engine_ok L" and ord: "in_order L k"
    and fl: "flushed L (contents_of L) L' ((contents_of L)[0 := contents_of L ! 0 @ [mem_entries L]])"
    and fresh: "mt_Get (l_memtable L) k \<noteq> None \<Longrightarrow> vers (l_levels L ! 0) k = []"
  shows "in_order L' k" "visible (look L' (contents_of L') k) = visible (look L (contents_of L) k)"
proof -
  have inv: "lsm_inv L (contents_of L)" "mt_wf (l_memtable L)" "2 \<le> l_numLevels L"
    using engine_inv [OF ok] ok by (simp_all add: engine_ok_def store_ok_def)
  have len: "2 \<le> length (l_levels L)" "l_levels L \<noteq> []" using inv(1,3) by (auto simp: lsm_inv_def)
  obtain s where L': "l_levels L' = (l_levels L)[0 := l_levels L ! 0 @ [s]]" "table_at (files_of L') s (mem_entries L)"
      "l_memtable L' = mt_New" "lsm_inv L' ((contents_of L)[0 := contents_of L ! 0 @ [mem_entries L]])"
    using fl unfolding flushed_def in_level0_def by blast
  have s: "cont s = mem_entries L" by (rule table_at_cont [OF L'(2)])
  have c': "contents_of L' = (contents_of L)[0 := contents_of L ! 0 @ [mem_entries L]]" using lsm_inv_contents [OF L'(4)] by simp
  have lv: "vers (l_levels L' ! 0) k = vers (l_levels L ! 0) k @ vers [s] k" "l_levels L' ! 1 = l_levels L ! 1"
      "drop 2 (l_levels L') = drop 2 (l_levels L)" "2 \<le> length (l_levels L')"
    using len by (auto simp: L'(1) nth_list_update)
  have mem: "vers [s] k = (case mt_Get (l_memtable L) k of None \<Rightarrow> [] | Some e \<Rightarrow> [e])"
    unfolding newest_mem [OF inv(2), symmetric]
    using strict_keys_versions [of "mem_entries L" k] mt_Entries_sorted [OF inv(2)] by (simp add: vers_def s mem_entries_def)
  have stored: "x \<in> stored_set L" if "x \<in> set (versions_of (stored_entries (contents_of L)) k)" for x
    using that by (simp add: stored_set_eq versions_of_def)
  have key: "e_key x = k" if "x \<in> set (versions_of (stored_entries (contents_of L)) k)" for x
    using that by (simp add: versions_of_def)
  show "in_order L' k"
    using ord fresh stored key
    by (cases "mt_Get (l_memtable L) k")
      (auto simp: in_order_def newest_first_def stored_vers [OF lv(4)] stored_vers [OF len(1)] lv lv(2) [unfolded One_nat_def] mem L'(3))
  have "newest (concat (contents_of L ! 0)) k = None" if "mt_Get (l_memtable L) k \<noteq> None"
    using fresh [OF that] len(2) by (simp add: newest_versions vers_def contents_of_def)
  then show "visible (look L' (contents_of L') k) = visible (look L (contents_of L) k)"
    unfolding c' flushed_look [OF inv(1) fl] using stored_split [of "contents_of L"] len(2)
    by (cases "mt_Get (l_memtable L) k")
      (auto simp: look_def visible_def newest_append contents_of_def split: option.splits)
qed

text \<open>
  What a flush must meet to keep the order: level 0 holds no key of the memtable,
  and if the new table makes level 0 so long that the flush compacts it at once,
  that compaction misses no overlap.
\<close>

definition flush_fits :: "kernel \<Rightarrow> lsm \<Rightarrow> bool" where
  "flush_fits kn L \<longleftrightarrow>
     (\<forall>s\<in>set (l_levels L ! 0). \<forall>x\<in>set (cont s). mt_Get (l_memtable L) (e_key x) = None)
     \<and> (let F = snd (flush_part os_ok kn L) in l_maxL0Files F * 2 < length (l_levels F ! 0) \<longrightarrow> no_overlap_missed F)"

lemma flush_order:
  assumes ok: "engine_ok L" and size: "at_most (4 * 2 ^ 20 + 2 ^ 17) L" and some: "mt_Count (l_memtable L) \<noteq> 0"
    and fits: "flush_fits kn L" and run: "flushMemtable os_ok kn L = (r, L')" and ord: "in_order L k" and k: "k \<noteq> []"
  shows "in_order L' k \<and> visible (look L' (contents_of L') k) = visible (look L (contents_of L) k)"
proof -
  obtain F where F: "flush_part os_ok kn L = (Inr (), F)"
      "flushed L (contents_of L) F ((contents_of L)[0 := contents_of L ! 0 @ [mem_entries L]])"
    using flush_part_engine [OF ok size] by blast
  have "vers (l_levels L ! 0) k = []" if "mt_Get (l_memtable L) k \<noteq> None"
    using fits that by (auto simp: flush_fits_def vers_def versions_of_def filter_empty_conv)
  note f = flushed_order [OF ok ord F(2) this]
  have st: "store_ok F" using flushed_store_ok(1) [OF ok F(2)] .
  have run': "(if l_maxL0Files F * 2 < length (l_levels F ! 0) then compactL0ToL1 os_ok F else (Inr (), F)) = (r, L')"
    using run unfolding flushMemtable_part [OF some] by (simp add: F(1) andthen_def)
  show ?thesis
  proof (cases "l_maxL0Files F * 2 < length (l_levels F ! 0)")
    case True
    then have "no_overlap_missed F" using fits by (simp add: flush_fits_def F(1))
    moreover have "compactL0ToL1 os_ok F = (Inr (), L')" using run' True compactL0ToL1_ok [OF st] by auto
    ultimately have "in_order L' k \<and> same_view k F L'" using l0_compaction_order [OF st _ k f(1)] by blast
    then show ?thesis using f(2) same_view_look by metis
  next
    case False
    with run' f show ?thesis by simp
  qed
qed

text \<open>A flush into an empty level 0 meets it.\<close>

lemma flush_fits_empty:
  assumes ok: "engine_ok L" and size: "at_most (4 * 2 ^ 20) L" and kvs: "small_batch kvs"
    and clock: "clock_ok now (length kvs) (all_set L)" and empty: "l_levels L ! 0 = []" and max: "0 < l_maxL0Files L"
  shows "flush_fits kn (snd (put_step os_ok kn now kvs L))"
proof -
  obtain L1 where L1: "put_step os_ok kn now kvs L = (Inr (), L1)" "engine_ok L1" "at_most (4 * 2 ^ 20 + 2 ^ 17) L1"
      "l_levels L1 = l_levels L" "l_maxL0Files L1 = l_maxL0Files L"
    using put_step_engine [OF ok size kvs clock, of kn] by blast
  obtain F where F: "flush_part os_ok kn L1 = (Inr (), F)"
      "flushed L1 (contents_of L1) F ((contents_of L1)[0 := contents_of L1 ! 0 @ [mem_entries L1]])"
    using flush_part_engine [OF L1(2,3)] by blast
  have "0 < length (l_levels L1)" using engine_inv [OF L1(2)] by (simp add: lsm_inv_def)
  then have "length (l_levels F ! 0) = 1" "l_maxL0Files F = l_maxL0Files L"
    using F(2) empty L1(4,5) unfolding flushed_def in_level0_def by auto
  then show ?thesis using max empty L1(1,4) by (simp add: flush_fits_def F(1))
qed

section \<open>The abstract map\<close>

type_synonym kv = "gostr \<Rightarrow> gostr option"

definition refines :: "lsm \<Rightarrow> kv \<Rightarrow> bool" where
  "refines L M \<longleftrightarrow> engine_ok L \<and> l_numLevels L \<le> 7
     \<and> (\<forall>k. k \<noteq> [] \<longrightarrow> in_order L k \<and> visible (look L (contents_of L) k) = M k)"

text \<open>
  A step of the engine with what it does to the map.  A batch is one step, with
  the flush it may cause and the compaction of level 0 the flush may run.
\<close>

inductive kv_step :: "kernel \<Rightarrow> lsm \<times> kv \<Rightarrow> lsm \<times> kv \<Rightarrow> bool" for kn where
  put: "\<lbrakk> kvs \<noteq> []; small_batch kvs; newer now (length kvs) L; at_most (4 * 2 ^ 20) L;
          l_flushThreshold L \<le> mt_Size (l_memtable (puts now kvs L)) \<longrightarrow> flush_fits kn (snd (put_step os_ok kn now kvs L));
          PutBatch os_ok kn now kvs L = (r, L') \<rbrakk>
        \<Longrightarrow> kv_step kn (L, M) (L', M ++ map_of (rev kvs))"
| delete: "\<lbrakk> length key \<le> 512; newer now 1 L; lsm_Delete os_ok kn now key L = (r, L') \<rbrakk>
        \<Longrightarrow> kv_step kn (L, M) (L', M(key := None))"
| get: "lsm_Get key L = (g, L') \<Longrightarrow> kv_step kn (L, M) (L', M)"
| compact: "\<lbrakk> l_maxL0Files L < length (l_levels L ! 0) \<longrightarrow> no_overlap_missed L; compaction_tick os_ok L = (r, L') \<rbrakk>
        \<Longrightarrow> kv_step kn (L, M) (L', M)"

lemma compacts_engine:
  assumes "engine_ok L" "compacts L L'"
  shows "engine_ok L'"
  using assms by (simp add: engine_ok_def compacts_def wal_ready_def mem_entries_def)

lemma refines_put:
  assumes ref: "refines L M" and kvs: "kvs \<noteq> []" "small_batch kvs" and clock: "newer now (length kvs) L"
    and size: "at_most (4 * 2 ^ 20) L"
    and fits: "l_flushThreshold L \<le> mt_Size (l_memtable (puts now kvs L)) \<longrightarrow> flush_fits kn (snd (put_step os_ok kn now kvs L))"
    and put: "PutBatch os_ok kn now kvs L = (r, L')"
  shows "refines L' (M ++ map_of (rev kvs))"
proof -
  have ok: "engine_ok L" "l_numLevels L \<le> 7" using ref by (simp_all add: refines_def)
  have k: "in_order L k" "visible (look L (contents_of L) k) = M k" if "k \<noteq> []" for k
    using ref that by (simp_all add: refines_def)
  have map: "(case map_of (rev kvs) k of Some v \<Rightarrow> Some v | None \<Rightarrow> M k) = (M ++ map_of (rev kvs)) k" for k
    by (simp add: map_add_def split: option.splits)
  obtain L1 where L1: "put_step os_ok kn now kvs L = (Inr (), L1)" "engine_ok L1" "at_most (4 * 2 ^ 20 + 2 ^ 17) L1"
      "l_memtable L1 = replay_into (put_entries now kvs) (l_memtable L)" "l_levels L1 = l_levels L"
      "l_numLevels L1 = l_numLevels L" "l_flushThreshold L1 = l_flushThreshold L"
    using put_step_engine [OF ok(1) size kvs(2) newer_clock [OF clock], of kn] by blast
  have w: "in_order L1 k \<and> visible (look L1 (contents_of L1) k) = (M ++ map_of (rev kvs)) k" if "k \<noteq> []" for k
    using write_order [OF k(1) [OF that] clock L1(5,4)] k(2) [OF that] unfolding map [symmetric] by (simp cong: option.case_cong)
  show ?thesis
  proof (cases "l_flushThreshold L \<le> mt_Size (l_memtable (puts now kvs L))")
    case True
    have fl: "flushMemtable os_ok kn L1 = (r, L')"
      using put True L1(4,7) by (simp add: PutBatch_step [OF kvs(1)] andthen_def L1(1) puts_def)
    have "flush_fits kn L1" using fits True by (simp add: L1(1))
    moreover have "mt_Count (l_memtable L1) \<noteq> 0" unfolding L1(4) by (rule written_count [OF kvs(1)])
    ultimately have "in_order L' k \<and> visible (look L' (contents_of L') k) = (M ++ map_of (rev kvs)) k" if "k \<noteq> []" for k
      using flush_order [OF L1(2,3) _ _ fl _ that] w [OF that] by simp
    moreover have "engine_ok L'" "l_numLevels L' = l_numLevels L1" using flush_ok [OF L1(2,3), of kn] fl by auto
    ultimately show ?thesis using ok(2) L1(6) by (simp add: refines_def)
  next
    case False
    then have "L' = L1" using put L1(4,7) by (simp add: PutBatch_step [OF kvs(1)] andthen_def L1(1) puts_def)
    then show ?thesis using w L1(2,6) ok(2) by (simp add: refines_def)
  qed
qed

lemma refines_delete:
  assumes ref: "refines L M" and "length key \<le> 512" and clock: "newer now 1 L"
    and del: "lsm_Delete os_ok kn now key L = (r, L')"
  shows "refines L' (M(key := None))"
proof -
  have ok: "engine_ok L" "l_numLevels L \<le> 7" using ref by (simp_all add: refines_def)
  have inv: "lsm_inv L (contents_of L)" "wal_ready L" using engine_inv [OF ok(1)] ok(1) by (simp_all add: engine_ok_def)
  have L': "l_levels L' = l_levels L" "l_memtable L' = mt_Delete (l_memtable L) key now"
    using lsm_Delete_ok [OF inv, of kn now key] del by auto
  have "engine_ok L'" "l_numLevels L' = l_numLevels L"
    using Delete_ok [OF ok(1) assms(2) newer_clock [OF clock], of kn] del by auto
  then show ?thesis using ref delete_order [OF _ clock L'] ok(2) by (simp add: refines_def)
qed

lemma refines_compact:
  assumes ref: "refines L M" and all: "l_maxL0Files L < length (l_levels L ! 0) \<longrightarrow> no_overlap_missed L"
    and tick: "compaction_tick os_ok L = (r, L')"
  shows "refines L' M"
proof -
  have ok: "engine_ok L" "l_numLevels L \<le> 7" and st: "store_ok L" using ref by (simp_all add: refines_def engine_ok_def)
  obtain b L1 where L1: "level_move\<^sup>*\<^sup>* L1 L'" "compacts L L1"
      "L1 = L\<lparr>l_compactCh := b\<rparr>
       \<or> l_maxL0Files L < length (l_levels L ! 0) \<and> compactL0ToL1 os_ok (L\<lparr>l_compactCh := b\<rparr>) = (Inr (), L1)"
    using compaction_tick_moves [OF st] tick by auto
  have st1: "store_ok L1" "l_numLevels L1 = l_numLevels L" using L1(2) by (simp_all add: compacts_def)
  have first: "in_order L1 k \<and> same_view k L L1" if k: "k \<noteq> []" and ord: "in_order L k" for k
    using L1(3)
  proof
    assume "L1 = L\<lparr>l_compactCh := b\<rparr>"
    then show ?thesis using ord by (auto simp: in_order_def same_view_def contents_of_def stored_set_def)
  next
    let ?L = "L\<lparr>l_compactCh := b\<rparr>"
    assume l0: "l_maxL0Files L < length (l_levels L ! 0) \<and> compactL0ToL1 os_ok ?L = (Inr (), L1)"
    have ins: "l0_inputs ?L = l0_inputs L" "l1_rest ?L = l1_rest L"
      by (simp_all add: l0_inputs_def l1_rest_def)
    have "in_order ?L k" "no_overlap_missed ?L"
      using ord all l0 by (simp_all add: in_order_def no_overlap_missed_def contents_of_def stored_set_def ins)
    moreover have "store_ok ?L" using st by (simp add: compacts_ch)
    ultimately show ?thesis using l0_compaction_order [of ?L L1 k] l0 k by (simp add: same_view_def contents_of_def)
  qed
  have "compacts L L'" using compacts_trans [OF L1(2) level_moves_compacts [OF L1(1) st1(1)]] .
  then have "engine_ok L'" "l_numLevels L' = l_numLevels L" using compacts_engine [OF ok(1)] by (simp_all add: compacts_def)
  moreover have "in_order L' k \<and> visible (look L' (contents_of L') k) = M k" if k: "k \<noteq> []" for k
  proof -
    have "in_order L k" "visible (look L (contents_of L) k) = M k" using ref k by (simp_all add: refines_def)
    moreover from first [OF k this(1)] have f: "in_order L1 k" "same_view k L L1" by simp_all
    moreover have "in_order L' k \<and> same_view k L1 L'"
      by (rule level_moves_order [OF L1(1) _ k f(1)]) (simp add: st1(2) ok(2))
    ultimately show ?thesis using same_view_look by metis
  qed
  ultimately show ?thesis using ok(2) by (simp add: refines_def)
qed

section \<open>The contract of a store that implements a map\<close>

locale map_store =
  fixes R :: "'s \<Rightarrow> kv \<Rightarrow> bool"
    and step :: "'s \<times> kv \<Rightarrow> 's \<times> kv \<Rightarrow> bool"
    and get :: "gostr \<Rightarrow> 's \<Rightarrow> gostr option res \<times> 's"
    and ready :: "'s \<Rightarrow> gostr \<Rightarrow> bool"
  assumes step_R: "R s M \<Longrightarrow> step (s, M) (s', M') \<Longrightarrow> R s' M'"
    and get_R: "R s M \<Longrightarrow> ready s k \<Longrightarrow> fst (get k s) = Inr (M k)"
begin

lemma run_R: "step\<^sup>*\<^sup>* (s, M) (s', M') \<Longrightarrow> R s M \<Longrightarrow> R s' M'"
  by (induction rule: rtranclp_induct2) (auto intro: step_R)

lemma run_get: "R s M \<Longrightarrow> step\<^sup>*\<^sup>* (s, M) (s', M') \<Longrightarrow> ready s' k \<Longrightarrow> fst (get k s') = Inr (M' k)"
  using run_R get_R by blast

end

inductive_cases kv_stepE: "kv_step kn (L, M) (L', M')"

lemma refines_get:
  assumes "refines L M" "lsm_Get key L = (g, L')"
  shows "refines L' M"
proof -
  have s: "same_but_stats L L'" using lsm_Get_stats [OF assms(2)] .
  have "contents_of L' = contents_of L" "l_levels L' = l_levels L" "stored_set L' = stored_set L"
    using s by (auto simp: same_but_stats_def upd_stats_def contents_of_def stored_set_def)
  then show ?thesis using assms(1) same_but_stats_engine [OF s] by (simp add: refines_def in_order_def look_def)
qed

lemma kv_step_refines: "refines L M \<Longrightarrow> kv_step kn (L, M) (L', M') \<Longrightarrow> refines L' M'"
  by (erule kv_stepE) (auto intro: refines_put refines_delete refines_get refines_compact)

interpretation kv: map_store refines "kv_step kn" lsm_Get "\<lambda>L k. k \<noteq> [] \<and> clean_for L k" for kn
proof
  fix L M k assume R: "refines L M" and k: "k \<noteq> [] \<and> clean_for L k"
  then have "engine_ok L" by (simp add: refines_def)
  then obtain L' where "lsm_Get k L = (Inr (visible (look L (contents_of L) k)), L')"
    using lsm_Get_look [of L "contents_of L" k] engine_inv k by blast
  then show "fst (lsm_Get k L) = Inr (M k)" using R k by (simp add: refines_def)
qed (rule kv_step_refines)

lemma refines_empty:
  assumes "engine_ok L" "l_numLevels L \<le> 7" "all_set L = {}"
  shows "refines L Map.empty"
proof -
  have inv: "lsm_inv L (contents_of L)" "mt_wf (l_memtable L)" using engine_inv [OF assms(1)] by simp_all
  have st: "stored_set L = {}" "mem_entries L = []" using assms(3) by (simp_all add: all_set_def)
  have "mt_Get (l_memtable L) k = None" for k using newest_mem [OF inv(2), of k] st(2) by (simp add: newest_def)
  moreover have "versions_of (stored_entries (contents_of L)) k = []" for k
    using st(1) by (simp add: stored_set_eq versions_of_def)
  moreover have "2 \<le> length (l_levels L)"
    using assms(1) inv(1) by (simp add: engine_ok_def store_ok_def lsm_inv_def)
  ultimately show ?thesis using assms(1,2)
    by (auto simp: refines_def in_order_def newest_first_def look_def newest_versions visible_def stored_vers)
qed

end
