(* ===== verification/RunReads.thy ===== *)
theory RunReads
  imports Refine
begin

text \<open>
  What the reads of a run can return, with no condition on its flushes and
  compactions: a value that was written for the key, and the value itself when
  every version written of the key has it.
\<close>

lemma look_stored:
  assumes "mt_wf (l_memtable L)"
  shows "look L (contents_of L) k = Some e \<Longrightarrow> e \<in> all_set L \<and> e_key e = k"
    and "look L (contents_of L) k = None \<Longrightarrow> a \<in> all_set L \<Longrightarrow> e_key a \<noteq> k"
proof -
  have mem: "mt_Get (l_memtable L) k = newest (mem_entries L) k" using newest_mem [OF assms] by simp
  show "e \<in> all_set L \<and> e_key e = k" if "look L (contents_of L) k = Some e"
    using that unfolding look_def mem all_set_def stored_set_eq
    by (auto split: option.splits dest: newest_SomeD)
  show "e_key a \<noteq> k" if "look L (contents_of L) k = None" "a \<in> all_set L"
    using that unfolding look_def mem all_set_def stored_set_eq
    by (auto simp: newest_None split: option.splits)
qed

lemma run_get_look:
  assumes "engine_inv_for n d (L, W)" "clean_for L k"
  shows "\<exists>L'. lsm_Get k L = (Inr (visible (look L (contents_of L) k)), L') \<and> same_but_stats L L'"
    and "mt_wf (l_memtable L)" and "all_set L \<subseteq> W"
proof -
  have "engine_ok L" using assms(1) by (simp add: engine_inv_for_def)
  then show "mt_wf (l_memtable L)" "\<exists>L'. lsm_Get k L = (Inr (visible (look L (contents_of L) k)), L') \<and> same_but_stats L L'"
    using engine_inv [of L] lsm_Get_look [OF _ assms(2)] by blast+
  show "all_set L \<subseteq> W" using assms(1) by (auto simp: engine_inv_for_def outlives_def)
qed

text \<open>A read never makes a value up.\<close>

lemma reads_written:
  assumes inv: "engine_inv_for n d (L, W)" and clean: "clean_for L k" and got: "fst (lsm_Get k L) = Inr (Some v)"
  shows "\<exists>e\<in>W. e_key e = k \<and> e_val e = v \<and> \<not> e_tomb e"
proof -
  note r = run_get_look [OF inv clean]
  have "visible (look L (contents_of L) k) = Some v" using r(1) got by auto
  then obtain e where "look L (contents_of L) k = Some e" "answer e = Some v"
    by (auto simp: visible_def split: option.splits)
  moreover from look_stored(1) [OF r(2) this(1)] r(3) have "e \<in> W" "e_key e = k" by auto
  ultimately show ?thesis by (auto simp: answer_def split: if_splits)
qed

lemma reads_unwritten:
  assumes inv: "engine_inv_for n d (L, W)" and clean: "clean_for L k" and none: "\<forall>e\<in>W. e_key e = k \<longrightarrow> e_tomb e"
  shows "fst (lsm_Get k L) = Inr None"
proof -
  note r = run_get_look [OF inv clean]
  have "visible (look L (contents_of L) k) = None"
    using look_stored(1) [OF r(2), of k] r(3) none
    by (auto simp: visible_def answer_def split: option.splits)
  with r(1) show ?thesis by auto
qed

text \<open>A key that was written and never deleted is found.\<close>

lemma reads_live:
  assumes inv: "engine_inv_for n d (L, W)" and clean: "clean_for L k" and k: "k \<noteq> []"
    and e: "e \<in> W" "e_key e = k" and live: "\<forall>e\<in>W. e_key e = k \<longrightarrow> \<not> e_tomb e"
  shows "\<exists>a\<in>W. e_key a = k \<and> fst (lsm_Get k L) = Inr (Some (e_val a))"
proof -
  note r = run_get_look [OF inv clean]
  have "outlives (7 \<le> n) W (all_set L)" using inv by (simp add: engine_inv_for_def)
  then obtain e' where "e' \<in> W" "e_key e' = k" "e' \<in> all_set L \<or> e_tomb e'"
    using e k unfolding outlives_def by blast
  then have "e' \<in> all_set L" "e_key e' = k" using live by auto
  then obtain a where a: "look L (contents_of L) k = Some a"
    using look_stored(2) [OF r(2), of k e'] by (cases "look L (contents_of L) k") auto
  then have "a \<in> W" "e_key a = k" using look_stored(1) [OF r(2)] r(3) by auto
  moreover have "\<not> e_tomb a" using live \<open>a \<in> W\<close> \<open>e_key a = k\<close> by simp
  ultimately show ?thesis using r(1) a by (auto simp: visible_def answer_def)
qed

text \<open>What a read may answer when the entries \<open>W\<close> have been written.\<close>

definition read_sound :: "entry set \<Rightarrow> gostr \<Rightarrow> goerr + gostr option \<Rightarrow> bool" where
  "read_sound W k r \<longleftrightarrow>
     (\<exists>e\<in>W. e_key e = k \<and> \<not> e_tomb e \<and> r = Inr (Some (e_val e)))
     \<or> r = Inr None \<and> (k = [] \<or> (\<forall>e\<in>W. e_key e \<noteq> k) \<or> (\<exists>e\<in>W. e_key e = k \<and> e_tomb e))"

lemma engine_reads_sound:
  assumes inv: "engine_inv_for n d (L, W)" and clean: "clean_for L k"
  shows "read_sound W k (fst (lsm_Get k L))"
proof -
  obtain r where r: "fst (lsm_Get k L) = Inr r" using run_get_look(1) [OF inv clean] by auto
  show ?thesis
  proof (cases r)
    case None
    then show ?thesis using reads_live [OF inv clean] r by (auto simp: read_sound_def)
  next
    case (Some v)
    then show ?thesis using reads_written [OF inv clean] r by (auto simp: read_sound_def)
  qed
qed

end
