(* ===== verification/Loader.thy ===== *)
theory Loader
  imports RunReads
begin

text \<open>
  The loops of the benchmark programs over an engine: \<open>bench/compare/compare.go\<close>,
  \<open>cmd/lsmdemo/main.go\<close> and \<open>cmd/profile/main.go\<close> load pairs in batches and read
  keys; the times they measure are not modelled.  The clock gives the time of
  the \<open>i\<close>-th batch, and \<open>bg i\<close> is the number of rounds the background goroutine
  has made before it.
\<close>

section \<open>Batching\<close>

text \<open>
  The loop of all three programs: \<open>put\<close> takes each full batch, \<open>rest\<close> what is left
  over at the end, and \<open>i\<close> counts the batches.
\<close>

fun load_loop :: "(nat \<Rightarrow> 'a list \<Rightarrow> (unit, 's) prog) \<Rightarrow> (nat \<Rightarrow> 'a list \<Rightarrow> (unit, 's) prog) \<Rightarrow>
    nat \<Rightarrow> nat \<Rightarrow> 'a list \<Rightarrow> 'a list \<Rightarrow> (unit, 's) prog" where
  "load_loop put rest n i batch [] = (if batch \<noteq> [] then rest i batch else ret ())"
| "load_loop put rest n i batch (kv # kvs) =
     (let batch1 = batch @ [kv] in
      if n \<le> length batch1 then andthen (put i batch1) (\<lambda>_. load_loop put rest n (Suc i) [] kvs)
      else load_loop put rest n i batch1 kvs)"

text \<open>The reference: the list cut into batches, and one call for each.\<close>

function batches :: "nat \<Rightarrow> 'a list \<Rightarrow> 'a list list" where
  "batches n xs = (if xs = [] \<or> n = 0 then [] else take n xs # batches n (drop n xs))"
  by pat_completeness auto
termination
  by (relation "measure (\<lambda>(n, xs). length xs)") auto

declare batches.simps [simp del]

lemma batches_Nil [simp]: "batches n [] = []"
  by (simp add: batches.simps)

fun run_all :: "(nat \<Rightarrow> 'b \<Rightarrow> (unit, 's) prog) \<Rightarrow> nat \<Rightarrow> 'b list \<Rightarrow> (unit, 's) prog" where
  "run_all put i [] = ret ()"
| "run_all put i (b # bs) = andthen (put i b) (\<lambda>_. run_all put (Suc i) bs)"

lemma load_loop_batches:
  "length batch < n \<Longrightarrow> load_loop put put n i batch kvs s = run_all put i (batches n (batch @ kvs)) s"
proof (induction kvs arbitrary: batch i s)
  case Nil
  then show ?case by (auto simp: batches.simps [of n batch] andthen_def ret_def split: prod.splits sum.splits)
next
  case (Cons kv kvs)
  show ?case
  proof (cases "n \<le> length (batch @ [kv])")
    case True
    then have n: "n = length (batch @ [kv])" using Cons.prems by simp
    then have "batches n (batch @ kv # kvs) = (batch @ [kv]) # batches n kvs"
      using Cons.prems by (subst batches.simps) auto
    moreover have "load_loop put put n (Suc i) [] kvs s' = run_all put (Suc i) (batches n kvs) s'" for s'
      using Cons.IH [of "[]"] Cons.prems by simp
    ultimately show ?thesis using True by (simp add: Let_def andthen_def split: prod.splits sum.splits)
  next
    case False
    then show ?thesis using Cons.IH [of "batch @ [kv]"] by (simp add: Let_def)
  qed
qed

lemma concat_batches [simp]: "0 < n \<Longrightarrow> concat (batches n xs) = xs"
proof (induction n xs rule: batches.induct)
  case (1 n xs)
  then show ?case by (subst batches.simps) auto
qed

lemma batches_length: "b \<in> set (batches n xs) \<Longrightarrow> b \<noteq> [] \<and> length b \<le> n"
proof (induction n xs rule: batches.induct)
  case (1 n xs)
  then show ?case by (subst (asm) (2) batches.simps) (auto split: if_splits)
qed

section \<open>The programs\<close>

text \<open>\<open>Sprintf("key-%08d", i)\<close>, \<open>Sprintf("val-%08d", i)\<close>, \<open>Sprintf("missing-%08d", i)\<close>.\<close>

definition bench_key :: "nat \<Rightarrow> gostr" where
  "bench_key i = [107, 101, 121, 45] @ fmt_08d (int i)"

definition bench_val :: "nat \<Rightarrow> gostr" where
  "bench_val i = [118, 97, 108, 45] @ fmt_08d (int i)"

definition missing_key :: "nat \<Rightarrow> gostr" where
  "missing_key i = [109, 105, 115, 115, 105, 110, 103, 45] @ fmt_08d (int i)"

text \<open>Rounds of the background goroutine, then a batch.\<close>

fun rounds :: "os \<Rightarrow> nat \<Rightarrow> (unit, lsm) prog" where
  "rounds os 0 = ret ()"
| "rounds os (Suc n) = andthen (compaction_tick os) (\<lambda>_. rounds os n)"

definition put_call :: "os \<Rightarrow> kernel \<Rightarrow> (nat \<Rightarrow> i64) \<Rightarrow> (nat \<Rightarrow> nat) \<Rightarrow> nat \<Rightarrow> (gostr \<times> gostr) list \<Rightarrow> (unit, lsm) prog" where
  "put_call os k now bg i kvs = andthen (rounds os (bg i)) (\<lambda>_. PutBatch os k (now i) kvs)"

definition seq_pairs :: "nat \<Rightarrow> (gostr \<times> gostr) list" where
  "seq_pairs N = map (\<lambda>i. (bench_key i, bench_val i)) [0..<N]"

text \<open>\<open>rs\<close> are the results of \<open>rand.Intn(N)\<close>; the values of \<open>compare.go\<close> continue at \<open>N\<close>.\<close>

definition rnd_pairs :: "nat \<Rightarrow> nat list \<Rightarrow> (gostr \<times> gostr) list" where
  "rnd_pairs off rs = map2 (\<lambda>i r. (bench_key r, bench_val (i + off))) [0..<length rs] rs"

text \<open>\<open>compare.go\<close> drops the error of every batch.\<close>

definition runLSMSeq :: "os \<Rightarrow> kernel \<Rightarrow> (nat \<Rightarrow> i64) \<Rightarrow> (nat \<Rightarrow> nat) \<Rightarrow> nat \<Rightarrow> (unit, lsm) prog" where
  "runLSMSeq os k now bg N =
     (let put = (\<lambda>i b. attempt (put_call os k now bg i b)) in load_loop put put 1000 0 [] (seq_pairs N))"

definition runLSMRnd :: "os \<Rightarrow> kernel \<Rightarrow> (nat \<Rightarrow> i64) \<Rightarrow> (nat \<Rightarrow> nat) \<Rightarrow> nat \<Rightarrow> nat list \<Rightarrow> (unit, lsm) prog" where
  "runLSMRnd os k now bg N rs =
     (let put = (\<lambda>i b. attempt (put_call os k now bg i b)) in load_loop put put 1000 0 [] (rnd_pairs N rs))"

text \<open>The results and errors of the reads are dropped.\<close>

fun read_all :: "gostr list \<Rightarrow> (unit, lsm) prog" where
  "read_all [] = ret ()"
| "read_all (key # keys) = andthen (attempt (andthen (lsm_Get key) (\<lambda>_. ret ()))) (\<lambda>_. read_all keys)"

definition runLSMRead :: "nat list \<Rightarrow> (unit, lsm) prog" where
  "runLSMRead rs = read_all (map bench_key rs)"

definition runLSMMiss :: "nat list \<Rightarrow> (unit, lsm) prog" where
  "runLSMMiss rs = read_all (map missing_key rs)"

text \<open>\<open>lsmdemo\<close> stops at the first error of a full batch and drops the error of the last one.\<close>

definition demo_load :: "os \<Rightarrow> kernel \<Rightarrow> (nat \<Rightarrow> i64) \<Rightarrow> (nat \<Rightarrow> nat) \<Rightarrow> (gostr \<times> gostr) list \<Rightarrow> (unit, lsm) prog" where
  "demo_load os k now bg kvs =
     load_loop (put_call os k now bg) (\<lambda>i b. attempt (put_call os k now bg i b)) 1000 0 [] kvs"

text \<open>\<open>profile\<close> drops errors and has no last batch.\<close>

definition profile_load :: "os \<Rightarrow> kernel \<Rightarrow> (nat \<Rightarrow> i64) \<Rightarrow> (nat \<Rightarrow> nat) \<Rightarrow> nat \<Rightarrow> (unit, lsm) prog" where
  "profile_load os k now bg N =
     load_loop (\<lambda>i b. attempt (put_call os k now bg i b)) (\<lambda>_ _. ret ()) 1000 0 [] (seq_pairs N)"

text \<open>The three runs of \<open>compare.go\<close> on an engine of their own, up to its closing.\<close>

definition bench_opts :: "sync_mode \<Rightarrow> bool \<Rightarrow> options" where
  "bench_opts mode nowal = \<lparr>op_FlushThreshold = 4 * 2 ^ 20, op_NumLevels = 0, op_WALSyncMode = mode, op_NoWAL = nowal\<rparr>"


section \<open>Keys\<close>

lemma dec_length: "n < 10 ^ Suc m \<Longrightarrow> length (dec n) \<le> Suc m"
proof (induction m arbitrary: n)
  case (Suc m)
  then have "n div 10 < 10 ^ Suc m" by (simp add: less_mult_imp_div_less)
  from Suc.IH [OF this] show ?case by (subst dec.simps) simp
qed (simp add: dec.simps)

text \<open>Eight digits are enough for the indices of the programs.\<close>

lemma fmt_08d_length: "n < 10 ^ 8 \<Longrightarrow> length (fmt_08d (int n)) = 8"
  using dec_length [of n 7] by (simp add: fmt_08d_def pad0_def)

lemma bench_lengths:
  assumes "i < 10 ^ 8"
  shows "length (bench_key i) = 12" "length (bench_val i) = 12"
proof -
  note n = fmt_08d_length [OF assms]
  show "length (bench_key i) = 12" unfolding bench_key_def length_append n by simp
  show "length (bench_val i) = 12" unfolding bench_val_def length_append n by simp
qed

lemma bench_key_inj: "bench_key i = bench_key j \<Longrightarrow> i = j"
proof -
  assume "bench_key i = bench_key j"
  then have "undec (fmt_08d (int i)) = undec (fmt_08d (int j))" by (simp add: bench_key_def)
  then show "i = j" unfolding fmt_08d_nonneg [OF of_nat_0_le_iff] by simp
qed

lemma missing_not_key: "missing_key i \<noteq> bench_key j" "bench_key j \<noteq> []" "missing_key i \<noteq> []"
  by (simp_all add: bench_key_def missing_key_def)

definition short_pairs :: "(gostr \<times> gostr) list \<Rightarrow> bool" where
  "short_pairs kvs \<longleftrightarrow> (\<forall>(k, v)\<in>set kvs. length k \<le> 32 \<and> length v \<le> 32)"

lemma bench_short: "i < 10 ^ 8 \<Longrightarrow> length (bench_key i) \<le> 32 \<and> length (bench_val i) \<le> 32"
  by (simp only: bench_lengths) simp

lemma short_pairs_seq: "N \<le> 10 ^ 8 \<Longrightarrow> short_pairs (seq_pairs N)"
proof -
  assume N: "N \<le> 10 ^ 8"
  have "length (bench_key i) \<le> 32 \<and> length (bench_val i) \<le> 32" if "i < N" for i
    by (rule bench_short, rule less_le_trans [OF that N])
  then show ?thesis unfolding short_pairs_def seq_pairs_def by simp
qed

lemma rnd_pairs_nth:
  "set (rnd_pairs off rs) = {(bench_key (rs ! i), bench_val (i + off)) | i. i < length rs}"
  by (force simp: rnd_pairs_def set_zip)

lemma short_pairs_rnd:
  assumes "\<forall>r\<in>set rs. r < 10 ^ 8" "length rs + off \<le> 10 ^ 8"
  shows "short_pairs (rnd_pairs off rs)"
proof -
  have "length (bench_key (rs ! i)) \<le> 32 \<and> length (bench_val (i + off)) \<le> 32" if i: "i < length rs" for i
  proof -
    have "i + off < 10 ^ 8" by (rule less_le_trans [OF _ assms(2)]) (use i in simp)
    moreover have "rs ! i < 10 ^ 8" using assms(1) nth_mem [OF i] by blast
    ultimately show ?thesis using bench_short by blast
  qed
  then show ?thesis unfolding short_pairs_def rnd_pairs_nth by blast
qed

lemma small_short: "short_pairs kvs \<Longrightarrow> length kvs \<le> 1000 \<Longrightarrow> small_batch kvs"
proof -
  assume s: "short_pairs kvs" and n: "length kvs \<le> 1000"
  have "put_estimate kvs \<le> 80 * int (length kvs)"
    using s by (induction kvs) (auto simp: put_estimate_def short_pairs_def)
  then show ?thesis using s n by (auto simp: small_batch_def short_pairs_def)
qed

section \<open>Loading\<close>

text \<open>Every batch is a thousand nanoseconds after the one before.\<close>

definition clock_runs :: "(nat \<Rightarrow> i64) \<Rightarrow> nat \<Rightarrow> bool" where
  "clock_runs now n \<longleftrightarrow> (\<forall>i<n. sint (now i) + 1000 < 2 ^ 63 \<and> (\<forall>j<i. sint (now j) + 1000 \<le> sint (now i)))"

text \<open>What a load adds to the entries written.\<close>

definition adds :: "(gostr \<times> gostr) list \<Rightarrow> entry set \<Rightarrow> entry set \<Rightarrow> bool" where
  "adds kvs W W' \<longleftrightarrow> W \<subseteq> W' \<and> (\<forall>e\<in>W' - W. \<not> e_tomb e \<and> (e_key e, e_val e) \<in> set kvs)
     \<and> (\<forall>(k, v)\<in>set kvs. \<exists>e\<in>W'. \<not> e_tomb e \<and> e_key e = k \<and> e_val e = v)"

lemma adds_refl: "adds [] W W"
  by (simp add: adds_def)

lemma adds_trans: "adds as W W1 \<Longrightarrow> adds bs W1 W2 \<Longrightarrow> adds (as @ bs) W W2"
  unfolding adds_def by fastforce

lemma adds_entries: "adds kvs W (W \<union> set (put_entries t kvs))"
proof -
  have "(k, v) \<in> set kvs \<longleftrightarrow> (\<exists>e\<in>set (put_entries t kvs). \<not> e_tomb e \<and> e_key e = k \<and> e_val e = v)" for k v
    by (induction t kvs rule: put_entries.induct) auto
  moreover have "\<not> e_tomb e \<and> (e_key e, e_val e) \<in> set kvs" if "e \<in> set (put_entries t kvs)" for e
    using that by (induction t kvs rule: put_entries.induct) auto
  ultimately show ?thesis unfolding adds_def by blast
qed

lemma put_entries_before:
  assumes "sint t + int (length kvs) < 2 ^ 63" "e \<in> set (put_entries t kvs)"
  shows "sint (e_ts e) < sint t + int (length kvs)"
proof -
  obtain i where "i < length kvs" "e = put_entries t kvs ! i" using assms(2) by (metis in_set_conv_nth length_put_entries)
  then show ?thesis using assms(1) by (simp add: put_entries_nth sint_add_small)
qed

lemma rounds_run:
  "engine_ok L \<Longrightarrow> \<exists>L'. rounds os_ok n L = (Inr (), L') \<and> engine_ok L'
     \<and> (engine_step kn)\<^sup>*\<^sup>* (L, W) (L', W) \<and> l_memtable L' = l_memtable L"
proof (induction n arbitrary: L)
  case 0
  then show ?case by (simp add: ret_def)
next
  case (Suc n)
  obtain L1 where L1: "compaction_tick os_ok L = (Inr (), L1)" "engine_ok L1" "l_memtable L1 = l_memtable L"
    using engine_tick [OF Suc.prems] by blast
  then have "engine_step kn (L, W) (L1, W)" by (intro engine_step.compact)
  moreover obtain L' where "rounds os_ok n L1 = (Inr (), L')" "engine_ok L'" "l_memtable L' = l_memtable L1"
      "(engine_step kn)\<^sup>*\<^sup>* (L1, W) (L', W)"
    using Suc.IH [OF L1(2)] by blast
  ultimately show ?case using L1 by (auto simp: andthen_def intro: converse_rtranclp_into_rtranclp)
qed


lemma put_call_run:
  assumes inv: "engine_inv_for n d (L, W)" and size: "at_most (4 * 2 ^ 20) L"
    and b: "b \<noteq> []" "short_pairs b" "length b \<le> 1000"
    and clock: "sint (now i) + 1000 < 2 ^ 63" "\<forall>a\<in>W. sint (e_ts a) \<le> sint (now i)"
  shows "\<exists>L'. put_call os_ok kn now bg i b L = (Inr (), L') \<and> at_most (4 * 2 ^ 20) L'
     \<and> (engine_step kn)\<^sup>*\<^sup>* (L, W) (L', W \<union> set (put_entries (now i) b))"
proof -
  have "engine_ok L" using inv by (simp add: engine_inv_for_def)
  then obtain L1 where L1: "rounds os_ok (bg i) L = (Inr (), L1)" "(engine_step kn)\<^sup>*\<^sup>* (L, W) (L1, W)"
      "l_memtable L1 = l_memtable L"
    using rounds_run [of L "bg i" kn W] by blast
  have inv1: "engine_ok L1" "all_set L1 \<subseteq> W"
    using engine_run_inv [OF L1(2) inv] by (auto simp: engine_inv_for_def outlives_def)
  have size1: "at_most (4 * 2 ^ 20) L1" using size L1(3) by (simp add: at_most_def)
  have small: "small_batch b" by (rule small_short [OF b(2,3)])
  have cw: "clock_ok (now i) (length b) W" using clock b(3) by (simp add: clock_ok_def)
  obtain L' where L': "PutBatch os_ok kn (now i) b L1 = (Inr (), L')" "at_most (4 * 2 ^ 20) L'"
    using PutBatch_ok [OF inv1(1) size1 b(1) small clock_ok_mono [OF cw inv1(2)], of kn] by blast
  have "engine_step kn (L1, W) (L', W \<union> set (put_entries (now i) b))"
    by (rule engine_step.put [OF small cw size1 L'(1)])
  then show ?thesis using L1(1,2) L' by (auto simp: put_call_def andthen_def)
qed

lemma load_run:
  assumes "engine_inv_for n d (L, W)" "at_most (4 * 2 ^ 20) L"
    and "\<forall>b\<in>set bs. b \<noteq> [] \<and> short_pairs b \<and> length b \<le> 1000"
    and "clock_runs now (i + length bs)" "\<forall>a\<in>W. \<forall>j. i \<le> j \<and> j < i + length bs \<longrightarrow> sint (e_ts a) \<le> sint (now j)"
  shows "\<exists>L' W'. run_all (put_call os_ok kn now bg) i bs L = (Inr (), L') \<and> at_most (4 * 2 ^ 20) L'
     \<and> (engine_step kn)\<^sup>*\<^sup>* (L, W) (L', W') \<and> adds (concat bs) W W'
     \<and> (\<forall>a\<in>W'. a \<in> W \<or> (\<exists>j. i \<le> j \<and> j < i + length bs \<and> sint (e_ts a) < sint (now j) + 1000))"
  using assms
proof (induction bs arbitrary: i L W)
  case Nil
  then show ?case using adds_refl by (auto simp: ret_def)
next
  case (Cons b bs)
  have b: "b \<noteq> []" "short_pairs b" "length b \<le> 1000" using Cons.prems(3) by simp_all
  have i: "sint (now i) + 1000 < 2 ^ 63" "\<forall>a\<in>W. sint (e_ts a) \<le> sint (now i)"
    using Cons.prems(4,5) by (simp_all add: clock_runs_def)
  let ?W = "W \<union> set (put_entries (now i) b)"
  obtain L1 where L1: "put_call os_ok kn now bg i b L = (Inr (), L1)" "at_most (4 * 2 ^ 20) L1"
      "(engine_step kn)\<^sup>*\<^sup>* (L, W) (L1, ?W)"
    using put_call_run [where now = now and i = i, OF Cons.prems(1,2) b i] by blast
  have inv1: "engine_inv_for n d (L1, ?W)" by (rule engine_run_inv [OF L1(3) Cons.prems(1)])
  have new: "sint (e_ts a) < sint (now i) + 1000" if "a \<in> set (put_entries (now i) b)" for a
    using put_entries_before [OF _ that] b(3) i(1) by simp
  have "sint (e_ts a) \<le> sint (now j)" if a: "a \<in> ?W" and j: "Suc i \<le> j \<and> j < Suc i + length bs" for a j
  proof (cases "a \<in> W")
    case False
    then have "sint (e_ts a) < sint (now i) + 1000" using new a by blast
    moreover have "sint (now i) + 1000 \<le> sint (now j)" using Cons.prems(4) j by (simp add: clock_runs_def)
    ultimately show ?thesis by simp
  qed (use Cons.prems(5) j in simp)
  then have before: "\<forall>a\<in>?W. \<forall>j. Suc i \<le> j \<and> j < Suc i + length bs \<longrightarrow> sint (e_ts a) \<le> sint (now j)" by blast
  obtain L' W' where L': "run_all (put_call os_ok kn now bg) (Suc i) bs L1 = (Inr (), L')" "at_most (4 * 2 ^ 20) L'"
      "(engine_step kn)\<^sup>*\<^sup>* (L1, ?W) (L', W')" "adds (concat bs) ?W W'"
      "\<forall>a\<in>W'. a \<in> ?W \<or> (\<exists>j. Suc i \<le> j \<and> j < Suc i + length bs \<and> sint (e_ts a) < sint (now j) + 1000)"
    using Cons.IH [OF inv1 L1(2) _ _ before] Cons.prems(3,4) by auto
  have "adds (concat (b # bs)) W W'" using adds_trans [OF adds_entries L'(4)] by simp
  moreover have "\<forall>a\<in>W'. a \<in> W \<or> (\<exists>j. i \<le> j \<and> j < i + length (b # bs) \<and> sint (e_ts a) < sint (now j) + 1000)"
  proof
    fix a assume "a \<in> W'"
    with L'(5) consider "a \<in> W" | "a \<in> set (put_entries (now i) b)"
      | j where "Suc i \<le> j" "j < Suc i + length bs" "sint (e_ts a) < sint (now j) + 1000" by blast
    then show "a \<in> W \<or> (\<exists>j. i \<le> j \<and> j < i + length (b # bs) \<and> sint (e_ts a) < sint (now j) + 1000)"
      by cases (use new in \<open>force+\<close>)
  qed
  moreover have "(engine_step kn)\<^sup>*\<^sup>* (L, W) (L', W')" using L1(3) L'(3) by (rule rtranclp_trans)
  ultimately show ?case using L1(1) L'(1,2) by (auto simp: andthen_def)
qed

text \<open>A load none of whose batches fails does the same when errors are dropped.\<close>

lemma load_loop_quiet:
  assumes "\<And>i b s s'. put i b s = (Inr (), s') \<Longrightarrow> put' i b s = (Inr (), s') \<and> rest' i b s = (Inr (), s')"
    and "load_loop put put n i batch kvs s = (Inr (), s')"
  shows "load_loop put' rest' n i batch kvs s = (Inr (), s')"
  using assms(2)
proof (induction kvs arbitrary: i batch s)
  case (Cons kv kvs)
  show ?case
  proof (cases "n \<le> length (batch @ [kv])")
    case True
    obtain r s1 where r: "put i (batch @ [kv]) s = (r, s1)" by fastforce
    with Cons.prems True have "r = Inr ()" "load_loop put put n (Suc i) [] kvs s1 = (Inr (), s')"
      by (auto simp: andthen_def Let_def split: sum.splits)
    with True r assms(1) Cons.IH show ?thesis by (simp add: andthen_def Let_def)
  qed (use Cons in \<open>simp add: Let_def\<close>)
qed (use assms(1) in \<open>auto simp: ret_def split: if_splits\<close>)

lemma attempt_done: "p s = (Inr (), s') \<Longrightarrow> attempt p s = (Inr (), s')"
  by (simp add: attempt_def)

lemma load_loop_whole:
  assumes "n dvd length (batch @ kvs)" "length batch < n"
  shows "load_loop put (\<lambda>_ _. ret ()) n i batch kvs s = load_loop put put n i batch kvs s"
  using assms
proof (induction kvs arbitrary: i batch s)
  case Nil
  then have "batch = []" using nat_dvd_not_less [of "length batch" n] by auto
  then show ?case by simp
next
  case (Cons kv kvs)
  show ?case
  proof (cases "n \<le> length (batch @ [kv])")
    case True
    then have "length (batch @ kv # kvs) = n + length kvs" using Cons.prems(2) by simp
    then have "n dvd length ([] @ kvs)" using Cons.prems(1) by (metis append_Nil dvd_add_right_iff dvd_refl)
    with Cons.IH [of "[]"] Cons.prems(2) True show ?thesis
      by (simp add: andthen_def Let_def split: prod.splits sum.splits)
  qed (use Cons in \<open>simp add: Let_def\<close>)
qed

lemma batches_count: "length (batches n xs) \<le> length xs"
proof (induction n xs rule: batches.induct)
  case (1 n xs)
  then show ?case by (subst batches.simps) (auto simp: Suc_le_eq intro: le_less_trans)
qed


lemma load_pairs:
  assumes inv: "engine_inv_for n d (L, W)" and size: "at_most (4 * 2 ^ 20) L" and kvs: "short_pairs kvs"
    and clock: "clock_runs now (length kvs)" "\<forall>a\<in>W. \<forall>j<length kvs. sint (e_ts a) \<le> sint (now j)"
  shows "\<exists>L' W'. load_loop (put_call os_ok kn now bg) (put_call os_ok kn now bg) 1000 0 [] kvs L = (Inr (), L')
     \<and> at_most (4 * 2 ^ 20) L' \<and> (engine_step kn)\<^sup>*\<^sup>* (L, W) (L', W') \<and> adds kvs W W'
     \<and> (\<forall>a\<in>W'. a \<in> W \<or> (\<exists>j<length kvs. sint (e_ts a) < sint (now j) + 1000))"
proof -
  let ?bs = "batches 1000 kvs"
  have all: "concat ?bs = kvs" by simp
  have len: "0 + length ?bs \<le> length kvs" using batches_count by simp
  have "b \<noteq> [] \<and> short_pairs b \<and> length b \<le> 1000" if b: "b \<in> set ?bs" for b
  proof -
    have "set b \<subseteq> set kvs" using b all by (metis concat.simps set_concat UN_upper)
    then show ?thesis using batches_length [OF b] kvs by (auto simp: short_pairs_def)
  qed
  then have bs: "\<forall>b\<in>set ?bs. b \<noteq> [] \<and> short_pairs b \<and> length b \<le> 1000" by blast
  have c1: "clock_runs now (0 + length ?bs)" using clock(1) len unfolding clock_runs_def by auto
  have c2: "\<forall>a\<in>W. \<forall>j. 0 \<le> j \<and> j < 0 + length ?bs \<longrightarrow> sint (e_ts a) \<le> sint (now j)"
    using clock(2) len by auto
  obtain L' W' where L': "run_all (put_call os_ok kn now bg) 0 ?bs L = (Inr (), L')" "at_most (4 * 2 ^ 20) L'"
      "(engine_step kn)\<^sup>*\<^sup>* (L, W) (L', W')" "adds (concat ?bs) W W'"
      "\<forall>a\<in>W'. a \<in> W \<or> (\<exists>j. 0 \<le> j \<and> j < 0 + length ?bs \<and> sint (e_ts a) < sint (now j) + 1000)"
    using load_run [OF inv size bs c1 c2, of kn bg] by (elim exE conjE) (rule that)
  have "\<forall>a\<in>W'. a \<in> W \<or> (\<exists>j<length kvs. sint (e_ts a) < sint (now j) + 1000)"
    using L'(5) len by (meson less_le_trans)
  moreover have "load_loop (put_call os_ok kn now bg) (put_call os_ok kn now bg) 1000 0 [] kvs L = (Inr (), L')"
    using L'(1) by (simp add: load_loop_batches)
  ultimately show ?thesis using L'(2,3,4) unfolding all by blast
qed

section \<open>The programs' loads and reads\<close>

text \<open>The two loads of \<open>compare.go\<close> and of \<open>lsmdemo\<close>, each with its own times.\<close>

definition bench_load :: "os \<Rightarrow> kernel \<Rightarrow> (nat \<Rightarrow> i64) \<Rightarrow> (nat \<Rightarrow> i64) \<Rightarrow> (nat \<Rightarrow> nat) \<Rightarrow> (nat \<Rightarrow> nat) \<Rightarrow> nat \<Rightarrow> nat list \<Rightarrow> (unit, lsm) prog" where
  "bench_load os k now now' bg bg' N rs =
     andthen (runLSMSeq os k now bg N) (\<lambda>_. runLSMRnd os k now' bg' N rs)"

definition demo_loads :: "os \<Rightarrow> kernel \<Rightarrow> (nat \<Rightarrow> i64) \<Rightarrow> (nat \<Rightarrow> i64) \<Rightarrow> (nat \<Rightarrow> nat) \<Rightarrow> (nat \<Rightarrow> nat) \<Rightarrow> nat \<Rightarrow> nat list \<Rightarrow> (unit, lsm) prog" where
  "demo_loads os k now now' bg bg' N rs =
     andthen (demo_load os k now bg (seq_pairs N)) (\<lambda>_. demo_load os k now' bg' (rnd_pairs 0 rs))"

definition bench_reads :: "nat list \<Rightarrow> nat list \<Rightarrow> (unit, lsm) prog" where
  "bench_reads rr ms = andthen (runLSMRead rr) (\<lambda>_. runLSMMiss ms)"

text \<open>Times of the second load that follow those of the first.\<close>

definition clocks_follow :: "(nat \<Rightarrow> i64) \<Rightarrow> nat \<Rightarrow> (nat \<Rightarrow> i64) \<Rightarrow> nat \<Rightarrow> bool" where
  "clocks_follow now m now' n \<longleftrightarrow> clock_runs now m \<and> clock_runs now' n
     \<and> (\<forall>i<m. \<forall>j<n. sint (now i) + 1000 \<le> sint (now' j))"

lemma two_loads:
  assumes inv: "engine_inv_for n d (L, {})" and size: "at_most (4 * 2 ^ 20) L"
    and kvs: "short_pairs as" "short_pairs bs" and clock: "clocks_follow now (length as) now' (length bs)"
  shows "\<exists>L1 L2 W. load_loop (put_call os_ok kn now bg) (put_call os_ok kn now bg) 1000 0 [] as L = (Inr (), L1)
     \<and> load_loop (put_call os_ok kn now' bg') (put_call os_ok kn now' bg') 1000 0 [] bs L1 = (Inr (), L2)
     \<and> engine_inv_for n d (L2, W) \<and> adds (as @ bs) {} W"
proof -
  have c: "clock_runs now (length as)" "clock_runs now' (length bs)"
      "\<forall>i<length as. \<forall>j<length bs. sint (now i) + 1000 \<le> sint (now' j)"
    using clock by (simp_all add: clocks_follow_def)
  obtain L1 W1 where L1: "load_loop (put_call os_ok kn now bg) (put_call os_ok kn now bg) 1000 0 [] as L = (Inr (), L1)"
      "at_most (4 * 2 ^ 20) L1" "(engine_step kn)\<^sup>*\<^sup>* (L, {}) (L1, W1)" "adds as {} W1"
      "\<forall>a\<in>W1. a \<in> {} \<or> (\<exists>j<length as. sint (e_ts a) < sint (now j) + 1000)"
    using load_pairs [OF inv size kvs(1) c(1)] by blast
  have inv1: "engine_inv_for n d (L1, W1)" by (rule engine_run_inv [OF L1(3) inv])
  have "sint (e_ts a) \<le> sint (now' j)" if "a \<in> W1" "j < length bs" for a j
  proof -
    have "\<exists>i<length as. sint (e_ts a) < sint (now i) + 1000" using L1(5) that(1) by (simp only: empty_iff simp_thms)
    then obtain i where i: "i < length as" "sint (e_ts a) < sint (now i) + 1000" by (elim exE conjE) (rule that)
    have "sint (now i) + 1000 \<le> sint (now' j)" using c(3) i(1) that(2) by (simp only: simp_thms)
    with i(2) show ?thesis by (rule less_imp_le [OF less_le_trans])
  qed
  then obtain L2 W2 where L2: "load_loop (put_call os_ok kn now' bg') (put_call os_ok kn now' bg') 1000 0 [] bs L1 = (Inr (), L2)"
      "(engine_step kn)\<^sup>*\<^sup>* (L1, W1) (L2, W2)" "adds bs W1 W2"
    using load_pairs [OF inv1 L1(2) kvs(2) c(2)] by blast
  have "engine_inv_for n d (L2, W2)" by (rule engine_run_inv [OF L2(2) inv1])
  then show ?thesis using L1(1) L2(1) adds_trans [OF L1(4) L2(3)] by blast
qed

lemma read_all_ok:
  assumes "engine_inv_for n d (L, W)" "\<forall>k\<in>set ks. clean_for L k"
  shows "\<exists>L'. read_all ks L = (Inr (), L') \<and> same_but_stats L L'"
  using assms
proof (induction ks arbitrary: L)
  case Nil
  then show ?case by (simp add: ret_def same_but_stats_refl)
next
  case (Cons k ks)
  obtain x L1 where L1: "lsm_Get k L = (Inr x, L1)" "same_but_stats L L1"
    using run_get_look(1) [OF Cons.prems(1), of k] Cons.prems(2) by (metis list.set_intros(1))
  have "engine_step kn (L, W) (L1, W)" for kn using L1(1) by (rule engine_step.get)
  then have "engine_inv_for n d (L1, W)" using engine_step_inv Cons.prems(1) by blast
  moreover have "\<forall>k\<in>set ks. clean_for L1 k"
    using L1(2) Cons.prems(2) by (auto simp: clean_for_def same_but_stats_def upd_stats_def)
  ultimately obtain L' where "read_all ks L1 = (Inr (), L')" "same_but_stats L1 L'"
    using Cons.IH by blast
  then show ?case using L1 same_but_stats_trans by (auto simp: andthen_def attempt_def ret_def)
qed

text \<open>What the reads find after the two loads.\<close>

lemma loaded_reads:
  assumes inv: "engine_inv_for n d (L, W)" and W: "adds (seq_pairs N @ rnd_pairs off rs) {} W"
  shows "i < N \<Longrightarrow> clean_for L (bench_key i) \<Longrightarrow> \<exists>v. fst (lsm_Get (bench_key i) L) = Inr (Some v)
       \<and> (v = bench_val i \<or> (\<exists>j<length rs. rs ! j = i \<and> v = bench_val (j + off)))"
    and "clean_for L (missing_key r) \<Longrightarrow> fst (lsm_Get (missing_key r) L) = Inr None"
proof -
  have w: "\<not> e_tomb e \<and> (e_key e, e_val e) \<in> set (seq_pairs N @ rnd_pairs off rs)" if "e \<in> W" for e
    using W that by (auto simp: adds_def)
  show "\<exists>v. fst (lsm_Get (bench_key i) L) = Inr (Some v)
       \<and> (v = bench_val i \<or> (\<exists>j<length rs. rs ! j = i \<and> v = bench_val (j + off)))"
    if i: "i < N" and clean: "clean_for L (bench_key i)"
  proof -
    have "(bench_key i, bench_val i) \<in> set (seq_pairs N @ rnd_pairs off rs)" using i by (auto simp: seq_pairs_def)
    then obtain e where "e \<in> W" "e_key e = bench_key i" using W unfolding adds_def by blast
    from reads_live [OF inv clean missing_not_key(2) this] w
    obtain a where a: "a \<in> W" "e_key a = bench_key i" "fst (lsm_Get (bench_key i) L) = Inr (Some (e_val a))" by blast
    have "(bench_key i, e_val a) \<in> set (seq_pairs N) \<union> set (rnd_pairs off rs)" using w [OF a(1)] a(2) by simp
    then have "e_val a = bench_val i \<or> (\<exists>j<length rs. rs ! j = i \<and> e_val a = bench_val (j + off))"
      unfolding rnd_pairs_nth by (auto simp: seq_pairs_def dest: bench_key_inj)
    with a(3) show ?thesis by blast
  qed
  show "fst (lsm_Get (missing_key r) L) = Inr None" if clean: "clean_for L (missing_key r)"
  proof (rule reads_unwritten [OF inv clean], intro ballI impI)
    fix e assume "e \<in> W" "e_key e = missing_key r"
    then have "(missing_key r, e_val e) \<in> set (seq_pairs N) \<union> set (rnd_pairs off rs)" using w by fastforce
    then show "e_tomb e" unfolding rnd_pairs_nth by (auto simp: seq_pairs_def missing_not_key)
  qed
qed


section \<open>A whole benchmark\<close>

text \<open>
  \<open>benchLSMAsync\<close>, \<open>benchLSMNoWAL\<close> and \<open>benchLSMSync\<close> differ in their options
  only; the error of the deferred closing is dropped.
\<close>

definition benchLSM :: "os \<Rightarrow> kernel \<Rightarrow> i64 \<Rightarrow> sync_mode \<Rightarrow> bool \<Rightarrow> (nat \<Rightarrow> i64) \<Rightarrow> (nat \<Rightarrow> i64) \<Rightarrow> (nat \<Rightarrow> nat) \<Rightarrow> (nat \<Rightarrow> nat) \<Rightarrow>
    nat \<Rightarrow> nat list \<Rightarrow> nat list \<Rightarrow> nat list \<Rightarrow> disk \<Rightarrow> unit res \<times> disk" where
  "benchLSM os k t mode nowal now now' bg bg' N rs rr ms d =
     (case lsm_Open os k t (bench_opts mode nowal) d of
        (Inl e, d1) \<Rightarrow> (Inl e, d1)
      | (Inr L, d1) \<Rightarrow>
          (case andthen (bench_load os k now now' bg bg' N rs)
                  (\<lambda>_. andthen (bench_reads rr ms) (\<lambda>_. attempt (lsm_Close os k))) L of
             (r, L') \<Rightarrow> (r, disk_image L')))"

lemma bench_load_ok:
  assumes inv: "engine_inv_for n d (L, {})" and size: "at_most (4 * 2 ^ 20) L"
    and rs: "\<forall>r\<in>set rs. r < 10 ^ 8" "length rs + N \<le> 10 ^ 8" and clock: "clocks_follow now N now' (length rs)"
  shows "\<exists>L' W. bench_load os_ok kn now now' bg bg' N rs L = (Inr (), L')
     \<and> engine_inv_for n d (L', W) \<and> adds (seq_pairs N @ rnd_pairs N rs) {} W"
proof -
  have "N \<le> 10 ^ 8" by (rule order_trans [OF _ rs(2)]) simp
  note short = short_pairs_seq [OF this] short_pairs_rnd [OF rs]
  have "clocks_follow now (length (seq_pairs N)) now' (length (rnd_pairs N rs))"
    using clock by (simp add: seq_pairs_def rnd_pairs_def)
  from two_loads [OF inv size short this, of kn bg bg']
  obtain L1 L2 W where L: "load_loop (put_call os_ok kn now bg) (put_call os_ok kn now bg) 1000 0 [] (seq_pairs N) L = (Inr (), L1)"
      "load_loop (put_call os_ok kn now' bg') (put_call os_ok kn now' bg') 1000 0 [] (rnd_pairs N rs) L1 = (Inr (), L2)"
      "engine_inv_for n d (L2, W)" "adds (seq_pairs N @ rnd_pairs N rs) {} W"
    by (elim exE conjE) (rule that)
  have "runLSMSeq os_ok kn now bg N L = (Inr (), L1)" "runLSMRnd os_ok kn now' bg' N rs L1 = (Inr (), L2)"
    unfolding runLSMSeq_def runLSMRnd_def Let_def
    by (rule load_loop_quiet [OF _ L(1)]; simp add: attempt_done) (rule load_loop_quiet [OF _ L(2)]; simp add: attempt_done)
  then show ?thesis using L(3,4) by (auto simp: bench_load_def andthen_def)
qed

lemma demo_loads_ok:
  assumes inv: "engine_inv_for n d (L, {})" and size: "at_most (4 * 2 ^ 20) L"
    and rs: "\<forall>r\<in>set rs. r < 10 ^ 8" "length rs \<le> 10 ^ 8" "N \<le> 10 ^ 8" and clock: "clocks_follow now N now' (length rs)"
  shows "\<exists>L' W. demo_loads os_ok kn now now' bg bg' N rs L = (Inr (), L')
     \<and> engine_inv_for n d (L', W) \<and> adds (seq_pairs N @ rnd_pairs 0 rs) {} W"
proof -
  have "length rs + 0 \<le> 10 ^ 8" using rs(2) by simp
  note short = short_pairs_seq [OF rs(3)] short_pairs_rnd [OF rs(1) this]
  have "clocks_follow now (length (seq_pairs N)) now' (length (rnd_pairs 0 rs))"
    using clock by (simp add: seq_pairs_def rnd_pairs_def)
  from two_loads [OF inv size short this, of kn bg bg']
  obtain L1 L2 W where L: "load_loop (put_call os_ok kn now bg) (put_call os_ok kn now bg) 1000 0 [] (seq_pairs N) L = (Inr (), L1)"
      "load_loop (put_call os_ok kn now' bg') (put_call os_ok kn now' bg') 1000 0 [] (rnd_pairs 0 rs) L1 = (Inr (), L2)"
      "engine_inv_for n d (L2, W)" "adds (seq_pairs N @ rnd_pairs 0 rs) {} W"
    by (elim exE conjE) (rule that)
  have "demo_load os_ok kn now bg (seq_pairs N) L = (Inr (), L1)" "demo_load os_ok kn now' bg' (rnd_pairs 0 rs) L1 = (Inr (), L2)"
    unfolding demo_load_def
    by (rule load_loop_quiet [OF _ L(1)]; simp add: attempt_done) (rule load_loop_quiet [OF _ L(2)]; simp add: attempt_done)
  then show ?thesis using L(3,4) by (auto simp: demo_loads_def andthen_def)
qed

text \<open>\<open>profile\<close> has no last batch, which makes a difference only when the batches do not fill.\<close>

lemma profile_load_whole: "1000 dvd N \<Longrightarrow> profile_load os k now bg N L = runLSMSeq os k now bg N L"
  by (simp add: profile_load_def runLSMSeq_def Let_def load_loop_whole seq_pairs_def)

lemma bench_reads_ok:
  assumes inv: "engine_inv_for n d (L, W)"
    and clean: "\<forall>i\<in>set rr. clean_for L (bench_key i)" "\<forall>r\<in>set ms. clean_for L (missing_key r)"
  shows "\<exists>L'. bench_reads rr ms L = (Inr (), L') \<and> same_but_stats L L'"
proof -
  obtain L1 where L1: "read_all (map bench_key rr) L = (Inr (), L1)" "same_but_stats L L1"
    using read_all_ok [OF inv, of "map bench_key rr"] clean(1) by auto
  have "engine_inv_for n d (L1, W)"
    using inv same_but_stats_engine [OF L1(2)] by (simp add: engine_inv_for_def)
  moreover have "\<forall>r\<in>set ms. clean_for L1 (missing_key r)"
    using L1(2) clean(2) by (auto simp: clean_for_def same_but_stats_def upd_stats_def)
  ultimately obtain L2 where "read_all (map missing_key ms) L1 = (Inr (), L2)" "same_but_stats L1 L2"
    using read_all_ok [of n d L1 W "map missing_key ms"] by auto
  then show ?thesis using L1 same_but_stats_trans
    by (auto simp: bench_reads_def runLSMRead_def runLSMMiss_def andthen_def)
qed

lemma close_ok:
  assumes "engine_ok L"
  shows "\<exists>L'. lsm_Close os_ok k L = (Inr (), L')"
proof (cases "l_wal L")
  case None
  then show ?thesis by (simp add: lsm_Close_def andthen_def update_def on_wal_def)
next
  case (Some w)
  then obtain data where w: "wal_up w" "wal_at w data" using assms by (auto simp: engine_ok_def wal_ready_def)
  obtain w' where "wal_Close os_ok k w = (w', None)" using wal_Close_at [OF w(2,1), of k] by blast
  then show ?thesis using Some by (simp add: lsm_Close_def andthen_def update_def on_wal_def)
qed

lemma benchLSM_ok:
  assumes mode: "mode \<noteq> SyncIouring" and t: "0 \<le> sint t"
    and rs: "\<forall>r\<in>set rs. r < 10 ^ 8" "length rs + N \<le> 10 ^ 8" and clock: "clocks_follow now N now' (length rs)"
  shows "\<exists>L0 d1 L n W. lsm_Open os_ok kn t (bench_opts mode nowal) empty_disk = (Inr L0, d1)
     \<and> bench_load os_ok kn now now' bg bg' N rs L0 = (Inr (), L)
     \<and> engine_inv_for n (\<not> nowal) (L, W) \<and> adds (seq_pairs N @ rnd_pairs N rs) {} W
     \<and> ((\<forall>i\<in>set rr. clean_for L (bench_key i)) \<and> (\<forall>r\<in>set ms. clean_for L (missing_key r)) \<longrightarrow>
          fst (benchLSM os_ok kn t mode nowal now now' bg bg' N rs rr ms empty_disk) = Inr ())"
proof -
  have o: "op_WALSyncMode (bench_opts mode nowal) \<noteq> SyncIouring" "op_NumLevels (bench_opts mode nowal) \<noteq> 1"
      "op_NumLevels (bench_opts mode nowal) < 2 ^ 63" "op_FlushThreshold (bench_opts mode nowal) \<le> 4 * 2 ^ 20"
    using mode by (simp_all add: bench_opts_def)
  from lsm_Open_new [OF o t, of kn]
  obtain L0 d1 where L0: "lsm_Open os_ok kn t (bench_opts mode nowal) empty_disk = (Inr L0, d1)" "engine_ok L0"
      "all_set L0 = {}" "l_memtable L0 = mt_New" "\<not> nowal \<longrightarrow> logged L0"
    by (elim exE conjE) (rule that; simp add: bench_opts_def)
  have inv: "engine_inv_for (l_numLevels L0) (\<not> nowal) (L0, {})" using L0(2,3,5) by (simp add: engine_inv_for_def)
  have "at_most (4 * 2 ^ 20) L0" by (simp add: at_most_def L0(4) mt_New_def mt_Size_def)
  from bench_load_ok [OF inv this rs clock, of kn bg bg']
  obtain L W where L: "bench_load os_ok kn now now' bg bg' N rs L0 = (Inr (), L)"
      "engine_inv_for (l_numLevels L0) (\<not> nowal) (L, W)" "adds (seq_pairs N @ rnd_pairs N rs) {} W"
    by (elim exE conjE) (rule that)
  have "fst (benchLSM os_ok kn t mode nowal now now' bg bg' N rs rr ms empty_disk) = Inr ()"
    if c: "\<forall>i\<in>set rr. clean_for L (bench_key i)" "\<forall>r\<in>set ms. clean_for L (missing_key r)"
  proof -
    obtain L1 where L1: "bench_reads rr ms L = (Inr (), L1)" "same_but_stats L L1"
      using bench_reads_ok [OF L(2) c] by blast
    then have "engine_ok L1" using L(2) same_but_stats_engine [OF L1(2)] by (simp add: engine_inv_for_def)
    then obtain L2 where "lsm_Close os_ok kn L1 = (Inr (), L2)" using close_ok by blast
    then show ?thesis using L0(1) L(1) L1(1) by (simp add: benchLSM_def andthen_def attempt_def)
  qed
  then show ?thesis using L0(1) L by blast
qed

end
