(* ===== verification/BenchWal.thy ===== *)
theory BenchWal
  imports Loader
begin

text \<open>
  \<open>cmd/benchwal/main.go\<close>: the same batch appended to a log again and again, a
  memtable filled key by key, and the same batch put into an engine again and
  again.
\<close>

section \<open>The log\<close>

definition bench_entries :: "nat \<Rightarrow> entry list" where
  "bench_entries n = map (\<lambda>i. \<lparr>e_key = bench_key i, e_val = bench_val i, e_ts = of_nat i, e_tomb = False\<rparr>) [0..<n]"

text \<open>Errors are dropped, a panic or an endless loop is not.\<close>

fun append_times :: "os \<Rightarrow> kernel \<Rightarrow> entry list \<Rightarrow> nat \<Rightarrow> wal \<Rightarrow> wal \<times> goerr option" where
  "append_times os k es 0 w = (w, None)"
| "append_times os k es (Suc n) w =
     (case wal_AppendBatch os k w es of
        (w1, Some (Panic f)) \<Rightarrow> (w1, Some (Panic f))
      | (w1, Some Hang) \<Rightarrow> (w1, Some Hang)
      | (w1, _) \<Rightarrow> append_times os k es n w1)"

lemma bench_entries_fit:
  assumes "n \<le> 1000"
  shows "batch_fits (bench_entries n)"
proof -
  have "length (bench_key i) \<le> 512 \<and> length (bench_val i) \<le> 65536" if "i < n" for i
    using bench_short [of i] assms that by simp
  then have "\<forall>e\<in>set (bench_entries n). entry_small e" by (auto simp: bench_entries_def entry_small_def)
  moreover have "length (bench_entries n) = n" by (simp add: bench_entries_def)
  ultimately show ?thesis using assms by (auto simp: batch_fits_def intro: entry_small_fits)
qed

lemma append_times_holds:
  assumes "wal_holds w bs" "batch_fits es"
  shows "\<exists>w'. append_times os_ok k es n w = (w', None) \<and> wal_holds w' (bs @ replicate n es)"
  using assms(1)
proof (induction n arbitrary: w bs)
  case (Suc n)
  obtain w1 where w1: "wal_AppendBatch os_ok k w es = (w1, None)" "wal_holds w1 (bs @ [es])"
    using wlog.append_holds [OF Suc.prems assms(2)] by blast
  from Suc.IH [OF w1(2)] w1(1) show ?case by auto
qed simp

section \<open>The memtable\<close>

definition bench_mem :: "nat \<Rightarrow> memtable" where
  "bench_mem N = foldl (\<lambda>m i. mt_Put m (bench_key i) (bench_val i) (of_nat i)) mt_New [0..<N]"

lemma bench_mem_Get:
  "i < N \<Longrightarrow> mt_Get (bench_mem N) (bench_key i)
     = Some \<lparr>e_key = bench_key i, e_val = bench_val i, e_ts = of_nat i, e_tomb = False\<rparr>"
  "(\<forall>i<N. k \<noteq> bench_key i) \<Longrightarrow> mt_Get (bench_mem N) k = None"
proof -
  have step: "bench_mem (Suc N) = mt_Put (bench_mem N) (bench_key N) (bench_val N) (of_nat N)" for N
    by (simp add: bench_mem_def)
  show "i < N \<Longrightarrow> mt_Get (bench_mem N) (bench_key i)
     = Some \<lparr>e_key = bench_key i, e_val = bench_val i, e_ts = of_nat i, e_tomb = False\<rparr>"
    by (induction N) (auto simp: step less_Suc_eq dest: bench_key_inj)
  show "(\<forall>i<N. k \<noteq> bench_key i) \<Longrightarrow> mt_Get (bench_mem N) k = None"
    by (induction N) (auto simp: step, simp add: bench_mem_def)
qed

section \<open>The engine\<close>

definition bench_same :: "os \<Rightarrow> kernel \<Rightarrow> (nat \<Rightarrow> i64) \<Rightarrow> (nat \<Rightarrow> nat) \<Rightarrow> nat \<Rightarrow> (gostr \<times> gostr) list \<Rightarrow> (unit, lsm) prog" where
  "bench_same os k now bg n kvs = run_all (\<lambda>i b. attempt (put_call os k now bg i b)) 0 (replicate n kvs)"

lemma run_all_attempt:
  "run_all p i bs s = (Inr (), s') \<Longrightarrow> run_all (\<lambda>i b. attempt (p i b)) i bs s = (Inr (), s')"
proof (induction bs arbitrary: i s)
  case (Cons b bs)
  then obtain s1 where "p i b s = (Inr (), s1)" "run_all p (Suc i) bs s1 = (Inr (), s')"
    by (auto simp: andthen_def split: prod.splits sum.splits)
  with Cons.IH show ?case by (simp add: andthen_def attempt_def)
qed simp

lemma adds_cong: "set as = set bs \<Longrightarrow> adds as W W' \<longleftrightarrow> adds bs W W'"
  by (simp add: adds_def)

lemma bench_same_ok:
  assumes inv: "engine_inv_for n d (L, {})" and size: "at_most (4 * 2 ^ 20) L"
    and m: "0 < m" "m \<le> 1000" "0 < c" and clock: "clock_runs now c"
  shows "\<exists>L' W. bench_same os_ok kn now bg c (seq_pairs m) L = (Inr (), L')
     \<and> engine_inv_for n d (L', W) \<and> adds (seq_pairs m) {} W"
proof -
  let ?bs = "replicate c (seq_pairs m)"
  have "m \<le> 10 ^ 8" by (rule order_trans [OF m(2)]) simp
  from short_pairs_seq [OF this]
  have bs: "\<forall>b\<in>set ?bs. b \<noteq> [] \<and> short_pairs b \<and> length b \<le> 1000"
    using m by (auto simp: seq_pairs_def)
  have "clock_runs now (0 + length ?bs)" using clock by simp
  from load_run [OF inv size bs this, of kn bg]
  obtain L' W where L': "run_all (put_call os_ok kn now bg) 0 ?bs L = (Inr (), L')"
      "(engine_step kn)\<^sup>*\<^sup>* (L, {}) (L', W)" "adds (concat ?bs) {} W"
    by auto
  have "set (concat ?bs) = set (seq_pairs m)" using m(3) by (cases c) auto
  then have "adds (seq_pairs m) {} W" using L'(3) adds_cong by blast
  moreover have "engine_inv_for n d (L', W)" by (rule engine_run_inv [OF L'(2) inv])
  ultimately show ?thesis using run_all_attempt [OF L'(1)] unfolding bench_same_def by blast
qed

lemma same_reads:
  assumes inv: "engine_inv_for n d (L, W)" and W: "adds (seq_pairs m) {} W" and i: "i < m" "clean_for L (bench_key i)"
  shows "fst (lsm_Get (bench_key i) L) = Inr (Some (bench_val i))"
proof -
  have "adds (seq_pairs m @ rnd_pairs 0 []) {} W" using W by (simp add: rnd_pairs_def)
  from loaded_reads(1) [OF inv this i] show ?thesis by auto
qed

end
