(* ===== verification/Report.thy ===== *)
theory Report
  imports LSM
begin

text \<open>
  The two ratios that \<open>cmd/lsmdemo/main.go\<close> prints after a run, as doubles: the
  write amplification, which is that of the engine's \<open>WriteAmp\<close>, and the percentage
  of filter checks that skip a table.
\<close>

definition demo_wa :: "stats \<Rightarrow> rat" where
  "demo_wa st =
     (let totalWritten = ss_SSTableBytesWritten st + ss_CompactionBytesWritten st;
          ingested = ss_WALBytesWritten st
      in if 0 < ingested then f64_round (f64_round (of_int totalWritten) / f64_round (of_int ingested)) else 0)"

definition demo_bloomSkipPct :: "stats \<Rightarrow> rat" where
  "demo_bloomSkipPct st =
     (let totalChecks = ss_BloomFilterSkips st + ss_FilesOpened st
      in if 0 < totalChecks
         then f64_round (f64_round (f64_round (of_int (ss_BloomFilterSkips st)) / f64_round (of_int totalChecks)) * 100)
         else 0)"

lemma demo_wa_WriteAmp: "0 \<le> ss_WALBytesWritten st \<Longrightarrow> demo_wa st = WriteAmp st"
  by (auto simp: demo_wa_def WriteAmp_def Let_def)

lemma demo_bloomSkipPct_near:
  assumes "0 \<le> ss_BloomFilterSkips st" "0 < ss_BloomFilterSkips st + ss_FilesOpened st"
  defines "x \<equiv> of_int (ss_BloomFilterSkips st) / of_int (ss_BloomFilterSkips st + ss_FilesOpened st) * 100"
  shows "\<bar>demo_bloomSkipPct st - x\<bar> \<le> x / 2 ^ 49"
proof -
  let ?a = "rat_of_int (ss_BloomFilterSkips st)" and ?b = "rat_of_int (ss_BloomFilterSkips st + ss_FilesOpened st)"
  define q where "q = f64_round (f64_round ?a / f64_round ?b)"
  define y where "y = ?a / ?b"
  have b: "0 < ?b" using assms(2) by (simp only: of_int_0_less_iff)
  have y: "0 \<le> y" unfolding y_def using assms(1) b by (intro divide_nonneg_pos) simp_all
  have q: "\<bar>q - y\<bar> \<le> y / 2 ^ 50" using f64_quotient_near [of ?a ?b] y unfolding q_def y_def [symmetric] by (simp only: abs_of_nonneg)
  define d where "d = y / 2 ^ 50"
  have d: "0 \<le> d" "d \<le> y" "y / 2 ^ 49 = 2 * d" using y by (simp_all add: d_def field_simps)
  have q1: "q - y \<le> d" "y - q \<le> d" using q by (simp_all only: d_def abs_le_iff minus_diff_eq)
  then have q0: "0 \<le> q * 100" "q \<le> 2 * y" using d(2) by simp_all
  have "\<bar>f64_round (q * 100) - q * 100\<bar> \<le> \<bar>q * 100\<bar> / 2 ^ 53" by (rule f64_round_near)
  also have "\<dots> \<le> 100 * d" using q0 d(1) by (simp add: abs_of_nonneg d_def)
  finally have r: "f64_round (q * 100) - q * 100 \<le> 100 * d" "q * 100 - f64_round (q * 100) \<le> 100 * d"
    by (simp_all add: abs_le_iff)
  have "demo_bloomSkipPct st = f64_round (q * 100)"
    using assms(2) by (simp add: demo_bloomSkipPct_def Let_def q_def)
  moreover have x: "x = y * 100" by (simp add: x_def y_def)
  moreover have "x / 2 ^ 49 = 200 * d" using d(3) unfolding x by simp
  ultimately show ?thesis using q1 r by (simp add: abs_le_iff)
qed

end
