(* ===== verification/GoText.thy ===== *)
theory GoText
  imports GoFmt GoFloat
begin

text \<open>
  Text as Go prints it: the runes of a string, the widths of \<open>fmt\<close>, which count
  runes and not bytes, the fixed-point verbs for doubles, \<open>strings.Repeat\<close> and
  \<open>strings.Contains\<close>.
\<close>

section \<open>Literals\<close>

definition ascii :: "string \<Rightarrow> gostr" where
  "ascii s = map of_char s"

text \<open>
  A literal with the few other signs the programs print, each written as an
  ASCII character that the literal does not use otherwise: box drawing, the
  arrow and the dash.
\<close>

definition sign :: "char \<Rightarrow> gostr" where
  "sign c =
     (if c = CHR ''_'' then [0xE2, 0x94, 0x80] else if c = CHR ''|'' then [0xE2, 0x94, 0x82]
      else if c = CHR ''{'' then [0xE2, 0x94, 0x8C] else if c = CHR ''}'' then [0xE2, 0x94, 0x90]
      else if c = CHR ''['' then [0xE2, 0x94, 0x94] else if c = CHR '']'' then [0xE2, 0x94, 0x98]
      else if c = CHR ''>'' then [0xE2, 0x86, 0x92] else if c = CHR ''^'' then [0xE2, 0x80, 0x94]
      else [of_char c])"

definition signs :: "string \<Rightarrow> gostr" where
  "signs s = concat (map sign s)"

definition strings_Repeat :: "gostr \<Rightarrow> nat \<Rightarrow> gostr" where
  "strings_Repeat s n = concat (replicate n s)"

fun strings_Contains :: "gostr \<Rightarrow> gostr \<Rightarrow> bool" where
  "strings_Contains s sub \<longleftrightarrow> take (length sub) s = sub \<or> (case s of [] \<Rightarrow> False | _ # t \<Rightarrow> strings_Contains t sub)"

declare strings_Contains.simps [simp del]

section \<open>Runes\<close>

text \<open>
  How many bytes the first rune takes, as its first byte says, and the range of
  the second byte.
\<close>

definition rune_len :: "byte \<Rightarrow> nat" where
  "rune_len b = (if b < 0xC2 then 1 else if b \<le> 0xDF then 2 else if b \<le> 0xEF then 3 else if b \<le> 0xF4 then 4 else 1)"

definition second_ok :: "byte \<Rightarrow> byte \<Rightarrow> bool" where
  "second_ok b c \<longleftrightarrow> (if b = 0xE0 then 0xA0 else if b = 0xF0 then 0x90 else 0x80) \<le> c
     \<and> c \<le> (if b = 0xED then 0x9F else if b = 0xF4 then 0x8F else 0xBF)"

text \<open>A sequence that is cut or malformed counts as a rune of one byte.\<close>

definition rest_ok :: "byte \<Rightarrow> gostr \<Rightarrow> bool" where
  "rest_ok b t \<longleftrightarrow> 1 < rune_len b \<and> length t = rune_len b - 1 \<and> second_ok b (hd t)
     \<and> list_all (\<lambda>c. 0x80 \<le> c \<and> c \<le> 0xBF) (tl t)"

definition rune_width :: "byte \<Rightarrow> gostr \<Rightarrow> nat" where
  "rune_width b s = (if rest_ok b (take (rune_len b - 1) s) then rune_len b else 1)"

function rune_count :: "gostr \<Rightarrow> nat" where
  "rune_count [] = 0"
| "rune_count (b # s) = Suc (rune_count (drop (rune_width b s - 1) s))"
  by pat_completeness auto
termination
  by (relation "measure length") auto

section \<open>Widths\<close>

text \<open>\<open>%-ns\<close> and \<open>%ns\<close>.\<close>

definition pad_right :: "nat \<Rightarrow> gostr \<Rightarrow> gostr" where
  "pad_right n s = s @ replicate (n - rune_count s) 32"

definition pad_left :: "nat \<Rightarrow> gostr \<Rightarrow> gostr" where
  "pad_left n s = replicate (n - rune_count s) 32 @ s"

text \<open>\<open>%.nf\<close> of a double, the exact value rounded, ties to even; \<open>None\<close> is the infinity of a division by zero.\<close>

definition fixed :: "nat \<Rightarrow> rat \<Rightarrow> gostr" where
  "fixed n x =
     (let (p, q) = quotient_of \<bar>x\<bar>; m = round_half_even (nat p * 10 ^ n) (nat q) in
      (if x < 0 then [45] else []) @ dec (m div 10 ^ n) @ (if n = 0 then [] else 46 # pad0 n (dec (m mod 10 ^ n))))"

definition fmt_f :: "nat \<Rightarrow> rat option \<Rightarrow> gostr" where
  "fmt_f n x = (case x of None \<Rightarrow> ascii ''+Inf'' | Some r \<Rightarrow> fixed n r)"

section \<open>Counting\<close>

lemma rune_width_le: "rune_width b s - 1 \<le> length s"
proof (cases "rest_ok b (take (rune_len b - 1) s)")
  case True
  then have "length (take (rune_len b - 1) s) = rune_len b - 1" by (simp only: rest_ok_def)
  then have "rune_len b - 1 \<le> length s" unfolding length_take by linarith
  then show ?thesis unfolding rune_width_def if_P [OF True] .
next
  case False
  show ?thesis unfolding rune_width_def if_not_P [OF False] by simp
qed

lemma rune_count_le: "rune_count s \<le> length s"
proof (induction s rule: rune_count.induct)
  case (2 b s)
  then have "rune_count (drop (rune_width b s - 1) s) \<le> length s" unfolding length_drop by linarith
  then show ?case by simp
qed simp

text \<open>An ASCII byte ends whatever precedes it, complete or not.\<close>

lemma ascii_ends:
  assumes "c < 0x80"
  shows "\<not> rest_ok b (s @ c # t)"
proof -
  have "\<not> second_ok b c" "\<not> 0x80 \<le> c"
    using assms by (auto simp: second_ok_def word_le_nat_alt word_less_nat_alt)
  then show ?thesis by (cases s) (auto simp: rest_ok_def)
qed

lemma rune_width_append:
  assumes "t = [] \<or> hd t < 0x80"
  shows "rune_width b (s @ t) = rune_width b s"
proof -
  define n where "n = rune_len b - 1"
  consider "n \<le> length s" | "t = []" | "length s < n" "t \<noteq> []" by linarith
  then have "rest_ok b (take n (s @ t)) = rest_ok b (take n s)"
  proof cases
    case 3
    then obtain c t' where c: "t = c # t'" "c < 0x80" using assms by (cases t) auto
    obtain m where "n - length s = Suc m" using 3(1) by (cases "n - length s") auto
    then have "take n (s @ t) = s @ c # take m t'" using 3(1) c(1) by simp
    moreover have "\<not> rest_ok b (take n s)" using 3(1) by (simp add: rest_ok_def n_def)
    ultimately show ?thesis using ascii_ends [OF c(2)] by simp
  qed simp_all
  then show ?thesis by (simp only: rune_width_def n_def)
qed

lemma rune_count_append:
  assumes "t = [] \<or> hd t < 0x80"
  shows "rune_count (s @ t) = rune_count s + rune_count t"
proof (induction s rule: rune_count.induct)
  case (2 b s)
  then show ?case using rune_width_le [of b s] by (simp add: rune_width_append [OF assms])
qed simp

lemma rune_width_ascii: "b < 0x80 \<Longrightarrow> rune_width b s = 1"
proof -
  assume "b < 0x80"
  then have "rune_len b = 1" by (auto simp: rune_len_def word_less_nat_alt)
  then show "rune_width b s = 1" by (simp add: rune_width_def)
qed

lemma rune_count_ascii: "\<forall>b\<in>set s. b < 0x80 \<Longrightarrow> rune_count s = length s"
proof (induction s)
  case (Cons b s)
  then show ?case using rune_width_ascii [of b s] by simp
qed simp

lemma rune_count_spaces [simp]: "rune_count (replicate n 32) = n"
  using rune_count_ascii [of "replicate n 32"] by (simp split: if_splits)

text \<open>A padded text is as wide as asked for, or as the text.\<close>

lemma rune_count_pad [simp]:
  "rune_count (pad_right n s) = max n (rune_count s)"
  "s = [] \<or> hd s < 0x80 \<Longrightarrow> rune_count (pad_left n s) = max n (rune_count s)"
proof -
  have "replicate m (32 :: byte) = [] \<or> hd (replicate m (32 :: byte)) < 0x80" for m by (cases m) simp_all
  from rune_count_append [OF this] show "rune_count (pad_right n s) = max n (rune_count s)"
    by (simp add: pad_right_def)
  show "s = [] \<or> hd s < 0x80 \<Longrightarrow> rune_count (pad_left n s) = max n (rune_count s)"
    by (simp add: pad_left_def rune_count_append)
qed

end
