(* ===== verification/DemoReport.thy ===== *)
theory DemoReport
  imports Report GoText
begin

text \<open>
  What \<open>cmd/lsmdemo/main.go\<close>, \<open>bench/compare/compare.go\<close> and \<open>cmd/profile/main.go\<close>
  print.  The durations they measure are arguments, in nanoseconds; what they do to
  the engine is in \<open>Loader\<close>.
\<close>

section \<open>Durations and rates\<close>

text \<open>\<open>Duration.Seconds\<close>, and a rate, which is infinite when the duration is zero.\<close>

definition seconds :: "nat \<Rightarrow> rat" where
  "seconds d = f64_round (of_nat (d div 10 ^ 9) + f64_round (of_nat (d mod 10 ^ 9) / 10 ^ 9))"

definition rate :: "nat \<Rightarrow> nat \<Rightarrow> rat option" where
  "rate n d = (if seconds d = 0 then None else Some (f64_round (of_nat n / seconds d)))"

definition fmtDur :: "nat \<Rightarrow> gostr" where
  "fmtDur d =
     (if d < 10 ^ 9 then fmt_d (int (d div 10 ^ 6)) @ ascii ''ms'' else fixed 2 (seconds d) @ ascii ''s'')"

definition repBytes :: "byte \<Rightarrow> nat \<Rightarrow> byte list" where
  "repBytes b n = replicate n b"

definition line :: "gostr list \<Rightarrow> gostr" where
  "line parts = concat parts @ [10]"

definition platform_line :: "gostr \<Rightarrow> nat \<Rightarrow> gostr \<Rightarrow> gostr \<Rightarrow> gostr" where
  "platform_line version cpus goos goarch =
     line [ascii ''Go '', version, ascii '' | '', fmt_d (int cpus), ascii '' CPUs | '', goos, ascii ''/'', goarch]"

section \<open>lsmdemo\<close>

record bench_result =
  br_name :: gostr
  br_seqRate :: "rat option"
  br_randRate :: "rat option"
  br_readRate :: "rat option"
  br_missRate :: "rat option"
  br_wa :: rat
  br_bloomSkipPct :: rat
  br_levels :: gostr

definition syncModes :: "gostr \<Rightarrow> (gostr \<times> sync_mode) list" where
  "syncModes goos =
     [(ascii ''SyncAlways (fsync per 1k batch)'', SyncAlways),
      (ascii ''SyncPeriodic (fsync every 100 batches)'', SyncPeriodic),
      (ascii ''SyncAsync (bg goroutine, 10ms interval)'', SyncAsync)]
     @ (if goos = ascii ''linux'' then [(ascii ''SyncIouring (io_uring)'', SyncIouring)] else [])"

text \<open>\<open>cpus\<close> is \<open>runtime.NumCPU()\<close>.\<close>

definition demo_head :: "gostr \<Rightarrow> nat \<Rightarrow> gostr \<Rightarrow> gostr \<Rightarrow> gostr" where
  "demo_head version cpus goos goarch =
     line [ascii ''=== LSM Tree Storage Engine Benchmarks ===''] @ platform_line version cpus goos goarch @ [10]
     @ line [pad_right 45 (ascii ''Mode''), [32], pad_left 12 (ascii ''SeqWrite''), [32], pad_left 12 (ascii ''RandWrite''), [32],
         pad_left 12 (ascii ''Read''), [32], pad_left 12 (ascii ''MissRead''), [32], pad_left 12 (ascii ''WA'')]
     @ line [repBytes 45 110]"

text \<open>The levels that are not empty, with their sizes.\<close>

definition levelStr :: "stats \<Rightarrow> gostr" where
  "levelStr st =
     foldl (\<lambda>s i.
        if 0 < ss_LevelSizes st ! i
        then s @ (if s \<noteq> [] then ascii '', '' else []) @ ascii ''L'' @ fmt_d (int i) @ ascii '':''
             @ fixed 0 (f64_round (of_int (ss_LevelSizes st ! i)) / 2 ^ 20) @ ascii ''MB''
        else s) [] [0..<ss_NumLevels st]"

definition demo_result :: "gostr \<Rightarrow> nat \<Rightarrow> nat \<Rightarrow> nat \<Rightarrow> nat \<Rightarrow> stats \<Rightarrow> bench_result" where
  "demo_result name seqDur randDur readDur missDur st =
     \<lparr>br_name = name, br_seqRate = rate 1000000 seqDur, br_randRate = rate 1000000 randDur,
      br_readRate = rate 100000 readDur, br_missRate = rate 100000 missDur,
      br_wa = demo_wa st, br_bloomSkipPct = demo_bloomSkipPct st, br_levels = levelStr st\<rparr>"

definition ops_line :: "gostr \<Rightarrow> nat \<Rightarrow> nat \<Rightarrow> rat option \<Rightarrow> gostr \<Rightarrow> gostr" where
  "ops_line head n dur r unit =
     line [head, fmt_d (int n), ascii '' ops in '', fmtDur dur, ascii '' = '', pad_left 12 (fmt_f 0 r), unit]"

definition demo_mode_text :: "gostr \<Rightarrow> nat \<Rightarrow> nat \<Rightarrow> nat \<Rightarrow> nat \<Rightarrow> stats \<Rightarrow> gostr" where
  "demo_mode_text name seqDur randDur readDur missDur st =
     (let r = demo_result name seqDur randDur readDur missDur st in
      [10] @ line [ascii ''--- '', name, ascii '' ---'']
      @ ops_line (ascii ''  Sequential write:   '') 1000000 seqDur (br_seqRate r) (ascii '' writes/sec'')
      @ ops_line (ascii ''  Random write:       '') 1000000 randDur (br_randRate r) (ascii '' writes/sec'')
      @ ops_line (ascii ''  Random read (warm): '') 100000 readDur (br_readRate r) (ascii '' reads/sec'')
      @ ops_line (ascii ''  Missing key read:   '') 100000 missDur (br_missRate r) (ascii '' reads/sec'')
      @ line [ascii ''  Write amplification: '', fixed 2 (br_wa r), ascii ''x | Bloom skips: '',
          fixed 1 (br_bloomSkipPct r), ascii ''% | Levels: '', br_levels r])"

definition short_name :: "gostr \<Rightarrow> gostr" where
  "short_name name = (if 44 < length name then take 41 name @ ascii ''...'' else name)"

definition summary_head :: gostr where
  "summary_head =
     line [pad_right 45 (ascii ''Mode''), [32], pad_left 12 (ascii ''SeqWrt''), [32], pad_left 12 (ascii ''RndWrt''), [32],
       pad_left 12 (ascii ''Read''), [32], pad_left 12 (ascii ''MissRd''), [32], pad_left 8 (ascii ''WA''), [32],
       pad_left 10 (ascii ''BloomSk'')]"

definition summary_line :: "bench_result \<Rightarrow> gostr" where
  "summary_line r =
     line [pad_right 45 (short_name (br_name r)), [32],
       pad_left 10 (fmt_f 0 (br_seqRate r)), ascii ''/s '', pad_left 10 (fmt_f 0 (br_randRate r)), ascii ''/s '',
       pad_left 10 (fmt_f 0 (br_readRate r)), ascii ''/s '', pad_left 10 (fmt_f 0 (br_missRate r)), ascii ''/s '',
       pad_left 6 (fixed 2 (br_wa r)), ascii ''x '', pad_left 8 (fixed 1 (br_bloomSkipPct r)), ascii ''%'']"

definition avgBloomSkip :: "bench_result list \<Rightarrow> rat" where
  "avgBloomSkip results =
     (if results = [] then 90
      else f64_round (foldl (\<lambda>t r. f64_round (t + br_bloomSkipPct r)) 0 results / f64_round (of_nat (length results))))"

definition demo_summary :: "bench_result list \<Rightarrow> gostr" where
  "demo_summary results =
     [10, 10] @ line [ascii ''=== SUMMARY ===''] @ line [repBytes 61 110] @ summary_head @ line [repBytes 45 110]
     @ concat (map summary_line results) @ line [repBytes 45 110] @ [10]
     @ line [ascii ''=== COMPETITIVE COMPARISON (from published benchmarks) ===''] @ [10]
     @ line [pad_right 45 (ascii ''Database (random write 1M keys)''), [32], pad_left 12 (ascii ''Writes/sec'')]
     @ line [repBytes 45 60]
     @ line [pad_right 45 (ascii ''BoltDB / bbolt (B-tree, fsync per write)''), [32], pad_left 12 (ascii ''~40,000'')]
     @ concat (map (\<lambda>r. line [pad_right 45 (ascii ''LSM Tree (ours, '' @ br_name r @ ascii '')''), [32],
         pad_left 12 (fmt_f 0 (br_randRate r))]) results)
     @ line [pad_right 45 (ascii ''BadgerDB (WiscKey LSM, default config)''), [32], pad_left 12 (ascii ''~200,000'')]
     @ [10]
     @ line [ascii ''Read amplification: ~1.0 files checked per read (with '', fixed 0 (avgBloomSkip results),
         ascii ''% bloom skip rate)'']"

section \<open>compare\<close>

record cmp_result =
  cr_label :: gostr
  cr_seqWrt :: "rat option"
  cr_rndWrt :: "rat option"
  cr_read :: "rat option"
  cr_missRd :: "rat option"
  cr_err :: gostr

definition engine_labels :: "gostr list" where
  "engine_labels = [ascii ''LSM NoWAL (ours)'', ascii ''LSM SyncAsync (ours)'', ascii ''BadgerDB WriteBatch'',
     ascii ''BoltDB batched txn'', ascii ''LSM SyncAlways (ours)'', ascii ''BadgerDB SyncWrites'', ascii ''BoltDB fsync/commit'']"

text \<open>\<open>rs\<close> is what the seven functions return.\<close>

definition runAll :: "cmp_result list \<Rightarrow> cmp_result list" where
  "runAll rs = map2 (\<lambda>label r. r\<lparr>cr_label := label\<rparr>) engine_labels rs"

definition compare_head :: gostr where
  "compare_head =
     line [pad_right 30 (ascii ''Engine''), [32], pad_left 14 (ascii ''SeqWrite''), [32], pad_left 14 (ascii ''RandWrite''), [32],
       pad_left 14 (ascii ''Read''), [32], pad_left 14 (ascii ''MissRead'')]"

definition compare_line :: "cmp_result \<Rightarrow> gostr" where
  "compare_line r =
     (if cr_err r \<noteq> [] then line [pad_right 30 (cr_label r), [32], pad_left 14 (ascii ''ERR''), [32], cr_err r]
      else line [pad_right 30 (cr_label r), [32], pad_left 14 (fmt_f 0 (cr_seqWrt r)), ascii ''/s '',
        pad_left 14 (fmt_f 0 (cr_rndWrt r)), ascii ''/s '', pad_left 14 (fmt_f 0 (cr_read r)), ascii ''/s '',
        pad_left 14 (fmt_f 0 (cr_missRd r)), ascii ''/s''])"

definition compare_table :: "cmp_result list \<Rightarrow> gostr" where
  "compare_table results =
     line [repBytes 61 100] @ compare_head @ line [repBytes 45 100] @ concat (map compare_line results)"

definition compare_main :: "gostr \<Rightarrow> nat \<Rightarrow> gostr \<Rightarrow> gostr \<Rightarrow> cmp_result list \<Rightarrow> gostr" where
  "compare_main version cpus goos goarch rs =
     line [ascii ''=== FAIR COMPARISON: LSM Tree vs BadgerDB vs BoltDB ==='']
     @ platform_line version cpus goos goarch
     @ line [ascii ''All engines: N='', fmt_d 1000000, ascii '', batch='', fmt_d 1000, ascii '', reads='', fmt_d 100000,
         ascii '', 11-byte keys & values''] @ [10]
     @ compare_table (runAll rs)
     @ [10] @ line [repBytes 61 100]
     @ line [ascii ''DURABILITY NOTES'']
     @ line [repBytes 45 100]
     @ line [ascii ''LSM   NoWAL      : no WAL, no fsync; no crash recovery (ceiling perf)'']
     @ line [ascii ''LSM   SyncAsync  : no fsync; up to ~10ms of writes lost on crash'']
     @ line [ascii ''LSM   SyncAlways : fsync per 1k batch; each batch durable'']
     @ line [ascii ''BadgerDB NoSync  : SyncWrites=false + WriteBatch; no fsync on flush'']
     @ line [ascii ''BadgerDB Sync    : SyncWrites=true + WriteBatch; fsync per 1k flush'']
     @ line [ascii ''BoltDB NoSync    : NoSync=true + batched txn (1k puts/txn); no fsync'']
     @ line [ascii ''BoltDB Sync      : NoSync=false + batched txn; fsync per tx commit'']
     @ [10]
     @ line [ascii ''BoltDB batched txn (1k puts per Update) = 1 fsync / 1k writes'']
     @ line [ascii ''LSM PutBatch(1000) with SyncAlways = 1 fsync / 1k writes (matched)'']
     @ line [ascii ''BadgerDB WriteBatch + flush every 1k + SyncWrites = 1 fsync / 1k writes (matched)'']"

section \<open>profile\<close>

text \<open>The line of statistics and the levels that are not empty.\<close>

definition profile_text :: "stats \<Rightarrow> gostr" where
  "profile_text st =
     (let totalIO = ss_SSTableBytesWritten st + ss_CompactionBytesWritten st in
      line [ascii ''stats: flushes='', fmt_d (ss_FilesOpened st), ascii '' ss='', fmt_d (ss_SSTableBytesWritten st div 2 ^ 20),
        ascii ''MB comp='', fmt_d (ss_CompactionBytesWritten st div 2 ^ 20), ascii ''MB total='', fmt_d (totalIO div 2 ^ 20),
        ascii ''MB wa='', fixed 2 (WriteAmp st)]
      @ ascii ''levels: ''
      @ concat (map (\<lambda>(i, sz). if 0 < sz then ascii ''L'' @ fmt_d (int i) @ ascii ''='' @ fmt_d (sz div 2 ^ 20) @ ascii ''MB '' else [])
          (zip [0..<length (ss_LevelSizes st)] (ss_LevelSizes st)))
      @ [10])"

section \<open>Percentages\<close>

lemma demo_bloomSkipPct_bounds:
  assumes "0 \<le> ss_BloomFilterSkips st" "0 \<le> ss_FilesOpened st" "ss_BloomFilterSkips st + ss_FilesOpened st \<le> 2 ^ 52"
  shows "0 \<le> demo_bloomSkipPct st \<and> demo_bloomSkipPct st \<le> 100"
proof -
  define a b where "a = nat (ss_BloomFilterSkips st)" and "b = nat (ss_BloomFilterSkips st + ss_FilesOpened st)"
  have ab: "a \<le> b" "b \<le> 2 ^ 52" "a \<le> 2 ^ 52" using assms by (simp_all add: a_def b_def)
  have i: "rat_of_int (ss_BloomFilterSkips st) = of_nat a" "rat_of_int (ss_BloomFilterSkips st + ss_FilesOpened st) = of_nat b"
    using assms(1,2) by (simp_all add: a_def b_def)
  define q where "q = f64_round (rat_of_nat a / of_nat b)"
  have d: "demo_bloomSkipPct st = (if b = 0 then 0 else f64_round (q * 100))"
    using assms(1,2) unfolding demo_bloomSkipPct_def Let_def i f64_round_nat [OF ab(2)] f64_round_nat [OF ab(3)] q_def
    by (auto simp: b_def)
  have "rat_of_nat a \<le> of_nat b" using ab(1) by simp
  then have "0 \<le> rat_of_nat a / of_nat b" "rat_of_nat a / of_nat b \<le> of_nat 1" by (simp_all add: divide_le_eq)
  then have "0 \<le> q" "q \<le> 1"
    using f64_round_lower [of 0 "rat_of_nat a / of_nat b"] f64_round_upper [of "rat_of_nat a / of_nat b" 1] by (simp_all add: q_def)
  then have "0 \<le> f64_round (q * 100)" "f64_round (q * 100) \<le> 100"
    using f64_round_lower [of 0 "q * 100"] f64_round_upper [of "q * 100" 100] by simp_all
  then show ?thesis by (simp add: d)
qed

text \<open>The average of percentages is one.\<close>

lemma avg_sum_bounds:
  assumes "\<forall>r\<in>set rs. 0 \<le> br_bloomSkipPct r \<and> br_bloomSkipPct r \<le> 100" "100 * length rs \<le> 2 ^ 52"
  shows "0 \<le> foldl (\<lambda>t r. f64_round (t + br_bloomSkipPct r)) 0 rs
     \<and> foldl (\<lambda>t r. f64_round (t + br_bloomSkipPct r)) 0 rs \<le> of_nat (100 * length rs)"
  using assms
proof (induction rs rule: rev_induct)
  case (snoc r rs)
  let ?t = "foldl (\<lambda>t r. f64_round (t + br_bloomSkipPct r)) 0 rs"
  have t: "0 \<le> ?t" "?t \<le> of_nat (100 * length rs)" using snoc by auto
  have r: "0 \<le> br_bloomSkipPct r" "br_bloomSkipPct r \<le> 100" using snoc.prems(1) by simp_all
  have "?t + br_bloomSkipPct r \<le> of_nat (100 * length (rs @ [r]))" using t(2) r(2) by simp
  then have "f64_round (?t + br_bloomSkipPct r) \<le> of_nat (100 * length (rs @ [r]))"
    using f64_round_upper [OF _ snoc.prems(2)] t(1) r(1) by simp
  moreover have "0 \<le> f64_round (?t + br_bloomSkipPct r)"
    using f64_round_lower [of 0 "?t + br_bloomSkipPct r"] t(1) r(1) by simp
  ultimately show ?case by simp
qed simp

lemma avgBloomSkip_bounds:
  assumes "\<forall>r\<in>set rs. 0 \<le> br_bloomSkipPct r \<and> br_bloomSkipPct r \<le> 100" "100 * length rs \<le> 2 ^ 52"
  shows "0 \<le> avgBloomSkip rs \<and> avgBloomSkip rs \<le> 100"
proof (cases "rs = []")
  case False
  let ?t = "foldl (\<lambda>t r. f64_round (t + br_bloomSkipPct r)) 0 rs"
  have t: "0 \<le> ?t" "?t \<le> of_nat (100 * length rs)" using avg_sum_bounds [OF assms] by simp_all
  have n: "f64_round (rat_of_nat (length rs)) = of_nat (length rs)" using assms(2) by (intro f64_round_nat) simp
  have pos: "0 < rat_of_nat (length rs)" using False by simp
  have "?t / of_nat (length rs) \<le> of_nat 100" using t(2) pos by (simp add: pos_divide_le_eq)
  moreover have "0 \<le> ?t / of_nat (length rs)" using t(1) pos by simp
  ultimately show ?thesis
    using f64_round_upper [of "?t / of_nat (length rs)" 100] f64_round_lower [of 0 "?t / of_nat (length rs)"] False
    by (simp add: avgBloomSkip_def n)
qed (simp add: avgBloomSkip_def)

section \<open>Widths of the summaries\<close>

lemma fixed_ascii: "\<forall>b\<in>set (fixed n x). b < 0x80"
proof -
  have d: "\<forall>b\<in>set (dec m). b < 0x80" for m
    using dec_digits [of m] by (auto simp: is_digit_def word_le_nat_alt word_less_nat_alt)
  then have "\<forall>b\<in>set (pad0 n (dec m)). b < 0x80" for m by (auto simp: pad0_def)
  with d show ?thesis by (auto simp: fixed_def Let_def split: prod.splits)
qed

lemma fmt_f_ascii: "\<forall>b\<in>set (fmt_f n x). b < 0x80"
  using fixed_ascii by (cases x) (simp_all add: fmt_f_def ascii_def)

text \<open>A cell of a rate: the figure in its width, then two bytes of unit.\<close>

lemma rate_cell:
  assumes "length (fmt_f 0 x) \<le> n" "t = [] \<or> hd t < 0x80"
  shows "rune_count (pad_left n (fmt_f 0 x) @ 47 # 115 # t) = n + 2 + rune_count t"
proof -
  have h: "fmt_f 0 x = [] \<or> hd (fmt_f 0 x) < 0x80" using fmt_f_ascii [of 0 x] by (cases "fmt_f 0 x") auto
  have "rune_count (pad_left n (fmt_f 0 x)) = n"
    using rune_count_pad(2) [OF h] rune_count_ascii [OF fmt_f_ascii, of 0 x] assms(1) by simp
  then show ?thesis
    using rune_count_append [of "47 # 115 # t" "pad_left n (fmt_f 0 x)"] rune_width_ascii [of 47 "115 # t"] rune_width_ascii [of 115 t]
    by simp
qed

text \<open>
  The rows of \<open>compare\<close> are eight runes wider than the head, whose widths do not
  count the units.
\<close>

lemma compare_widths:
  assumes "cr_err r = []" "rune_count (cr_label r) \<le> 30"
    and "\<forall>x\<in>{cr_seqWrt r, cr_rndWrt r, cr_read r, cr_missRd r}. length (fmt_f 0 x) \<le> 14"
  shows "rune_count (compare_line r) = 99" "rune_count compare_head = 91"
proof -
  have sp: "rune_count (32 # s) = Suc (rune_count s)" for s using rune_width_ascii [of 32 s] by simp
  show "rune_count compare_head = 91" by code_simp
  have "compare_line r = pad_right 30 (cr_label r) @ 32 # pad_left 14 (fmt_f 0 (cr_seqWrt r)) @ 47 # 115
      # 32 # pad_left 14 (fmt_f 0 (cr_rndWrt r)) @ 47 # 115 # 32 # pad_left 14 (fmt_f 0 (cr_read r)) @ 47 # 115
      # 32 # pad_left 14 (fmt_f 0 (cr_missRd r)) @ 47 # 115 # [10]"
    using assms(1) by (simp add: compare_line_def line_def ascii_def)
  moreover have "rune_count [10] = 1" by code_simp
  ultimately show "rune_count (compare_line r) = 99"
    using assms(2,3) rune_count_append [of "32 # _" "pad_right 30 (cr_label r)"]
    by (simp add: rate_cell sp del: rune_count.simps(2))
qed

end
