(* ===== verification/Frame.thy ===== *)
theory Frame
  imports Faults
begin

text \<open>
  What the compactions leave as it is, whatever system calls fail: any part of
  the engine that does not depend on the disk, the levels, the counter of files
  and the statistics other than those of the reads.
\<close>

section \<open>Programs that keep a part of the engine\<close>

definition keeps :: "(lsm \<Rightarrow> 'b) \<Rightarrow> ('a, lsm) prog \<Rightarrow> bool" where
  "keeps f m \<longleftrightarrow> (\<forall>L. f (snd (m L)) = f L)"

lemma keepsD: "keeps f m \<Longrightarrow> m L = (r, L') \<Longrightarrow> f L' = f L"
  by (metis keeps_def snd_conv)

lemma keeps_andthen [intro]: "keeps f m \<Longrightarrow> (\<And>x. keeps f (g x)) \<Longrightarrow> keeps f (andthen m g)"
  by (auto simp: keeps_def andthen_def split: prod.splits sum.splits) (metis snd_conv)+

lemma keeps_update [intro]: "(\<And>L. f (g L) = f L) \<Longrightarrow> keeps f (update g)"
  by (simp add: keeps_def update_def)

lemma keeps_ret [intro]: "keeps f (ret x)"
  by (simp add: keeps_def ret_def)

lemma keeps_attempt [intro]: "keeps f m \<Longrightarrow> keeps f (attempt m)"
  by (auto simp: keeps_def attempt_def split: prod.splits sum.splits goerr.splits) (metis snd_conv)+

section \<open>The parts a compaction keeps\<close>

locale compaction_frame =
  fixes f :: "lsm \<Rightarrow> 'b"
  assumes disk: "f (L\<lparr>l_disk := d\<rparr>) = f L"
    and levels: "f (L\<lparr>l_levels := sss\<rparr>) = f L"
    and stats: "ss_FilesOpened s = ss_FilesOpened (l_stats L) \<Longrightarrow> ss_BloomFilterSkips s = ss_BloomFilterSkips (l_stats L)
      \<Longrightarrow> f (L\<lparr>l_stats := s\<rparr>) = f L"
    and nextID: "f (L\<lparr>l_nextID := n\<rparr>) = f L"
begin

lemma state_ops:
  "f (set_level i ss L) = f L" "f (add_level_size i n L) = f L" "f (note_compaction st L) = f L"
  by (simp_all add: set_level_def add_level_size_def upd_stats_def note_compaction_def disk levels stats nextID
      split: option.splits)

lemma drop_tables: "f (drop_tables os i ss L) = f L"
  by (induction os i ss L rule: drop_tables.induct) (simp_all add: state_ops disk)

lemma add_outputs: "keeps f (add_outputs os i ps)"
proof -
  have "f (snd (add_outputs os i ps L)) = f L" for L
    by (induction os i ps L rule: add_outputs.induct) (simp_all add: state_ops split: sum.splits)
  then show ?thesis by (simp add: keeps_def)
qed

lemma on_files: "keeps f (on_files m)"
  by (simp add: keeps_def on_files_def on_disk_def disk split: prod.splits)

lemma writeManifest: "keeps f (lsm_writeManifest os)"
  by (simp add: keeps_def lsm_writeManifest_def on_disk_def disk split: prod.splits)

lemma l0_merge: "keeps f (l0_merge os)"
proof -
  have "keeps f (andthen (on_files m) (\<lambda>(paths, st).
         andthen (update (note_compaction st)) (\<lambda>_.
         andthen (update (drop_tables os 0 a)) (\<lambda>_.
         andthen (update (drop_tables os 1 b)) (\<lambda>_.
         andthen (update (\<lambda>L. set_level 1 c (set_level 0 d L))) (\<lambda>_.
         add_outputs os 1 paths))))))" for m :: "(gostr list \<times> cstats option, fs) prog" and a b c d
    unfolding split_beta
    by (intro keeps_andthen on_files keeps_update add_outputs) (simp_all add: drop_tables state_ops)
  then show ?thesis by (simp add: keeps_def l0_merge_def Let_def)
qed

lemma level_merge: "keeps f (level_merge os level)"
proof -
  have "keeps f (andthen (on_files m) (\<lambda>(paths, st).
         andthen (update (note_compaction st)) (\<lambda>_.
         andthen (update (drop_tables os i a)) (\<lambda>_.
         andthen (update (set_level i [])) (\<lambda>_.
         andthen (update (drop_tables os j b)) (\<lambda>_.
         andthen (update (set_level j [])) (\<lambda>_.
         add_outputs os j paths)))))))" for m :: "(gostr list \<times> cstats option, fs) prog" and a b i j
    unfolding split_beta
    by (intro keeps_andthen on_files keeps_update add_outputs) (simp_all add: drop_tables state_ops)
  then show ?thesis by (simp add: keeps_def level_merge_def Let_def)
qed

lemma compactL0ToL1: "keeps f (compactL0ToL1 os)"
proof -
  have "keeps f (andthen (l0_merge os) (\<lambda>_. lsm_writeManifest os))" by (intro keeps_andthen l0_merge writeManifest)
  then show ?thesis by (simp add: keeps_def compactL0ToL1_def)
qed

lemma compactLevel: "keeps f (compactLevel os n level)"
proof -
  have "f (snd (compactLevel os n level L)) = f L" for L
  proof (induction os n level L rule: compactLevel.induct)
    case (1 os n level L)
    have first: "keeps f (andthen (level_merge os level) (\<lambda>_. lsm_writeManifest os))"
      by (intro keeps_andthen level_merge writeManifest)
    obtain r L1 where r: "andthen (level_merge os level) (\<lambda>_. lsm_writeManifest os) L = (r, L1)" by fastforce
    then have "f L1 = f L" using keepsD [OF first] by blast
    then show ?case using 1 r by (subst compactLevel.simps) (auto simp: Let_def split: sum.splits)
  qed
  then show ?thesis by (simp add: keeps_def)
qed

lemma tick_levels: "keeps f (tick_levels os is)"
proof (induction "is")
  case Nil
  then show ?case by (simp add: keeps_def)
next
  case (Cons i "is")
  have one: "keeps f (if b then attempt (compactLevel os n i) else ret ())" for b n
    by (cases b) (auto intro: compactLevel)
  have two: "keeps f (andthen (if b then attempt (compactLevel os n i) else ret ()) (\<lambda>_. tick_levels os is))" for b n
    by (intro keeps_andthen one Cons)
  then show ?case by (simp only: keeps_def tick_levels.simps) blast
qed

lemma tick_body: "keeps f (tick_body os)"
proof -
  have one: "keeps f (if b then attempt (compactL0ToL1 os) else ret ())" for b
    by (cases b) (auto intro: compactL0ToL1)
  have "keeps f (andthen (if b then attempt (compactL0ToL1 os) else ret ()) (\<lambda>_. tick_levels os is))" for b "is"
    by (intro keeps_andthen one tick_levels)
  then show ?thesis by (simp only: keeps_def tick_body_def) blast
qed

end

text \<open>A background round takes the token of its channel, too.\<close>

locale tick_frame = compaction_frame +
  assumes compactCh: "f (L\<lparr>l_compactCh := b\<rparr>) = f L"
begin

lemma compaction_tick: "keeps f (compaction_tick os)"
proof -
  have "keeps f (andthen (update (\<lambda>L. L\<lparr>l_compactCh := False\<rparr>)) (\<lambda>_. tick_body os))"
    by (intro keeps_andthen keeps_update tick_body compactCh)
  then show ?thesis by (simp add: keeps_def compaction_tick_def)
qed

end

interpretation kept_mem: tick_frame l_memtable by unfold_locales simp_all
interpretation kept_wal: tick_frame l_wal by unfold_locales simp_all
interpretation kept_ch: compaction_frame l_compactCh by unfold_locales simp_all

end
