(* ===== verification/FlushFaults.thy ===== *)
theory FlushFaults
  imports Frame
begin

text \<open>
  Flushes that fail.  Whatever system calls fail, a flush that returns an error
  has stopped before its table was written, with memtable, log and levels as they
  were; in the reset of the log or the opening of the table, with the memtable
  emptied and no level changed; or with the table listed in level 0, in the
  manifest or in the compaction of level 0.  When the new table cannot be opened
  again, what the memtable held is lost to the engine.
\<close>

section \<open>Programs that keep the memtable\<close>

lemma on_wal_mem: "keeps l_memtable (on_wal g)"
  by (simp add: keeps_def on_wal_def split: prod.splits option.splits)

lemma reset_or_remove_mem: "keeps l_memtable (reset_or_remove os k p)"
proof -
  have "l_memtable (snd (on_wal (wal_Reset os k) L)) = l_memtable L" for L
    using on_wal_mem by (metis keeps_def)
  then show ?thesis
    by (auto simp: keeps_def reset_or_remove_def split: prod.splits sum.splits goerr.splits) (metis snd_conv)+
qed

section \<open>The steps of a flush\<close>

text \<open>The steps before the memtable is replaced, and those after.\<close>

definition flush_write :: "os \<Rightarrow> gostr \<Rightarrow> entry list \<Rightarrow> (writer, lsm) prog" where
  "flush_write os p es =
     andthen (on_files (CreateWriter os p (int (length es)) 128)) (\<lambda>w.
     andthen (on_files (append_entries os w es)) (\<lambda>w1.
     on_files (w_Close os w1)))"

definition flush_rest :: "os \<Rightarrow> kernel \<Rightarrow> gostr \<Rightarrow> (unit, lsm) prog" where
  "flush_rest os k p =
     andthen (reset_or_remove os k p) (\<lambda>_.
     andthen (add_outputs os 0 [p]) (\<lambda>_.
     andthen (lsm_writeManifest os) (\<lambda>_.
     andthen (update (\<lambda>L. L\<lparr>l_compactCh := True\<rparr>)) (\<lambda>_.
     (\<lambda>L. if l_maxL0Files L * 2 < length (l_levels L ! 0) then compactL0ToL1 os L else (Inr (), L))))))"

lemma flushMemtable_steps:
  assumes "mt_Count (l_memtable L) \<noteq> 0" "mt_Entries (l_memtable L) = (m1, es)"
  shows "flushMemtable os k L =
     (case flush_write os (flush_name (l_nextID L)) es (L\<lparr>l_memtable := m1, l_nextID := l_nextID L + 1\<rparr>) of
        (Inl e, L1) \<Rightarrow> (Inl e, L1)
      | (Inr w, L1) \<Rightarrow> flush_rest os k (flush_name (l_nextID L))
          ((upd_stats (\<lambda>s. s\<lparr>ss_SSTableBytesWritten := ss_SSTableBytesWritten s + int (w_Info w)\<rparr>) L1)\<lparr>l_memtable := mt_New\<rparr>))"
  using assms
  by (simp add: flushMemtable_def Let_def flush_write_def flush_rest_def andthen_def update_def
      split: prod.splits sum.splits)

lemma on_files_frame:
  "on_files m L = (r, L') \<Longrightarrow> L' = L\<lparr>l_disk := l_disk L'\<rparr>"
  by (auto simp: on_files_def on_disk_def split: prod.splits)

lemma flush_write_frame:
  assumes "flush_write os p es L = (r, L')"
  shows "L' = L\<lparr>l_disk := l_disk L'\<rparr>"
proof -
  have "\<exists>d. L' = L\<lparr>l_disk := d\<rparr>"
    using assms by (auto simp: flush_write_def andthen_def split: prod.splits sum.splits dest!: on_files_frame) (metis lsm.surjective lsm.update_convs(1))+
  then show ?thesis by auto
qed

lemma flush_rest_mem: "keeps l_memtable (flush_rest os k p)"
proof -
  have "keeps l_memtable (\<lambda>L. if l_maxL0Files L * 2 < length (l_levels L ! 0) then compactL0ToL1 os L else (Inr (), L))"
    using kept_mem.compactL0ToL1 by (simp add: keeps_def)
  then show ?thesis
    unfolding flush_rest_def
    by (intro keeps_andthen reset_or_remove_mem kept_mem.add_outputs kept_mem.writeManifest keeps_update) simp_all
qed

text \<open>What a flush leaves as it is: a part that does not depend on what it changes either.\<close>

locale flush_frame = tick_frame +
  assumes memtable: "f (L\<lparr>l_memtable := m\<rparr>) = f L"
    and reset: "keeps f (on_wal (wal_Reset os k))"
begin

lemma reset_or_remove: "keeps f (reset_or_remove os k p)"
proof -
  have "f (snd (on_wal (wal_Reset os k) L)) = f L" for L
    using reset by (metis keeps_def)
  then show ?thesis
    by (auto simp: keeps_def reset_or_remove_def disk split: prod.splits sum.splits goerr.splits) (metis snd_conv)+
qed

lemma flush_rest: "keeps f (flush_rest os k p)"
proof -
  have "keeps f (\<lambda>L. if l_maxL0Files L * 2 < length (l_levels L ! 0) then compactL0ToL1 os L else (Inr (), L))"
    using compactL0ToL1 by (simp add: keeps_def)
  then show ?thesis
    unfolding flush_rest_def
    by (intro keeps_andthen reset_or_remove add_outputs writeManifest keeps_update) (simp_all add: compactCh)
qed

lemma flushMemtable:
  assumes run: "flushMemtable os k L = (r, L')"
  shows "f L' = f L"
proof (cases "mt_Count (l_memtable L) = 0")
  case True
  then show ?thesis using run by (auto simp: flushMemtable_def)
next
  case some: False
  obtain m1 es where e: "mt_Entries (l_memtable L) = (m1, es)" by fastforce
  define L0 where "L0 = L\<lparr>l_memtable := m1, l_nextID := l_nextID L + 1\<rparr>"
  obtain q L1 where w: "flush_write os (flush_name (l_nextID L)) es L0 = (q, L1)" by fastforce
  have v: "f L1 = f L"
    by (subst flush_write_frame [OF w]) (simp add: L0_def disk memtable nextID)
  have "f ((upd_stats (\<lambda>s. s\<lparr>ss_SSTableBytesWritten := g s\<rparr>) L1)\<lparr>l_memtable := mt_New\<rparr>) = f L" for g
    using v by (simp add: memtable upd_stats_def stats)
  with v show ?thesis
    using run unfolding flushMemtable_steps [OF some e] L0_def [symmetric] w prod.case
    by (auto split: sum.splits dest: keepsD [OF flush_rest])
qed

end

section \<open>Writing the table\<close>

text \<open>A step that succeeds does what it does when every call succeeds.\<close>

definition honest :: "('a, 's) prog \<Rightarrow> ('a, 's) prog \<Rightarrow> bool" where
  "honest m m' \<longleftrightarrow> (\<forall>s x s'. m s = (Inr x, s') \<longrightarrow> m' s = (Inr x, s'))"

lemma honestD: "honest m m' \<Longrightarrow> m s = (Inr x, s') \<Longrightarrow> m' s = (Inr x, s')"
  by (simp add: honest_def)

lemma honest_andthen: "honest m m' \<Longrightarrow> (\<And>x. honest (f x) (f' x)) \<Longrightarrow> honest (andthen m f) (andthen m' f')"
  unfolding honest_def by (auto simp: andthen_def split: prod.splits sum.splits)

lemma honest_refl: "honest m m"
  by (simp add: honest_def)

lemma honest_need: "(b \<Longrightarrow> b') \<Longrightarrow> honest (need b e) (need b' e)"
  by (simp add: honest_def need_def)

lemma honest_on_files: "honest m m' \<Longrightarrow> honest (on_files m) (on_files m')"
  by (auto simp: honest_def on_files_def on_disk_def split: prod.splits)

lemma w_Append_honest: "w_Append os w e = (w', None) \<Longrightarrow> w_Append os_ok w e = (w', None)"
  by (auto simp: w_Append_def w_grow_def Let_def split: if_splits prod.splits option.splits)

lemma append_or_close_ok_iff: "append_or_close os w e fs = (Inr w', fs') \<longleftrightarrow> w_Append os w e = (w', None) \<and> fs' = fs"
  by (auto simp: append_or_close_def split: prod.splits option.splits goerr.splits sum.splits)

lemma append_entries_honest:
  "append_entries os w es fs = (Inr w', fs') \<Longrightarrow> append_entries os_ok w es fs = (Inr w', fs')"
proof (induction os w es fs rule: append_entries.induct)
  case (2 os w e es fs)
  then obtain w1 where w1: "append_or_close os w e fs = (Inr w1, fs)" "append_entries os w1 es fs = (Inr w', fs')"
    by (auto split: prod.splits sum.splits simp: append_or_close_ok_iff)
  then have "append_or_close os_ok w e fs = (Inr w1, fs)"
    unfolding append_or_close_ok_iff using w_Append_honest by blast
  moreover have "append_entries os_ok w1 es fs = (Inr w', fs')" using 2(1) w1 by simp
  ultimately show ?case by simp
qed simp

lemma flush_write_honest: "honest (flush_write os p es) (flush_write os_ok p es)"
  unfolding flush_write_def
proof (intro honest_andthen honest_on_files)
  show "honest (CreateWriter os p n s) (CreateWriter os_ok p n s)" for n s
    unfolding CreateWriter_def by (intro honest_andthen honest_need honest_refl) simp_all
  show "honest (append_entries os w es) (append_entries os_ok w es)" for w
    using append_entries_honest by (simp add: honest_def)
  show "honest (w_Close os w) (w_Close os_ok w)" for w
    unfolding w_Close_def split_def by (intro honest_andthen honest_need honest_refl) simp_all
qed

text \<open>The steps of a writer change its own file only.\<close>

definition only_file :: "gostr \<Rightarrow> fs \<Rightarrow> fs \<Rightarrow> bool" where
  "only_file p fs fs' \<longleftrightarrow> (\<forall>q. q \<noteq> p \<longrightarrow> map_of fs' q = map_of fs q)"

lemma only_file_refl [simp]: "only_file p fs fs"
  by (simp add: only_file_def)

lemma only_file_trans: "only_file p fs fs' \<Longrightarrow> only_file p fs' fs'' \<Longrightarrow> only_file p fs fs''"
  by (simp add: only_file_def)

lemma CreateWriter_file:
  assumes "CreateWriter os p n s fs = (r, fs')"
  shows "only_file p fs fs' \<and> (\<forall>w. r = Inr w \<longrightarrow> w_path w = p)"
  using assms by (auto simp: CreateWriter_def only_file_def ret_def w_init_def split: if_splits)

lemma w_Append_path: "w_Append os w e = (w', r) \<Longrightarrow> w_path w' = w_path w"
  by (auto simp: w_Append_def w_grow_def w_store_def Let_def split: if_splits prod.splits option.splits sum.splits)

lemma w_Close_file: "w_Close os w fs = (r, fs') \<Longrightarrow> only_file (w_path w) fs fs'"
  by (auto simp: w_Close_def only_file_def ret_def asks_def andthen_def need_def update_def split: if_splits sum.splits prod.splits)

lemma append_or_close_file:
  assumes "append_or_close os w e fs = (r, fs')"
  shows "only_file (w_path w) fs fs' \<and> (\<forall>w'. r = Inr w' \<longrightarrow> w_path w' = w_path w)"
proof -
  obtain w1 ro where a: "w_Append os w e = (w1, ro)" by fastforce
  note path = w_Append_path [OF a]
  obtain q fs1 where c: "w_Close os w1 fs = (q, fs1)" by fastforce
  have other: "only_file (w_path w) fs fs1" using w_Close_file [OF c] path by simp
  show ?thesis
  proof (cases ro)
    case None
    then show ?thesis using assms a path by (auto simp: append_or_close_def)
  next
    case (Some err)
    then have "(fs' = fs \<or> fs' = fs1) \<and> (\<exists>e. r = Inl e)"
      using assms a c by (cases err) (auto simp: append_or_close_def split: sum.splits goerr.splits)
    then show ?thesis using other by auto
  qed
qed

lemma append_entries_file:
  "append_entries os w es fs = (r, fs') \<Longrightarrow> only_file (w_path w) fs fs' \<and> (\<forall>w'. r = Inr w' \<longrightarrow> w_path w' = w_path w)"
proof (induction os w es fs rule: append_entries.induct)
  case (2 os w e es fs)
  obtain q fs1 where q: "append_or_close os w e fs = (q, fs1)" by fastforce
  note one = append_or_close_file [OF q]
  show ?case
  proof (cases q)
    case (Inl err)
    then have "fs' = fs1" "r = Inl err" using 2(2) q by simp_all
    then show ?thesis using one by simp
  next
    case (Inr w1)
    then have "append_entries os w1 es fs1 = (r, fs')" using 2(2) q by simp
    from 2(1) [OF q [symmetric] Inr this]
    have rest: "only_file (w_path w1) fs1 fs'" "\<And>w'. r = Inr w' \<Longrightarrow> w_path w' = w_path w1" by blast+
    have w1: "w_path w1 = w_path w" using one Inr by blast
    then have "only_file (w_path w) fs fs'" using one rest(1) only_file_trans by metis
    then show ?thesis using rest(2) w1 by metis
  qed
qed auto

lemma flush_write_file:
  assumes "flush_write os p es L = (r, L')"
  shows "\<exists>fs. L' = L\<lparr>l_disk := (l_disk L)\<lparr>d_files := fs\<rparr>\<rparr> \<and> only_file p (files_of L) fs"
proof -
  obtain r1 fs1 where c: "CreateWriter os p (int (length es)) 128 (files_of L) = (r1, fs1)" by fastforce
  note c' = CreateWriter_file [OF c]
  show ?thesis
  proof (cases r1)
    case (Inl e)
    then show ?thesis using assms c c'
      by (intro exI [of _ fs1]) (simp add: flush_write_def andthen_def on_files_def on_disk_def)
  next
    case (Inr w)
    obtain r2 fs2 where a: "append_entries os w es fs1 = (r2, fs2)" by fastforce
    note a' = append_entries_file [OF a]
    show ?thesis
    proof (cases r2)
      case (Inl e)
      then show ?thesis using assms c c' a a' Inr
        by (intro exI [of _ fs2]) (auto simp: flush_write_def andthen_def on_files_def on_disk_def intro: only_file_trans)
    next
      case i: (Inr w1)
      obtain r3 fs3 where z: "w_Close os w1 fs2 = (r3, fs3)" by fastforce
      have "L' = L\<lparr>l_disk := (l_disk L)\<lparr>d_files := fs3\<rparr>\<rparr>"
        using assms c a Inr i z by (simp add: flush_write_def andthen_def on_files_def on_disk_def)
      moreover have "w_path w = p" "w_path w1 = p" using c' a' Inr i by blast+
      then have "only_file p (files_of L) fs1" "only_file p fs1 fs2" "only_file p fs2 fs3"
        using c' a' w_Close_file [OF z] by simp_all
      then have "only_file p (files_of L) fs3" by (blast intro: only_file_trans)
      ultimately show ?thesis by blast
    qed
  qed
qed

text \<open>A flush of an engine's memtable that has written its table has written all of it.\<close>

lemma flush_write_written:
  assumes ok: "engine_ok L" and size: "at_most (4 * 2 ^ 20 + 2 ^ 17) L"
    and run: "flush_write os p (mem_entries L) L0 = (Inr w, L1)"
  shows "written (files_of L1) p (mem_entries L)"
proof -
  have inv: "mt_wf (l_memtable L)" using engine_inv [OF ok] by simp
  have fits: "mem_fits L"
    by (rule mem_fits_small [OF inv]) (use ok size in \<open>auto simp: engine_ok_def at_most_def\<close>)
  have "sorted_strict (map e_key (mem_entries L))" using mt_Entries_sorted [OF inv] by (simp add: mem_entries_def)
  with write_table_ok [of "int (length (mem_entries L))" "mem_entries L" p "files_of L0"] fits
  obtain w0 fs1 w1 w2 fs2 where W: "CreateWriter os_ok p (int (length (mem_entries L))) 128 (files_of L0) = (Inr w0, fs1)"
      "append_entries os_ok w0 (mem_entries L) fs1 = (Inr w1, fs1)" "w_Close os_ok w1 fs1 = (Inr w2, fs2)"
      "written fs2 p (mem_entries L)"
    by (auto simp: mem_fits_def)
  have "flush_write os_ok p (mem_entries L) L0 = (Inr w, L1)" by (rule honestD [OF flush_write_honest run])
  then have "files_of L1 = fs2" using W(1-3) by (auto simp: flush_write_def andthen_def on_files_def on_disk_def)
  with W(4) show ?thesis by simp
qed

lemma map_file_honest: "map_file os fs p = Inr d \<Longrightarrow> map_file os_ok fs p = Inr d"
  by (auto simp: map_file_def split: if_splits option.splits)

lemma opened_at:
  assumes "written fs p es" "st_OpenNoVerify os fs p = Inr s"
  shows "table_at fs s es \<and> s_path s = p"
proof -
  obtain bf where bf: "map_of fs p = Some (table_file 128 bf es)" "table_ok 128 bf es"
    using assms(1) unfolding written_def by blast
  obtain d where d: "map_file os fs p = Inr d" using assms(2) by (auto simp: st_OpenNoVerify_def bindr_def split: sum.splits)
  then have "d = table_file 128 bf es" using bf(1) by (auto simp: map_file_def split: if_splits)
  with d have os: "map_file os fs p = Inr (table_file 128 bf es)" by simp
  have "take 4 (drop 20 (footer_of (table_file 128 bf es))) = magicNumber"
    using table_footer(2) [OF bf(2)] by (simp add: footer_fields)
  then have "st_OpenNoVerify os_ok fs p = Inr s"
    using assms(2) unfolding st_OpenNoVerify_def os map_file_honest [OF os] by (simp add: Let_def)
  with st_OpenNoVerify_table [OF bf(2,1)] have "s = opened p 128 bf es" by simp
  moreover have "s_path (opened p 128 bf es) = p" by (simp add: opened_def)
  ultimately show ?thesis using bf unfolding table_at_def by auto
qed

section \<open>What a failed flush leaves\<close>

text \<open>The log, if there is one, has been reset.\<close>

definition log_reset :: "os \<Rightarrow> kernel \<Rightarrow> lsm \<Rightarrow> lsm \<Rightarrow> bool" where
  "log_reset os k L L' \<longleftrightarrow>
     (case l_wal L of None \<Rightarrow> l_wal L' = None
      | Some w \<Rightarrow> \<exists>w'. wal_Reset os k w = (w', None) \<and> l_wal L' = Some w')"

lemma log_reset_cong: "l_wal M = l_wal L \<Longrightarrow> l_wal M' = l_wal L' \<Longrightarrow> log_reset os k M M' = log_reset os k L L'"
  by (simp add: log_reset_def cong: option.case_cong)

text \<open>
  The places where a flush stops with an error: before the table is written;
  in the reset of the log, where the table is written or has been removed
  again; in the opening of the table; and, with the table listed in level 0 of
  \<open>L1\<close>, in the manifest or in the compaction that the flush runs.
\<close>

definition stopped_unwritten :: "lsm \<Rightarrow> lsm \<Rightarrow> bool" where
  "stopped_unwritten L L' \<longleftrightarrow>
     l_wal L' = l_wal L \<and> l_levels L' = l_levels L \<and> (\<forall>x. mt_Get (l_memtable L') x = mt_Get (l_memtable L) x)
     \<and> d_manifest (l_disk L') = d_manifest (l_disk L) \<and> only_file (flush_name (l_nextID L)) (files_of L) (files_of L')"

definition stopped_reset :: "os \<Rightarrow> kernel \<Rightarrow> lsm \<Rightarrow> goerr \<Rightarrow> lsm \<Rightarrow> bool" where
  "stopped_reset os k L e L' \<longleftrightarrow>
     l_memtable L' = mt_New \<and> l_levels L' = l_levels L
     \<and> (\<exists>w w'. l_wal L = Some w \<and> wal_Reset os k w = (w', Some e) \<and> l_wal L' = Some w')
     \<and> (written (files_of L') (flush_name (l_nextID L)) (mem_entries L)
        \<or> os (OsRemove (flush_name (l_nextID L))) \<and> map_of (files_of L') (flush_name (l_nextID L)) = None)"

definition stopped_unopened :: "os \<Rightarrow> kernel \<Rightarrow> lsm \<Rightarrow> goerr \<Rightarrow> lsm \<Rightarrow> bool" where
  "stopped_unopened os k L e L' \<longleftrightarrow>
     l_memtable L' = mt_New \<and> l_levels L' = l_levels L \<and> log_reset os k L L'
     \<and> written (files_of L') (flush_name (l_nextID L)) (mem_entries L)
     \<and> st_OpenNoVerify os (files_of L') (flush_name (l_nextID L)) = Inl e"

definition stopped_listed :: "os \<Rightarrow> kernel \<Rightarrow> lsm \<Rightarrow> goerr \<Rightarrow> lsm \<Rightarrow> bool" where
  "stopped_listed os k L e L' \<longleftrightarrow>
     (\<exists>L1 s. l_memtable L1 = mt_New \<and> l_levels L1 = (l_levels L)[0 := l_levels L ! 0 @ [s]] \<and> log_reset os k L L1
        \<and> table_at (files_of L1) s (mem_entries L) \<and> s_path s = flush_name (l_nextID L)
        \<and> (lsm_writeManifest os L1 = (Inl e, L')
           \<or> d_manifest (l_disk L1) = Some (snapshot (l_levels L1)) \<and> compactL0ToL1 os L1 = (Inl e, L')))"

lemma reset_or_remove_ok:
  assumes "reset_or_remove os k p L = (Inr u, L')"
  shows "\<exists>v. L' = L\<lparr>l_wal := v\<rparr>" "log_reset os k L L'"
  using assms
  by (auto simp: reset_or_remove_def on_wal_def log_reset_def split: prod.splits sum.splits goerr.splits option.splits
      intro: exI [of _ "l_wal L"])

lemma reset_or_remove_err:
  assumes "reset_or_remove os k p L = (Inl e, L')"
  shows "\<exists>w w'. l_wal L = Some w \<and> wal_Reset os k w = (w', Some e) \<and> l_wal L' = Some w'"
    "l_memtable L' = l_memtable L" "l_levels L' = l_levels L"
    "files_of L' = files_of L \<or> os (OsRemove p) \<and> files_of L' = fs_remove p (files_of L)"
  using assms
  by (auto simp: reset_or_remove_def on_wal_def split: prod.splits sum.splits goerr.splits option.splits if_splits)

lemma writeManifest_saved:
  "lsm_writeManifest os L = (Inr u, L') \<Longrightarrow>
     \<exists>d. L' = L\<lparr>l_disk := d\<rparr> \<and> d_files d = files_of L \<and> d_manifest d = Some (snapshot (l_levels L))"
  by (auto simp: lsm_writeManifest_def on_disk_def writeManifest_def need_def split: prod.splits if_splits)

lemma flush_rest_fails:
  assumes wr: "written (files_of L2) p es" and m: "l_memtable L2 = mt_New" and run: "flush_rest os k p L2 = (Inl e, L')"
  shows "(\<exists>w w'. l_wal L2 = Some w \<and> wal_Reset os k w = (w', Some e) \<and> l_wal L' = Some w')
        \<and> l_memtable L' = mt_New \<and> l_levels L' = l_levels L2
        \<and> (written (files_of L') p es \<or> os (OsRemove p) \<and> map_of (files_of L') p = None)
     \<or> l_memtable L' = mt_New \<and> l_levels L' = l_levels L2 \<and> log_reset os k L2 L' \<and> written (files_of L') p es
        \<and> st_OpenNoVerify os (files_of L') p = Inl e
     \<or> (\<exists>L1 s. l_memtable L1 = mt_New \<and> l_levels L1 = (l_levels L2)[0 := l_levels L2 ! 0 @ [s]] \<and> log_reset os k L2 L1
        \<and> table_at (files_of L1) s es \<and> s_path s = p
        \<and> (lsm_writeManifest os L1 = (Inl e, L')
           \<or> d_manifest (l_disk L1) = Some (snapshot (l_levels L1)) \<and> compactL0ToL1 os L1 = (Inl e, L')))"
    (is "?reset \<or> ?unopened \<or> ?listed")
proof -
  obtain r3 L3 where r3: "reset_or_remove os k p L2 = (r3, L3)" by fastforce
  show ?thesis
  proof (cases r3)
    case (Inl e')
    then have "e' = e" "L' = L3" using run r3 by (simp_all add: flush_rest_def andthen_def)
    with reset_or_remove_err [of os k p L2 e L3] r3 Inl wr m have ?reset by auto
    then show ?thesis by blast
  next
    case (Inr u)
    obtain v where v: "L3 = L2\<lparr>l_wal := v\<rparr>" and log: "log_reset os k L2 L3"
      using reset_or_remove_ok r3 Inr by blast
    have wr3: "written (files_of L3) p es" using wr by (simp add: v)
    show ?thesis
    proof (cases "st_OpenNoVerify os (files_of L3) p")
      case (Inl e')
      then have "e' = e" "L' = L3" using run r3 Inr by (simp_all add: flush_rest_def andthen_def)
      then show ?thesis using v log wr3 m Inl by simp
    next
      case s: (Inr s)
      define L4 where "L4 = add_level_size 0 (s_dataSize s) (set_level 0 (l_levels L3 ! 0 @ [s]) L3)"
      have L4: "l_memtable L4 = mt_New" "l_levels L4 = (l_levels L2)[0 := l_levels L2 ! 0 @ [s]]" "l_wal L4 = l_wal L3"
          "files_of L4 = files_of L3"
        by (simp_all add: L4_def add_level_size_def set_level_def upd_stats_def v m)
      have at: "table_at (files_of L4) s es" "s_path s = p" using opened_at [OF wr3 s] by (simp_all add: L4(4))
      have log4: "log_reset os k L2 L4" using log log_reset_cong [OF refl L4(3)] by metis
      obtain r5 L5 where r5: "lsm_writeManifest os L4 = (r5, L5)" by fastforce
      show ?thesis
      proof (cases r5)
        case (Inl e')
        then have "lsm_writeManifest os L4 = (Inl e, L')"
          using run r3 Inr s r5 by (simp add: flush_rest_def andthen_def L4_def [symmetric])
        then show ?thesis using L4 at log4 by blast
      next
        case w: (Inr u')
        obtain d where d: "L5 = L4\<lparr>l_disk := d\<rparr>" "d_files d = files_of L4" "d_manifest d = Some (snapshot (l_levels L4))"
          using writeManifest_saved r5 w by blast
        define L6 where "L6 = L5\<lparr>l_compactCh := True\<rparr>"
        have "compactL0ToL1 os L6 = (Inl e, L')"
          using run r3 Inr s r5 w
          by (simp add: flush_rest_def andthen_def L4_def [symmetric] L6_def update_def split: if_splits)
        moreover have "l_memtable L6 = mt_New" "l_levels L6 = (l_levels L2)[0 := l_levels L2 ! 0 @ [s]]"
            "table_at (files_of L6) s es" "d_manifest (l_disk L6) = Some (snapshot (l_levels L6))" "l_wal L6 = l_wal L4"
          using L4 at d by (simp_all add: L6_def)
        moreover from this(5) have "log_reset os k L2 L6" using log4 log_reset_cong [OF refl] by metis
        ultimately show ?thesis using at(2) by blast
      qed
    qed
  qed
qed

lemma failed_flush:
  assumes ok: "engine_ok L" and size: "at_most (4 * 2 ^ 20 + 2 ^ 17) L" and fail: "flushMemtable os k L = (Inl e, L')"
  shows "stopped_unwritten L L' \<or> stopped_reset os k L e L' \<or> stopped_unopened os k L e L' \<or> stopped_listed os k L e L'"
proof -
  have some: "mt_Count (l_memtable L) \<noteq> 0"
  proof
    assume "mt_Count (l_memtable L) = 0"
    then show False using fail by (simp add: flushMemtable_def)
  qed
  define p where "p = flush_name (l_nextID L)"
  obtain m1 where e: "mt_Entries (l_memtable L) = (m1, mem_entries L)"
    by (cases "mt_Entries (l_memtable L)") (simp add: mem_entries_def)
  define L0 where "L0 = L\<lparr>l_memtable := m1, l_nextID := l_nextID L + 1\<rparr>"
  obtain r L1 where w: "flush_write os p (mem_entries L) L0 = (r, L1)" by fastforce
  obtain fs where L1: "L1 = L0\<lparr>l_disk := (l_disk L0)\<lparr>d_files := fs\<rparr>\<rparr>" "only_file p (files_of L0) fs"
    using flush_write_file [OF w] by blast
  note run = fail [unfolded flushMemtable_steps [OF some e] p_def [symmetric] L0_def [symmetric] w prod.case]
  show ?thesis
  proof (cases r)
    case (Inl e')
    then have "L' = L1" using run by simp
    moreover have "mt_Get m1 = mt_Get (l_memtable L)" using mt_Get_Entries [of "l_memtable L"] e by simp
    ultimately have "stopped_unwritten L L'" using L1 by (simp add: stopped_unwritten_def L0_def p_def)
    then show ?thesis by blast
  next
    case (Inr w2)
    define L2 where "L2 = (upd_stats (\<lambda>s. s\<lparr>ss_SSTableBytesWritten := ss_SSTableBytesWritten s + int (w_Info w2)\<rparr>) L1)\<lparr>l_memtable := mt_New\<rparr>"
    have L2: "files_of L2 = files_of L1" "l_memtable L2 = mt_New" "l_levels L2 = l_levels L" "l_wal L2 = l_wal L"
      by (simp_all add: L2_def upd_stats_def L1(1) L0_def)
    have wr: "written (files_of L2) p (mem_entries L)" unfolding L2(1) by (rule flush_write_written [OF ok size w [unfolded Inr]])
    have fr: "flush_rest os k p L2 = (Inl e, L')" using run Inr by (simp add: L2_def)
    have log: "log_reset os k L2 M = log_reset os k L M" for M using log_reset_cong [OF L2(4) refl] .
    show ?thesis
      using flush_rest_fails [OF wr L2(2) fr, unfolded L2(3,4) log]
      unfolding stopped_reset_def stopped_unopened_def stopped_listed_def p_def [symmetric] by (elim disjE) simp_all
  qed
qed

section \<open>A new table that cannot be opened\<close>

definition no_open :: "gostr \<Rightarrow> os" where
  "no_open p = (\<lambda>c. c \<noteq> OsOpen p)"

text \<open>Writing a table and emptying the log open no file.\<close>

lemma no_open_simps [simp]:
  "no_open p (OsOpen q) \<longleftrightarrow> q \<noteq> p" "no_open p (OsMunmap q)" "no_open p (OsTruncate q n)" "no_open p (OsMmap q n)"
  "no_open p (OsSync q)" "no_open p (OsCreate q)" "no_open p OsMkdirAll" "no_open p (OsSeek q)" "no_open p (OsWrite q)"
  "no_open p (OsRemove q)"
  by (simp_all add: no_open_def)

lemma no_open_writer:
  "CreateWriter (no_open p) = CreateWriter os_ok" "w_Close (no_open p) = w_Close os_ok"
  "append_or_close (no_open p) = append_or_close os_ok"
proof -
  show close: "w_Close (no_open p) = w_Close os_ok" by (intro ext) (simp only: w_Close_def no_open_simps)
  have "w_grow (no_open p) = w_grow os_ok" by (intro ext) (simp only: w_grow_def no_open_simps)
  then have "w_Append (no_open p) = w_Append os_ok" by (intro ext) (simp only: w_Append_def)
  then show "append_or_close (no_open p) = append_or_close os_ok"
    using close by (intro ext) (simp only: append_or_close_def)
  show "CreateWriter (no_open p) = CreateWriter os_ok" by (intro ext) (simp only: CreateWriter_def no_open_simps)
qed

lemma no_open_write: "flush_write (no_open p) = flush_write os_ok"
proof -
  have "append_entries (no_open p) w es fs = append_entries os_ok w es fs" for w es fs
    by (induction "no_open p" w es fs rule: append_entries.induct)
      (simp_all add: no_open_writer split: prod.splits sum.splits)
  then have "append_entries (no_open p) = append_entries os_ok" by (simp add: fun_eq_iff)
  then show ?thesis by (intro ext) (simp only: flush_write_def no_open_writer)
qed

lemma no_open_reset: "reset_or_remove (no_open p) = reset_or_remove os_ok"
proof -
  have "wal_renew (no_open p) = wal_renew os_ok" by (intro ext) (simp only: wal_renew_def no_open_simps)
  then have "wal_Reset (no_open p) = wal_Reset os_ok" by (intro ext) (simp only: wal_Reset_def no_open_simps)
  then show ?thesis by (intro ext) (simp only: reset_or_remove_def no_open_simps)
qed

lemma flush_head_steps:
  assumes "mt_Entries (l_memtable L) = (m1, es)"
  shows "flush_head os k L =
     (case flush_write os (flush_name (l_nextID L)) es (L\<lparr>l_memtable := m1, l_nextID := l_nextID L + 1\<rparr>) of
        (Inl e, L1) \<Rightarrow> (Inl e, L1)
      | (Inr w, L1) \<Rightarrow> andthen (reset_or_remove os k (flush_name (l_nextID L))) (\<lambda>_. add_outputs os 0 [flush_name (l_nextID L)])
          ((upd_stats (\<lambda>s. s\<lparr>ss_SSTableBytesWritten := ss_SSTableBytesWritten s + int (w_Info w)\<rparr>) L1)\<lparr>l_memtable := mt_New\<rparr>))"
  using assms
  by (simp add: flush_head_def Let_def flush_write_def andthen_def update_def del: add_outputs.simps
      split: prod.splits sum.splits)

lemma unopened_flush:
  assumes ok: "engine_ok L" and size: "at_most (4 * 2 ^ 20 + 2 ^ 17) L" and some: "mt_Count (l_memtable L) \<noteq> 0"
  shows "\<exists>L'. flushMemtable (no_open (flush_name (l_nextID L))) k L = (Inl ErrOS, L')
     \<and> l_memtable L' = mt_New \<and> l_levels L' = l_levels L
     \<and> (\<forall>w. l_wal L = Some w \<longrightarrow> (\<exists>w'. l_wal L' = Some w' \<and> wal_holds w' []))"
proof -
  define p where "p = flush_name (l_nextID L)"
  obtain m1 es where e: "mt_Entries (l_memtable L) = (m1, es)" by fastforce
  define L0 where "L0 = L\<lparr>l_memtable := m1, l_nextID := l_nextID L + 1\<rparr>"
  have inv: "lsm_inv L (contents_of L)" "mt_wf (l_memtable L)" using engine_inv [OF ok] by simp_all
  have "mem_fits L"
    by (rule mem_fits_small [OF inv(2)]) (use ok size in \<open>auto simp: engine_ok_def at_most_def\<close>)
  moreover have ready: "wal_ready L" using ok by (simp add: engine_ok_def)
  ultimately obtain L4 where head: "flush_head os_ok k L = (Inr (), L4)" using flush_head_ok [OF inv(1)] by blast
  obtain r L1 where W: "flush_write os_ok p es L0 = (r, L1)" by fastforce
  have "r \<noteq> Inl e" for e
    using head unfolding flush_head_steps [OF e] p_def [symmetric] L0_def [symmetric] W prod.case by auto
  then obtain w where w: "r = Inr w" by (cases r) auto
  define L2 where "L2 = (upd_stats (\<lambda>s. s\<lparr>ss_SSTableBytesWritten := ss_SSTableBytesWritten s + int (w_Info w)\<rparr>) L1)\<lparr>l_memtable := mt_New\<rparr>"
  have "L1 = L0\<lparr>l_disk := l_disk L1\<rparr>" using flush_write_frame [OF W] .
  then obtain d where "L1 = L0\<lparr>l_disk := d\<rparr>" by blast
  then have L2: "l_levels L2 = l_levels L" "l_wal L2 = l_wal L" "l_memtable L2 = mt_New"
    by (simp_all add: L2_def L0_def upd_stats_def)
  then have "wal_ready L2" using ready by (simp add: wal_ready_def)
  from wal_reset_ready [OF this, of k p] obtain v where
    v: "reset_or_remove os_ok k p L2 = (Inr (), L2\<lparr>l_wal := v\<rparr>)"
      and all: "\<forall>u. l_wal L2 = Some u \<longrightarrow> (\<exists>u'. v = Some u' \<and> wal_holds u' [] \<and> wa_mode u' = wa_mode u
         \<and> wa_file u' = walVersion # replicate (wal_initialMmapSize - 1) 0)"
    by (elim exE conjE) (rule that)
  have holds: "\<exists>u'. v = Some u' \<and> wal_holds u' []" if "l_wal L = Some u" for u
    using all that unfolding L2(2) by blast
  have "st_OpenNoVerify (no_open p) fs p = Inl ErrOS" for fs
    by (simp add: st_OpenNoVerify_def map_file_def no_open_def)
  then have "flushMemtable (no_open p) k L = (Inl ErrOS, L2\<lparr>l_wal := v\<rparr>)"
    unfolding flushMemtable_steps [OF some e] p_def [symmetric] L0_def [symmetric] no_open_write W w prod.case sum.case
      L2_def [symmetric] flush_rest_def
    by (simp add: andthen_def no_open_reset v)
  with L2 holds show ?thesis unfolding p_def by auto
qed

end
