(* ===== verification/Programs.thy ===== *)
theory Programs
  imports BenchWal DemoReport FlushFaults
begin

text \<open>
  The main functions of \<open>cmd/lsmdemo\<close>, \<open>cmd/profile\<close> and \<open>cmd/benchwal\<close> as a
  whole: what they do to the engine, in directories of their own, and what they
  print.  The readings of the clock, the random numbers and the rounds of the
  background goroutine are arguments; what the profiler and the tracer write to
  their files is not part of the model.  An error that a program does not look at
  leaves a nil pointer, and the first call on it panics.
\<close>

section \<open>Durations\<close>

text \<open>
  \<open>time.Duration.String\<close> for a duration that is not negative, in nanoseconds:
  the digits behind the point without trailing zeros, and the unit that fits.
\<close>

fun fmtFrac :: "nat \<Rightarrow> nat \<Rightarrow> gostr \<Rightarrow> gostr \<times> nat" where
  "fmtFrac 0 v acc = ((if acc = [] then [] else 46 # acc), v)"
| "fmtFrac (Suc prec) v acc =
     fmtFrac prec (v div 10) (if acc \<noteq> [] \<or> v mod 10 \<noteq> 0 then digit (v mod 10) # acc else [])"

definition fmtClock :: "nat \<Rightarrow> gostr \<Rightarrow> gostr" where
  "fmtClock u fr =
     (let s = dec (u mod 60) @ fr @ ascii ''s''; minutes = u div 60; hours = minutes div 60
      in if minutes = 0 then s
         else if hours = 0 then dec minutes @ ascii ''m'' @ s
         else dec hours @ ascii ''h'' @ dec (minutes mod 60) @ ascii ''m'' @ s)"

definition duration_String :: "nat \<Rightarrow> gostr" where
  "duration_String d =
     (if d = 0 then ascii ''0s''
      else if d < 10 ^ 9 then
        (let (prec, unit) = (if d < 10 ^ 3 then (0, ascii ''ns'') else if d < 10 ^ 6 then (3, [0xC2, 0xB5, 115]) else (6, ascii ''ms''));
             (fr, u) = fmtFrac prec d []
         in dec u @ fr @ unit)
      else (case fmtFrac 9 d [] of (fr, u) \<Rightarrow> fmtClock u fr))"

lemma fmtFrac_numeral:
  "fmtFrac (numeral k) v acc =
     fmtFrac (pred_numeral k) (v div 10) (if acc \<noteq> [] \<or> v mod 10 \<noteq> 0 then digit (v mod 10) # acc else [])"
  by (simp only: numeral_eq_Suc [of k] fmtFrac.simps)

lemma duration_samples:
  "duration_String 999 = ascii ''999ns''" "duration_String 12345678 = ascii ''12.345678ms''"
  "duration_String 1500000000 = ascii ''1.5s''" "duration_String 60000000000 = ascii ''1m0s''"
  "duration_String 3723000000000 = ascii ''1h2m3s''"
  by (simp_all add: duration_String_def fmtFrac_numeral fmtClock_def ascii_def digit_def dec.simps)

section \<open>profile\<close>

definition profile_opts :: options where
  "profile_opts = \<lparr>op_FlushThreshold = 2 ^ 20, op_NumLevels = 0, op_WALSyncMode = SyncAsync, op_NoWAL = False\<rparr>"

definition profile_tail :: "gostr \<Rightarrow> gostr" where
  "profile_tail goos =
     [10] @ line [ascii ''Profile saved to /tmp/cpu.prof''] @ line [ascii ''Trace saved to /tmp/trace.out'']
     @ [10] @ line [ascii ''Analyze with:'']
     @ line [ascii ''  go tool pprof -http=:8080 cpu.prof''] @ line [ascii ''  go tool trace trace.out'']
     @ (if goos = ascii ''linux'' then
          [10] @ line [ascii ''Or for perf (Linux):''] @ line [ascii ''  perf record -F 997 -g ./profile'']
          @ line [ascii ''  perf report -g graph'']
        else [])"

definition profile_report :: "nat \<Rightarrow> gostr \<Rightarrow> stats \<Rightarrow> gostr" where
  "profile_report elapsed goos st =
     [10] @ line [fmt_d 1000000, ascii '' writes in '', duration_String elapsed, ascii '' = '',
       fmt_f 0 (rate 1000000 elapsed), ascii '' writes/s'']
     @ profile_text st @ profile_tail goos"

definition profile_main :: "os \<Rightarrow> kernel \<Rightarrow> i64 \<Rightarrow> (nat \<Rightarrow> i64) \<Rightarrow> (nat \<Rightarrow> nat) \<Rightarrow> nat \<Rightarrow> gostr \<Rightarrow> disk \<Rightarrow> gostr res" where
  "profile_main os k t now bg elapsed goos d =
     (case fst (lsm_Open os k t profile_opts d) of
        Inl e \<Rightarrow> Inl (Panic NilDeref)
      | Inr L \<Rightarrow>
          fst (andthen (profile_load os k now bg 1000000) (\<lambda>_.
               andthen (asks (\<lambda>L. Inr (lsm_Stats L))) (\<lambda>st.
               andthen (attempt (lsm_Close os k)) (\<lambda>_.
               ret (profile_report elapsed goos st)))) L))"

section \<open>lsmdemo\<close>

text \<open>
  What one mode meets: the time of the opening, the times and background rounds
  of the loads, the random numbers, the four durations.
\<close>

record demo_input =
  di_open :: i64
  di_seq :: "nat \<Rightarrow> i64"
  di_rnd :: "nat \<Rightarrow> i64"
  di_seqBg :: "nat \<Rightarrow> nat"
  di_rndBg :: "nat \<Rightarrow> nat"
  di_keys :: "nat list"
  di_reads :: "nat list"
  di_missing :: "nat list"
  di_seqDur :: nat
  di_randDur :: nat
  di_readDur :: nat
  di_missDur :: nat

text \<open>\<open>log.Fatal\<close> ends the program with the error of \<open>Open\<close> or of a full batch.\<close>

definition demo_mode :: "os \<Rightarrow> kernel \<Rightarrow> demo_input \<Rightarrow> sync_mode \<Rightarrow> disk \<Rightarrow> stats res" where
  "demo_mode os k i mode d =
     (case fst (lsm_Open os k (di_open i) (bench_opts mode False) d) of
        Inl e \<Rightarrow> Inl e
      | Inr L \<Rightarrow>
          fst (andthen (demo_loads os k (di_seq i) (di_rnd i) (di_seqBg i) (di_rndBg i) 1000000 (di_keys i)) (\<lambda>_.
               andthen (bench_reads (di_reads i) (di_missing i)) (\<lambda>_.
               andthen (asks (\<lambda>L. Inr (lsm_Stats L))) (\<lambda>st.
               andthen (attempt (lsm_Close os k)) (\<lambda>_. ret st)))) L))"

fun demo_modes :: "os \<Rightarrow> kernel \<Rightarrow> (demo_input \<times> gostr \<times> sync_mode) list \<Rightarrow> (gostr \<times> bench_result list) res" where
  "demo_modes os k [] = Inr ([], [])"
| "demo_modes os k ((i, name, mode) # ms) =
     bindr (demo_mode os k i mode empty_disk) (\<lambda>st.
     bindr (demo_modes os k ms) (\<lambda>(text, results).
       Inr (demo_mode_text name (di_seqDur i) (di_randDur i) (di_readDur i) (di_missDur i) st @ text,
            demo_result name (di_seqDur i) (di_randDur i) (di_readDur i) (di_missDur i) st # results)))"

definition demo_main :: "os \<Rightarrow> kernel \<Rightarrow> gostr \<Rightarrow> nat \<Rightarrow> gostr \<Rightarrow> gostr \<Rightarrow> demo_input list \<Rightarrow> gostr res" where
  "demo_main os k version cpus goos goarch inputs =
     bindr (demo_modes os k (zip inputs (syncModes goos))) (\<lambda>(text, results).
       Inr (demo_head version cpus goos goarch @ text @ demo_summary results))"

section \<open>benchwal\<close>

text \<open>
  The raw writes: errors are dropped, also those of a file that could not be
  created, and a write that fails is taken to write nothing.
\<close>

fun raw_writes :: "os \<Rightarrow> gostr \<Rightarrow> byte list \<Rightarrow> nat \<Rightarrow> byte list \<Rightarrow> byte list" where
  "raw_writes os p buf 0 f = f"
| "raw_writes os p buf (Suc n) f = raw_writes os p buf n (if os (OsWrite p) then f @ buf else f)"

definition raw_file :: gostr where
  "raw_file = ascii ''test.dat''"

definition raw_bench :: "os \<Rightarrow> fs \<Rightarrow> fs" where
  "raw_bench os fs =
     (if os (OsCreate raw_file) then AList.update raw_file (raw_writes os raw_file (replicate 37000 0) 10000 []) fs else fs)"

definition wal_bench :: "os \<Rightarrow> kernel \<Rightarrow> fs \<Rightarrow> unit res \<times> fs" where
  "wal_bench os k fs =
     (case wal_New os k (ascii ''wal-bench'') SyncAlways fs of
        (Inl e, fs1) \<Rightarrow> (Inl (Panic NilDeref), fs1)
      | (Inr w, fs1) \<Rightarrow>
          (case append_times os k (bench_entries 1000) 10000 w of
             (w1, Some e) \<Rightarrow> (Inl e, AList.update (ascii ''wal-bench'') (wa_file w1) fs1)
           | (w1, None) \<Rightarrow>
               (case wal_Close os k w1 of
                  (w2, Some (Panic f)) \<Rightarrow> (Inl (Panic f), AList.update (ascii ''wal-bench'') (wa_file w2) fs1)
                | (w2, Some Hang) \<Rightarrow> (Inl Hang, AList.update (ascii ''wal-bench'') (wa_file w2) fs1)
                | (w2, _) \<Rightarrow> (Inr (), AList.update (ascii ''wal-bench'') (wa_file w2) fs1))))"

definition lsm_bench :: "os \<Rightarrow> kernel \<Rightarrow> i64 \<Rightarrow> (nat \<Rightarrow> i64) \<Rightarrow> (nat \<Rightarrow> nat) \<Rightarrow> disk \<Rightarrow> unit res" where
  "lsm_bench os k t now bg d =
     (case fst (lsm_Open os k t (bench_opts SyncAlways False) d) of
        Inl e \<Rightarrow> Inl (Panic NilDeref)
      | Inr L \<Rightarrow>
          fst (andthen (bench_same os k now bg 10000 (seq_pairs 1000)) (\<lambda>_. attempt (lsm_Close os k)) L))"

text \<open>The last two lines read the clock twice each.\<close>

definition benchwal_text :: "gostr \<Rightarrow> nat \<Rightarrow> nat \<Rightarrow> nat \<times> nat \<Rightarrow> nat \<Rightarrow> nat \<times> nat \<Rightarrow> gostr" where
  "benchwal_text version cpus rawDur walDur memDur lsmDur =
     line [ascii ''Go '', version, ascii '' | '', fmt_d (int cpus), ascii '' CPUs'']
     @ line [ascii ''write+fsync 37KB x10000: '', fmt_f 0 (rate 10000 rawDur), ascii ''/s'']
     @ line [ascii ''WAL AppendBatch(1000) x'', fmt_d 10000, ascii '': '', fmt_f 0 (rate 10000 (fst walDur)), ascii ''/s ('',
         fmt_f 0 (rate 10000000 (snd walDur)), ascii '' writes/s)'']
     @ line [ascii ''memtable Put 1M: '', fmt_f 0 (rate 1000000 memDur), ascii ''/s'']
     @ line [ascii ''LSM PutBatch(1000) x10000: '', fmt_f 0 (rate 10000 (fst lsmDur)), ascii ''/s ('',
         fmt_f 0 (rate 10000000 (snd lsmDur)), ascii '' writes/s)'']"

text \<open>The output, and the memtable that the program fills in between.\<close>

definition benchwal_main :: "os \<Rightarrow> kernel \<Rightarrow> gostr \<Rightarrow> nat \<Rightarrow> i64 \<Rightarrow> (nat \<Rightarrow> i64) \<Rightarrow> (nat \<Rightarrow> nat)
    \<Rightarrow> nat \<Rightarrow> nat \<times> nat \<Rightarrow> nat \<Rightarrow> nat \<times> nat \<Rightarrow> (gostr \<times> memtable) res" where
  "benchwal_main os k version cpus t now bg rawDur walDur memDur lsmDur =
     bindr (fst (wal_bench os k (raw_bench os []))) (\<lambda>_.
     bindr (lsm_bench os k t now bg empty_disk) (\<lambda>_.
       Inr (benchwal_text version cpus rawDur walDur memDur lsmDur, bench_mem 1000000)))"

section \<open>What the statistics do not count\<close>

text \<open>Parts of the engine that only the reads and the opening change.\<close>

locale engine_frame = flush_frame +
  assumes wal: "f (L\<lparr>l_wal := w\<rparr>) = f L"
begin

lemma on_wal: "keeps f (on_wal g)"
  by (simp add: keeps_def on_wal_def wal split: prod.splits option.splits)

lemma upd_WAL: "f (upd_stats (\<lambda>s. s\<lparr>ss_WALBytesWritten := g s\<rparr>) L) = f L"
  by (simp add: upd_stats_def stats)

lemma PutBatch: "keeps f (PutBatch os k now kvs)"
proof (cases "kvs = []")
  case True
  then show ?thesis by (simp add: keeps_def PutBatch_def)
next
  case False
  have "keeps f (put_step os k now kvs)"
  proof -
    have "keeps f (andthen (on_wal (\<lambda>w. wal_AppendBatch os k w (put_entries now kvs)))
        (\<lambda>_. update (upd_stats (\<lambda>s. s\<lparr>ss_WALBytesWritten := ss_WALBytesWritten s + put_estimate kvs\<rparr>))))"
      by (intro keeps_andthen on_wal keeps_update upd_WAL)
    then show ?thesis by (simp add: keeps_def put_step_def puts_def memtable)
  qed
  moreover have "keeps f (\<lambda>L. if l_flushThreshold L \<le> mt_Size (l_memtable L) then flushMemtable os k L else (Inr (), L))"
    using flushMemtable by (simp add: keeps_def) (metis prod.collapse)
  ultimately have "keeps f (andthen (put_step os k now kvs) (\<lambda>_ L.
       if l_flushThreshold L \<le> mt_Size (l_memtable L) then flushMemtable os k L else (Inr (), L)))"
    by (intro keeps_andthen)
  then show ?thesis by (simp only: keeps_def PutBatch_step [OF False]) blast
qed

lemma put_call: "keeps f (put_call os k now bg i kvs)"
proof -
  have "keeps f (rounds os n)" for n by (induction n) (auto intro: compaction_tick)
  then have "keeps f (andthen (rounds os (bg i)) (\<lambda>_. PutBatch os k (now i) kvs))" by (intro keeps_andthen PutBatch)
  then show ?thesis by (simp add: keeps_def put_call_def)
qed

lemma load_loop:
  assumes "\<And>i b. keeps f (p i b)" "\<And>i b. keeps f (q i b)"
  shows "keeps f (load_loop p q n i batch kvs)"
  using assms
  by (induction p q n i batch kvs rule: load_loop.induct) (auto simp: Let_def)

lemma recoverWAL: "keeps f (recoverWAL os k)"
proof -
  have "f (snd (on_wal (wal_Reset os k) L)) = f L" for L using on_wal by (metis keeps_def)
  then show ?thesis by (simp add: keeps_def recoverWAL_def memtable Let_def split: option.splits sum.splits)
qed

lemma lsm_start: "keeps f (lsm_start os k opts)"
proof -
  have load: "keeps f (lsm_load os)"
    by (auto simp: keeps_def lsm_load_def disk levels split: sum.splits)
  have man: "keeps f (\<lambda>L. (Inr (), snd (lsm_writeManifest os L)))"
    using writeManifest by (simp add: keeps_def)
  have "f (updateLevelStats L) = f L" for L by (simp add: updateLevelStats_def upd_stats_def stats)
  moreover have "keeps f (if b then ret () else andthen (on_files m) (\<lambda>w. andthen (update (\<lambda>L. L\<lparr>l_wal := Some w\<rparr>)) (\<lambda>_. recoverWAL os k)))" for b m
    by (cases b) (auto intro!: on_files recoverWAL wal)
  ultimately show ?thesis unfolding lsm_start_def by (intro keeps_andthen load man keeps_update)
qed

end

interpretation opened_files: engine_frame "\<lambda>L. ss_FilesOpened (l_stats L)"
  by unfold_locales (simp_all add: keeps_def on_wal_def split: prod.splits option.splits)

text \<open>
  Nothing but reads opens a table in the sense of \<open>FilesOpened\<close>, which \<open>profile\<close>
  prints as the number of flushes.
\<close>

lemma opened_none: "fst (lsm_Open os k t opts d) = Inr L \<Longrightarrow> ss_FilesOpened (l_stats L) = 0"
  using keepsD [OF opened_files.lsm_start, of os k opts "lsm_init t opts d"]
  by (auto simp: lsm_Open_def lsm_init_def Let_def split: if_splits prod.splits sum.splits)

lemma profile_load_none: "keeps (\<lambda>L. ss_FilesOpened (l_stats L)) (profile_load os k now bg N)"
  unfolding profile_load_def by (intro opened_files.load_loop keeps_attempt opened_files.put_call keeps_ret)

lemma profile_report_none:
  "ss_FilesOpened st = 0 \<Longrightarrow> \<exists>a b. profile_report elapsed goos st = a @ ascii ''stats: flushes=0 ss='' @ b"
proof -
  assume "ss_FilesOpened st = 0"
  then obtain c where "profile_text st = (ascii ''stats: flushes='' @ fmt_d 0 @ ascii '' ss='') @ c"
    by (simp add: profile_text_def line_def Let_def)
  moreover have "ascii ''stats: flushes='' @ fmt_d 0 @ ascii '' ss='' = ascii ''stats: flushes=0 ss=''"
    by (simp add: fmt_d_def ascii_def digit_def dec.simps)
  ultimately have "profile_text st = ascii ''stats: flushes=0 ss='' @ c" by simp
  moreover have "\<exists>a. profile_report elapsed goos st = a @ profile_text st @ profile_tail goos"
    unfolding profile_report_def by (metis append.assoc)
  ultimately show ?thesis by auto
qed

lemma profile_no_flushes:
  assumes "profile_main os k t now bg elapsed goos d = Inr text"
  shows "\<exists>a b. text = a @ ascii ''stats: flushes=0 ss='' @ b"
proof -
  obtain L where L: "fst (lsm_Open os k t profile_opts d) = Inr L"
    using assms by (auto simp: profile_main_def split: sum.splits)
  obtain r L1 where load: "profile_load os k now bg 1000000 L = (r, L1)" by fastforce
  have "ss_FilesOpened (lsm_Stats L1) = 0"
    using keepsD [OF profile_load_none load] opened_none [OF L] by (simp add: lsm_Stats_def)
  moreover have "text = profile_report elapsed goos (lsm_Stats L1)"
    using assms L load by (auto simp: profile_main_def andthen_def asks_def ret_def split: sum.splits prod.splits)
  ultimately show ?thesis using profile_report_none by simp
qed

section \<open>Runs without failing calls\<close>

lemma open_bench:
  assumes "mode \<noteq> SyncIouring" "thr \<le> 4 * 2 ^ 20" "0 \<le> sint t"
  shows "\<exists>L. fst (lsm_Open os_ok kn t \<lparr>op_FlushThreshold = thr, op_NumLevels = 0, op_WALSyncMode = mode, op_NoWAL = False\<rparr> empty_disk)
      = Inr L \<and> engine_inv_for 7 True (L, {}) \<and> at_most (4 * 2 ^ 20) L"
proof -
  let ?o = "\<lparr>op_FlushThreshold = thr, op_NumLevels = 0, op_WALSyncMode = mode, op_NoWAL = False\<rparr>"
  obtain L d where L: "lsm_Open os_ok kn t ?o empty_disk = (Inr L, d)" "engine_ok L" "all_set L = {}" "l_memtable L = mt_New"
      "logged L" "l_numLevels L = 7"
    using lsm_Open_new [of ?o t kn] assms by auto
  then show ?thesis by (auto simp: engine_inv_for_def at_most_def mt_New_def mt_Size_def)
qed

lemma profile_runs:
  assumes t: "0 \<le> sint t" and clock: "clock_runs now 1000000"
  shows "\<exists>L0 L W. fst (lsm_Open os_ok kn t profile_opts empty_disk) = Inr L0
     \<and> profile_load os_ok kn now bg 1000000 L0 = (Inr (), L) \<and> engine_inv_for 7 True (L, W)
     \<and> adds (seq_pairs 1000000) {} W
     \<and> profile_main os_ok kn t now bg elapsed goos empty_disk = Inr (profile_report elapsed goos (lsm_Stats L))"
proof -
  obtain L0 where L0: "fst (lsm_Open os_ok kn t profile_opts empty_disk) = Inr L0" "engine_inv_for 7 True (L0, {})"
      "at_most (4 * 2 ^ 20) L0"
    using open_bench [of SyncAsync "2 ^ 20" t kn] t by (auto simp: profile_opts_def)
  have "clocks_follow now 1000000 now (length ([] :: nat list))" using clock by (simp add: clocks_follow_def clock_runs_def)
  then obtain L W where L: "bench_load os_ok kn now now bg bg 1000000 [] L0 = (Inr (), L)" "engine_inv_for 7 True (L, W)"
      "adds (seq_pairs 1000000 @ rnd_pairs 1000000 []) {} W"
    using bench_load_ok [OF L0(2,3), of "[]" 1000000 now now kn bg bg] by auto
  have "runLSMRnd os_ok kn now bg 1000000 [] L' = (Inr (), L')" for L'
    by (simp add: runLSMRnd_def rnd_pairs_def ret_def)
  then have "profile_load os_ok kn now bg 1000000 L0 = (Inr (), L)"
    using L(1) profile_load_whole [of 1000000] by (auto simp: bench_load_def andthen_def split: prod.splits sum.splits)
  moreover obtain L' where "lsm_Close os_ok kn L = (Inr (), L')" using close_ok L(2) by (auto simp: engine_inv_for_def)
  ultimately show ?thesis
    using L0(1) L(2,3) by (auto simp: profile_main_def andthen_def asks_def ret_def attempt_def rnd_pairs_def)
qed

lemma demo_mode_runs:
  assumes mode: "mode \<noteq> SyncIouring" and t: "0 \<le> sint (di_open i)"
    and keys: "\<forall>r\<in>set (di_keys i). r < 10 ^ 8" "length (di_keys i) \<le> 10 ^ 8"
    and clock: "clocks_follow (di_seq i) 1000000 (di_rnd i) (length (di_keys i))"
  shows "\<exists>L0 L W. fst (lsm_Open os_ok kn (di_open i) (bench_opts mode False) empty_disk) = Inr L0
     \<and> demo_loads os_ok kn (di_seq i) (di_rnd i) (di_seqBg i) (di_rndBg i) 1000000 (di_keys i) L0 = (Inr (), L)
     \<and> engine_inv_for 7 True (L, W) \<and> adds (seq_pairs 1000000 @ rnd_pairs 0 (di_keys i)) {} W
     \<and> ((\<forall>r\<in>set (di_reads i). clean_for L (bench_key r)) \<and> (\<forall>r\<in>set (di_missing i). clean_for L (missing_key r)) \<longrightarrow>
          (\<exists>L'. same_but_stats L L' \<and> demo_mode os_ok kn i mode empty_disk = Inr (lsm_Stats L')))"
proof -
  obtain L0 where L0: "fst (lsm_Open os_ok kn (di_open i) (bench_opts mode False) empty_disk) = Inr L0"
      "engine_inv_for 7 True (L0, {})" "at_most (4 * 2 ^ 20) L0"
    using open_bench [of mode "4 * 2 ^ 20" "di_open i" kn] mode t by (auto simp: bench_opts_def)
  obtain L W where L: "demo_loads os_ok kn (di_seq i) (di_rnd i) (di_seqBg i) (di_rndBg i) 1000000 (di_keys i) L0 = (Inr (), L)"
      "engine_inv_for 7 True (L, W)" "adds (seq_pairs 1000000 @ rnd_pairs 0 (di_keys i)) {} W"
    using demo_loads_ok [OF L0(2,3) keys _ clock, of kn "di_seqBg i" "di_rndBg i"] by auto
  have "\<exists>L'. same_but_stats L L' \<and> demo_mode os_ok kn i mode empty_disk = Inr (lsm_Stats L')"
    if c: "\<forall>r\<in>set (di_reads i). clean_for L (bench_key r)" "\<forall>r\<in>set (di_missing i). clean_for L (missing_key r)"
  proof -
    obtain L1 where L1: "bench_reads (di_reads i) (di_missing i) L = (Inr (), L1)" "same_but_stats L L1"
      using bench_reads_ok [OF L(2) c] by blast
    then have "engine_ok L1" using L(2) same_but_stats_engine [OF L1(2)] by (simp add: engine_inv_for_def)
    then obtain L2 where "lsm_Close os_ok kn L1 = (Inr (), L2)" using close_ok by blast
    with L0(1) L(1) L1 show ?thesis
      by (intro exI [of _ L1]) (simp add: demo_mode_def andthen_def asks_def ret_def attempt_def)
  qed
  with L0(1) L show ?thesis by blast
qed

text \<open>When no mode stops the program, its output is the head, the modes in order, and the summary.\<close>

lemma demo_modes_text:
  assumes "list_all2 (\<lambda>(i, name, mode) st. demo_mode os k i mode empty_disk = Inr st) ms sts"
  shows "demo_modes os k ms = Inr
     (concat (map2 (\<lambda>(i, name, mode). demo_mode_text name (di_seqDur i) (di_randDur i) (di_readDur i) (di_missDur i)) ms sts),
      map2 (\<lambda>(i, name, mode). demo_result name (di_seqDur i) (di_randDur i) (di_readDur i) (di_missDur i)) ms sts)"
  using assms by (induction rule: list_all2_induct) (auto simp: bindr_def)

lemma demo_main_stops:
  assumes "demo_mode os k i SyncAlways empty_disk = Inl e"
  shows "demo_main os k version cpus goos goarch (i # is) = Inl e"
  using assms by (simp add: demo_main_def syncModes_def bindr_def)

lemma raw_writes_ok: "raw_writes os_ok p buf n f = f @ concat (replicate n buf)"
  by (induction n arbitrary: f) simp_all

lemma raw_bench_ok: "map_of (raw_bench os_ok fs) raw_file = Some (replicate 370000000 0)"
proof -
  have "concat (replicate n (replicate m x)) = replicate (n * m) x" for n m and x :: byte
    by (induction n) (simp_all add: replicate_add)
  then show ?thesis by (simp add: raw_bench_def raw_writes_ok update_conv del: replicate.simps)
qed

lemma wal_bench_ok:
  assumes "map_of fs (ascii ''wal-bench'') = None"
  shows "\<exists>fs1. wal_bench os_ok k fs = (Inr (), fs1)
     \<and> map_of fs1 (ascii ''wal-bench'') = Some (walVersion # log_bytes (replicate 10000 (bench_entries 1000)))"
proof -
  obtain w fs1 where w: "wal_New os_ok k (ascii ''wal-bench'') SyncAlways fs = (Inr w, fs1)" "wal_at w []" "wal_up w"
    using wal_New_empty [of fs "ascii ''wal-bench''" SyncAlways k] assms by auto
  then have "wal_holds w []" by (simp add: wal_holds_def)
  moreover have "batch_fits (bench_entries 1000)" by (rule bench_entries_fit) simp
  ultimately obtain w1 where w1: "append_times os_ok k (bench_entries 1000) 10000 w = (w1, None)"
      "wal_holds w1 (replicate 10000 (bench_entries 1000))"
    using append_times_holds [of w "[]" "bench_entries 1000" k 10000] by auto
  obtain w2 where "wal_Close os_ok k w1 = (w2, None)" "wa_file w2 = walVersion # log_bytes (replicate 10000 (bench_entries 1000))"
    using wal_Close_at [of w1 "log_bytes (replicate 10000 (bench_entries 1000))" k] w1(2) by (auto simp: wal_holds_def)
  with w(1) w1(1) show ?thesis by (simp add: wal_bench_def update_conv)
qed

lemma lsm_bench_ok:
  assumes "0 \<le> sint t" "clock_runs now 10000"
  shows "lsm_bench os_ok kn t now bg empty_disk = Inr ()"
proof -
  obtain L0 where L0: "fst (lsm_Open os_ok kn t (bench_opts SyncAlways False) empty_disk) = Inr L0"
      "engine_inv_for 7 True (L0, {})" "at_most (4 * 2 ^ 20) L0"
    using open_bench [of SyncAlways "4 * 2 ^ 20" t kn] assms(1) by (auto simp: bench_opts_def)
  obtain L W where L: "bench_same os_ok kn now bg 10000 (seq_pairs 1000) L0 = (Inr (), L)" "engine_inv_for 7 True (L, W)"
    using bench_same_ok [OF L0(2,3), of 1000 10000 now kn bg] assms(2) by auto
  obtain L' where "lsm_Close os_ok kn L = (Inr (), L')" using close_ok L(2) by (auto simp: engine_inv_for_def)
  with L0(1) L(1) show ?thesis by (simp add: lsm_bench_def andthen_def attempt_def)
qed

lemma benchwal_runs:
  assumes "0 \<le> sint t" "clock_runs now 10000"
  shows "benchwal_main os_ok k version cpus t now bg rawDur walDur memDur lsmDur
      = Inr (benchwal_text version cpus rawDur walDur memDur lsmDur, bench_mem 1000000)"
proof -
  have "map_of (raw_bench os_ok []) (ascii ''wal-bench'') = None"
    by (simp add: raw_bench_def raw_file_def ascii_def)
  from wal_bench_ok [OF this, of k] obtain fs1 where "wal_bench os_ok k (raw_bench os_ok []) = (Inr (), fs1)" by blast
  with lsm_bench_ok [OF assms, of k bg] show ?thesis by (simp add: benchwal_main_def bindr_def)
qed

end
