(* ===== verification/BenchOther.thy ===== *)
theory BenchOther
  imports Loader
begin

text \<open>
  The runs of \<open>bench/compare/compare.go\<close> over BadgerDB and BoltDB.  The databases
  are not part of the repository: their operations are parameters, collected in a
  record.  BoltDB gets the batches the engine gets; with what BadgerDB promises of
  a write batch, the comparison stores the first thousand pairs of each load only.
\<close>

section \<open>BadgerDB\<close>

text \<open>
  \<open>'d\<close> is a database with its write batch.  Errors of the batch and results of
  the reads are dropped by the source, so they are not results here.
\<close>

record 'd badger =
  bg_open :: "bool \<Rightarrow> goerr + 'd"
  bg_NewWriteBatch :: "'d \<Rightarrow> 'd"
  bg_Set :: "gostr \<Rightarrow> gostr \<Rightarrow> 'd \<Rightarrow> 'd"
  bg_Flush :: "'d \<Rightarrow> 'd"
  bg_Cancel :: "'d \<Rightarrow> 'd"
  bg_ViewGet :: "gostr \<Rightarrow> 'd \<Rightarrow> 'd"
  bg_Close :: "'d \<Rightarrow> 'd"

fun badger_loop :: "'d badger \<Rightarrow> nat \<Rightarrow> (gostr \<times> gostr) list \<Rightarrow> 'd \<Rightarrow> 'd" where
  "badger_loop B i [] d = d"
| "badger_loop B i ((k, v) # kvs) d =
     (let d1 = bg_Set B k v d in
      badger_loop B (Suc i) kvs (if (i + 1) mod 1000 = 0 then bg_Flush B d1 else d1))"

definition badger_load :: "'d badger \<Rightarrow> (gostr \<times> gostr) list \<Rightarrow> 'd \<Rightarrow> 'd" where
  "badger_load B kvs d = bg_Cancel B (bg_Flush B (badger_loop B 0 kvs (bg_NewWriteBatch B d)))"

definition runBadgerSeq :: "'d badger \<Rightarrow> nat \<Rightarrow> 'd \<Rightarrow> 'd" where
  "runBadgerSeq B N = badger_load B (seq_pairs N)"

definition runBadgerRnd :: "'d badger \<Rightarrow> nat \<Rightarrow> nat list \<Rightarrow> 'd \<Rightarrow> 'd" where
  "runBadgerRnd B N rs = badger_load B (rnd_pairs N rs)"

definition runBadgerRead :: "'d badger \<Rightarrow> nat list \<Rightarrow> 'd \<Rightarrow> 'd" where
  "runBadgerRead B rs d = foldl (\<lambda>d r. bg_ViewGet B (bench_key r) d) d rs"

definition runBadgerMiss :: "'d badger \<Rightarrow> nat list \<Rightarrow> 'd \<Rightarrow> 'd" where
  "runBadgerMiss B rs d = foldl (\<lambda>d r. bg_ViewGet B (missing_key r) d) d rs"

text \<open>The database as \<open>Close\<close> finds it, and as it leaves it.\<close>

definition runBadger_work :: "'d badger \<Rightarrow> nat \<Rightarrow> nat list \<Rightarrow> nat list \<Rightarrow> nat list \<Rightarrow> 'd \<Rightarrow> 'd" where
  "runBadger_work B N rs rr ms d =
     runBadgerMiss B ms (runBadgerRead B rr (runBadgerRnd B N rs (runBadgerSeq B N d)))"

definition runBadger :: "'d badger \<Rightarrow> bool \<Rightarrow> nat \<Rightarrow> nat list \<Rightarrow> nat list \<Rightarrow> nat list \<Rightarrow> goerr + 'd" where
  "runBadger B syncWrites N rs rr ms =
     (case bg_open B syncWrites of
        Inl e \<Rightarrow> Inl e
      | Inr d \<Rightarrow> Inr (bg_Close B (runBadger_work B N rs rr ms d)))"

text \<open>
  What BadgerDB documents of a write batch: it collects entries until it is
  flushed, and a flush commits and finishes it; a finished batch takes nothing
  more.  \<open>pending d\<close> is the open batch, or \<open>None\<close> after its flush, and \<open>db d\<close> the
  committed pairs.
\<close>

definition badger_laws :: "'d badger \<Rightarrow> ('d \<Rightarrow> (gostr \<times> gostr) list option) \<Rightarrow> ('d \<Rightarrow> kv) \<Rightarrow> bool" where
  "badger_laws B pending db \<longleftrightarrow>
     (\<forall>d. pending (bg_NewWriteBatch B d) = Some [] \<and> db (bg_NewWriteBatch B d) = db d)
     \<and> (\<forall>d k v. pending (bg_Set B k v d) = map_option (\<lambda>kvs. kvs @ [(k, v)]) (pending d)
          \<and> db (bg_Set B k v d) = db d)
     \<and> (\<forall>d. pending (bg_Flush B d) = None
          \<and> db (bg_Flush B d) = (case pending d of None \<Rightarrow> db d | Some kvs \<Rightarrow> db d ++ map_of (rev kvs)))
     \<and> (\<forall>d. db (bg_Cancel B d) = db d) \<and> (\<forall>d k. db (bg_ViewGet B k d) = db d)"

lemma badger_finished:
  assumes "badger_laws B pending db" "pending d = None"
  shows "pending (badger_loop B i kvs d) = None \<and> db (badger_loop B i kvs d) = db d"
  using assms(2)
proof (induction kvs arbitrary: i d)
  case (Cons kv kvs)
  obtain k v where kv: "kv = (k, v)" by fastforce
  let ?d = "bg_Set B k v d"
  have "pending ?d = None" "db ?d = db d" "pending (bg_Flush B ?d) = None" "db (bg_Flush B ?d) = db d"
    using assms(1) Cons.prems by (simp_all add: badger_laws_def)
  then show ?case using Cons.IH [of ?d] Cons.IH [of "bg_Flush B ?d"] by (simp add: kv Let_def)
qed simp

lemma badger_first_batch:
  assumes laws: "badger_laws B pending db" and p: "pending d = Some dn" "length dn = i" "i < 1000"
  shows "db (bg_Flush B (badger_loop B i kvs d)) = db d ++ map_of (rev (take 1000 (dn @ kvs)))"
  using p
proof (induction kvs arbitrary: i d dn)
  case Nil
  then show ?case using laws by (simp add: badger_laws_def)
next
  case (Cons kv kvs)
  obtain k v where kv: "kv = (k, v)" by fastforce
  let ?d = "bg_Set B k v d"
  have d: "pending ?d = Some (dn @ [(k, v)])" "db ?d = db d" using laws Cons.prems(1) by (simp_all add: badger_laws_def)
  show ?case
  proof (cases "i + 1 = 1000")
    case True
    have f: "pending (bg_Flush B ?d) = None" "db (bg_Flush B ?d) = db d ++ map_of (rev (dn @ [(k, v)]))"
      using laws d by (simp_all add: badger_laws_def)
    have "db (bg_Flush B (badger_loop B (Suc i) kvs (bg_Flush B ?d))) = db (bg_Flush B ?d)"
      using badger_finished [OF laws f(1)] laws by (simp add: badger_laws_def)
    moreover have "take 1000 (dn @ kv # kvs) = dn @ [(k, v)]" using True Cons.prems(2) by (simp add: kv)
    ultimately show ?thesis using True f(2) by (simp add: kv Let_def del: rev_append take_append)
  next
    case False
    then have "(i + 1) mod 1000 \<noteq> 0" "Suc i < 1000" using Cons.prems(3) by auto
    then show ?thesis using Cons.IH [OF d(1), of "Suc i"] Cons.prems(2) d(2) by (simp add: kv Let_def)
  qed
qed

lemma badger_load_stored:
  assumes laws: "badger_laws B pending db"
  shows "db (badger_load B kvs d) = db d ++ map_of (rev (take 1000 kvs))"
proof -
  let ?d = "bg_NewWriteBatch B d"
  have "pending ?d = Some []" "db ?d = db d" using laws by (simp_all add: badger_laws_def)
  from badger_first_batch [OF laws this(1), of 0 kvs] this(2) laws show ?thesis
    by (simp add: badger_load_def badger_laws_def)
qed

lemma badger_reads_stored:
  assumes "badger_laws B pending db"
  shows "db (runBadgerRead B rr d) = db d" "db (runBadgerMiss B ms d) = db d"
  unfolding runBadgerRead_def runBadgerMiss_def using assms
  by (induction rr rule: rev_induct, simp_all add: badger_laws_def) (induction ms rule: rev_induct, simp_all)

lemma runBadger_stored:
  assumes "badger_laws B pending db"
  shows "db (runBadger_work B N rs rr ms d)
    = db d ++ map_of (rev (take 1000 (seq_pairs N))) ++ map_of (rev (take 1000 (rnd_pairs N rs)))"
  unfolding runBadger_work_def runBadgerSeq_def runBadgerRnd_def
  by (simp only: badger_reads_stored [OF assms] badger_load_stored [OF assms])

section \<open>BoltDB\<close>

text \<open>\<open>'d\<close> is a database, \<open>'t\<close> an open transaction; the results of \<open>Update\<close> and \<open>View\<close> are dropped.\<close>

record ('d, 't) bolt =
  bo_open :: "bool \<Rightarrow> goerr + 'd"
  bo_Update :: "(unit, 't) prog \<Rightarrow> 'd \<Rightarrow> 'd"
  bo_CreateBucket :: "(unit, 't) prog"
  bo_Put :: "gostr \<Rightarrow> gostr \<Rightarrow> (unit, 't) prog"
  bo_ViewGet :: "gostr \<Rightarrow> 'd \<Rightarrow> 'd"
  bo_Close :: "'d \<Rightarrow> 'd"

text \<open>The body of a transaction stops at the first error.\<close>

fun bolt_puts :: "('d, 't) bolt \<Rightarrow> (gostr \<times> gostr) list \<Rightarrow> (unit, 't) prog" where
  "bolt_puts B [] = ret ()"
| "bolt_puts B ((k, v) # kvs) = andthen (bo_Put B k v) (\<lambda>_. bolt_puts B kvs)"

text \<open>\<open>kv j\<close> is the pair with index \<open>j\<close>.\<close>

function bolt_loop :: "('d, 't) bolt \<Rightarrow> (nat \<Rightarrow> gostr \<times> gostr) \<Rightarrow> nat \<Rightarrow> nat \<Rightarrow> 'd \<Rightarrow> 'd" where
  "bolt_loop B kv N i d =
     (if i < N
      then let i1 = i + 1000; end = (if N < i1 then N else i1) in
           bolt_loop B kv N i1 (bo_Update B (bolt_puts B (map kv [i..<end])) d)
      else d)"
  by pat_completeness auto
termination
  by (relation "measure (\<lambda>(B, kv, N, i, d). N - i)") auto

declare bolt_loop.simps [simp del]

definition runBoltSeq :: "('d, 't) bolt \<Rightarrow> nat \<Rightarrow> 'd \<Rightarrow> 'd" where
  "runBoltSeq B N = bolt_loop B (\<lambda>j. (bench_key j, bench_val j)) N 0"

definition runBoltRnd :: "('d, 't) bolt \<Rightarrow> nat list \<Rightarrow> 'd \<Rightarrow> 'd" where
  "runBoltRnd B rs = bolt_loop B (\<lambda>j. (bench_key (rs ! j), bench_val (j + length rs))) (length rs) 0"

definition runBoltRead :: "('d, 't) bolt \<Rightarrow> nat list \<Rightarrow> 'd \<Rightarrow> 'd" where
  "runBoltRead B rs d = foldl (\<lambda>d r. bo_ViewGet B (bench_key r) d) d rs"

definition runBoltMiss :: "('d, 't) bolt \<Rightarrow> nat list \<Rightarrow> 'd \<Rightarrow> 'd" where
  "runBoltMiss B rs d = foldl (\<lambda>d r. bo_ViewGet B (missing_key r) d) d rs"

definition runBolt :: "('d, 't) bolt \<Rightarrow> bool \<Rightarrow> nat list \<Rightarrow> nat list \<Rightarrow> nat list \<Rightarrow> goerr + 'd" where
  "runBolt B noSync rs rr ms =
     (case bo_open B noSync of
        Inl e \<Rightarrow> Inl e
      | Inr d \<Rightarrow>
          (let d1 = bo_Update B (bo_CreateBucket B) d;
               d2 = runBoltRnd B rs (runBoltSeq B (length rs) d1) in
           Inr (bo_Close B (runBoltMiss B ms (runBoltRead B rr d2)))))"

text \<open>One transaction for each batch of the list of pairs.\<close>

lemma bolt_loop_batches:
  "bolt_loop B kv N i d = foldl (\<lambda>d b. bo_Update B (bolt_puts B b) d) d (batches 1000 (map kv [i..<N]))"
proof (induction B kv N i d rule: bolt_loop.induct)
  case (1 B kv N i d)
  show ?case
  proof (cases "i < N")
    case True
    have t: "take 1000 (map kv [i..<N]) = map kv [i..<(if N < i + 1000 then N else i + 1000)]"
      by (simp add: take_map)
    have d: "drop 1000 (map kv [i..<N]) = map kv [i + 1000..<N]" by (simp add: drop_map)
    have "batches 1000 (map kv [i..<N])
        = map kv [i..<(if N < i + 1000 then N else i + 1000)] # batches 1000 (map kv [i + 1000..<N])"
      using True unfolding t [symmetric] d [symmetric] by (subst batches.simps) simp
    with 1 [OF True refl refl] True show ?thesis by (subst bolt_loop.simps) (simp add: Let_def)
  qed (simp add: bolt_loop.simps)
qed

lemma rnd_pairs_map: "rnd_pairs (length rs) rs = map (\<lambda>j. (bench_key (rs ! j), bench_val (j + length rs))) [0..<length rs]"
  by (rule nth_equalityI) (simp_all add: rnd_pairs_def)

lemma run_all_foldl:
  "run_all (\<lambda>i b. update (g b)) i bs s = (Inr (), foldl (\<lambda>s b. g b s) s bs)"
  by (induction bs arbitrary: i s) (simp_all add: ret_def andthen_def update_def)

end
