(* ===== verification/FullTable.thy ===== *)
theory FullTable
  imports GoText
begin

text \<open>
  \<open>bench/fulltable.go\<close>, which prints the measured figures: the tables, the lines of
  prose, and what \<open>main\<close> writes around them.  The columns of every table start at
  the same rune whatever the rows hold; a label is cut by its bytes.
\<close>

section \<open>Rows\<close>

record benchmark =
  bm_label :: gostr
  bm_seqWrt :: gostr
  bm_randWrt :: gostr
  bm_read :: gostr
  bm_missRd :: gostr
  bm_notes :: gostr

definition cut_label :: "gostr \<Rightarrow> gostr" where
  "cut_label label = (if 44 < length label then take 41 label @ ascii ''...'' else label)"

text \<open>\<open>Printf("  %-45s %12s %12s %12s %12s  %s\n", ...)\<close>.\<close>

definition table_line :: "benchmark \<Rightarrow> gostr" where
  "table_line d =
     [32, 32] @ pad_right 45 (bm_label d) @ [32] @ pad_left 12 (bm_seqWrt d) @ [32] @ pad_left 12 (bm_randWrt d) @ [32]
     @ pad_left 12 (bm_read d) @ [32] @ pad_left 12 (bm_missRd d) @ [32, 32] @ bm_notes d @ [10]"

definition println :: "gostr \<Rightarrow> gostr" where
  "println s = s @ [10]"

definition table_head :: benchmark where
  "table_head = \<lparr>bm_label = ascii ''Engine / Mode'', bm_seqWrt = ascii ''SeqWrite'', bm_randWrt = ascii ''RandWrite'',
     bm_read = ascii ''Read'', bm_missRd = ascii ''MissRead'', bm_notes = ascii ''Notes''\<rparr>"

definition printRows :: "benchmark list \<Rightarrow> gostr" where
  "printRows data =
     table_line table_head @ println ([32, 32] @ strings_Repeat (signs ''_'') 110)
     @ concat (map (\<lambda>d. table_line (d\<lparr>bm_label := cut_label (bm_label d)\<rparr>)) data)"

section \<open>The figures\<close>

definition heading :: "gostr \<Rightarrow> benchmark" where
  "heading label = \<lparr>bm_label = label, bm_seqWrt = [], bm_randWrt = [], bm_read = [], bm_missRd = [], bm_notes = []\<rparr>"

definition row :: "string \<Rightarrow> string \<Rightarrow> string \<Rightarrow> string \<Rightarrow> string \<Rightarrow> string \<Rightarrow> benchmark" where
  "row label seqWrt randWrt readRate missRd notes =
     \<lparr>bm_label = ascii label, bm_seqWrt = ascii seqWrt, bm_randWrt = ascii randWrt, bm_read = ascii readRate,
      bm_missRd = ascii missRd, bm_notes = ascii notes\<rparr>"

definition lsmInternalData :: "benchmark list" where
  "lsmInternalData =
    [row ''  SyncAlways (fsync per 1k batch)''
       ''1,636,992/s'' ''755,735/s'' ''448,790/s'' ''1,206,585/s'' ''batch=1000, sync=1/1k'',
     row ''  SyncAsync (bg goroutine, 10ms)''
       ''1,507,813/s'' ''725,257/s'' ''433,605/s'' ''1,223,497/s'' ''async, no sync'']"

definition macOSFairData :: "benchmark list" where
  "macOSFairData =
    [heading (signs ''__ Async (no fsync guarantee) __''),
     row ''  LSM SyncAsync (ours)''
       ''191,272/s'' ''128,478/s'' ''164,101/s'' ''1,184,443/s'' ''batch=1000'',
     row ''  BadgerDB WriteBatch''
       ''7,093,658/s'' ''6,846,539/s'' ''1,558,244/s'' ''1,693,103/s'' ''WiscKey LSM'',
     row ''  BoltDB batched txn''
       ''2,346,861/s'' ''161,733/s'' ''1,180,524/s'' ''2,112,072/s'' ''NoSync=true'',
     heading ([]),
     heading (signs ''__ Sync per batch (fsync per 1k writes) __''),
     row ''  LSM SyncAlways (ours)''
       ''154,687/s'' ''106,588/s'' ''166,291/s'' ''1,197,220/s'' ''fsync/batch'',
     row ''  BadgerDB SyncWrites''
       ''7,181,715/s'' ''6,922,769/s'' ''1,588,123/s'' ''1,702,442/s'' ''WiscKey LSM'',
     row ''  BoltDB fsync/commit''
       ''111,882/s'' ''21,544/s'' ''1,119,933/s'' ''2,146,205/s'' ''NoSync=false'']"

definition linuxFairData :: "benchmark list" where
  "linuxFairData =
    [heading (signs ''__ Async (no fsync guarantee) __''),
     row ''  LSM SyncAsync (ours)''
       ''1,507,813/s'' ''725,257/s'' ''433,605/s'' ''1,223,497/s'' ''batch=1000'',
     row ''  BadgerDB WriteBatch''
       ''7,153,844/s'' ''7,101,294/s'' ''1,627,766/s'' ''1,585,202/s'' ''WiscKey LSM'',
     row ''  BoltDB batched txn''
       ''2,751,173/s'' ''261,829/s'' ''1,176,811/s'' ''1,924,100/s'' ''NoSync=true'',
     heading ([]),
     heading (signs ''__ Sync per batch (fsync per 1k writes) __''),
     row ''  LSM SyncAlways (ours)''
       ''1,636,992/s'' ''755,735/s'' ''448,790/s'' ''1,206,585/s'' ''fsync/batch'',
     row ''  BadgerDB SyncWrites''
       ''7,029,301/s'' ''7,083,664/s'' ''1,653,740/s'' ''1,825,468/s'' ''WiscKey LSM'',
     row ''  BoltDB fsync/commit''
       ''2,732,746/s'' ''266,265/s'' ''1,185,592/s'' ''1,947,470/s'' ''NoSync=false'']"

section \<open>The prose\<close>

text \<open>The lines of a raw string, printed by \<open>Println\<close>.\<close>

definition unlines :: "gostr list \<Rightarrow> gostr" where
  "unlines ls = concat (map println ls)"

definition printInsights :: gostr where
  "printInsights = unlines
    [[],
     signs ''  {____________________________________________________________________________}'',
     signs ''  |                                                                             |'',
     signs ''  |  1. Buffered SSTable Writer + mmap reads: write 2x, read 3x               |'',
     signs ''  |     > SyncAlways seq: 1.64M/s (was 760k ^ +115%)                           |'',
     signs ''  |     > Read: 434k/s (was 130k ^ +234% from mmap SSTable)                    |'',
     signs ''  |     > Write syscall dropped from 34% CPU to 4% in profile                  |'',
     signs ''  |                                                                             |'',
     signs ''  |  2. crc32.Update flush: saves 4MB read + 4MB alloc per flush              |'',
     signs ''  |     > OpenNoVerify: skips CRC check for freshly-flushed SSTables           |'',
     signs ''  |                                                                             |'',
     signs ''  |  3. Our LSM crushes BoltDB on random writes                               |'',
     signs ''  |     > Linux sync rand: 756k/s vs 266k/s = 2.8x faster than B-tree          |'',
     signs ''  |     > Map-based memtable absorbs random order. B-tree splits are the       |'',
     signs ''  |       bottleneck on random workloads.                                       |'',
     signs ''  |                                                                             |'',
     signs ''  |  4. BoltDB still wins on sequential writes (mmap advantage)                |'',
     signs ''  |     > BoltDB seq: 2.7M/s vs ours 1.6M/s (1.7x gap)                        |'',
     signs ''  |     > BoltDB uses mmap (zero syscalls for page writes) + append-only       |'',
     signs ''  |       rightmost leaf (no splits for sorted keys).                              |'',
     signs ''  |     > Our LSM does write() syscall + fdatasync + serialization per batch.  |'',
     signs ''  |                                                                             |'',
     signs ''  |  5. BadgerDB WriteBatch is 4.5x faster on bulk writes                      |'',
     signs ''  |     > 7M/s vs 1.5M/s. Their WriteBatch does ONE value-log write + memtable |'',
     signs ''  |       update for 1000 entries. Our code: WAL write per batch.                |'',
     signs ''  |     > The gap is architecture, not optimization.                           |'',
     signs ''  |                                                                             |'',
     signs ''  |  6. GC is new #1 bottleneck at ~27% of CPU                                |'',
     signs ''  |     > Faster writes generate more garbage (entries, strings, buffers).     |'',
     signs ''  |     > Next optimization: object pools, reuse allocations.                  |'',
     signs ''  |                                                                             |'',
     signs ''  |  7. Mmap SSTable reads (entire file mmap'd at Open)                        |'',
     signs ''  |     > AllEntries/Get parse directly from kernel page cache (zero copy).    |'',
     signs ''  |     > Eliminates ReadAt syscall + allocation per SSTable open.             |'',
     signs ''  |                                                                             |'',
     signs ''  |  8. Write amplification: 2.80x                                             |'',
     signs ''  |     > 226MB written for 81MB ingested. Excellent.                          |'',
     signs ''  |                                                                             |'',
     signs ''  [____________________________________________________________________________]'']"

definition printWA :: gostr where
  "printWA = unlines
    [[],
     ascii ''    Metric           Value'',
     signs ''    _____________________________'',
     ascii ''    WAL ingested      80.90 MB'',
     ascii ''    SSTable written   72.42 MB'',
     ascii ''    Compaction        153.40 MB'',
     ascii ''    Total written     225.82 MB'',
     signs ''    _____________________________'',
     ascii ''    Write Amplification  2.80x'',
     ascii ''    Bloom skip rate      95.3%'',
     ascii ''    L0 files             4 files / 24 MB'',
     ascii ''    L2 files             10 files / 38 MB'',
     ascii ''  '']"

definition printIOUring :: gostr where
  "printIOUring = unlines
    [ascii ''  io_uring WAL: IORING_OP_WRITE + SQPOLL + ~200 lines of Go'',
     [],
     ascii ''  NOTE: io_uring was tested at an earlier revision. Current'',
     ascii ''  buffered writer results are so good that io_uring's benefit'',
     ascii ''  would be much smaller (the write syscall is only ~4% of CPU).'',
     ascii ''  io_uring would help the WAL write+fsync, which is now the'',
     ascii ''  remaining syscall, but on virtio the gains are limited.'']"

section \<open>main\<close>

definition rule_line :: "gostr" where
  "rule_line = println (strings_Repeat (signs ''_'') 120)"

definition titled :: "gostr list \<Rightarrow> gostr" where
  "titled ls = rule_line @ unlines ls @ rule_line"

text \<open>
  The arguments are the time as it is formatted, the constants and the version of
  \<open>runtime\<close>, and the content of \<open>/proc/1/cmdline\<close> if it can be read.
\<close>

definition fulltable_main :: "gostr \<Rightarrow> gostr \<Rightarrow> gostr \<Rightarrow> gostr \<Rightarrow> gostr option \<Rightarrow> gostr" where
  "fulltable_main time goos goarch version cmdline =
     (let linux = (goos = ascii ''linux'');
          isLima = (linux \<and> (case cmdline of None \<Rightarrow> False | Some b \<Rightarrow> strings_Contains b (ascii ''lima'')));
          fair = ascii ''  All engines: N=1,000,000 | batch=1,000 | 11B keys & values'' in
      println (strings_Repeat (ascii ''='') 120) @ println (ascii ''  COMPLETE LSM TREE BENCHMARK SUITE'')
      @ println (strings_Repeat (ascii ''='') 120)
      @ ascii ''  Generated: '' @ time @ ascii '' | '' @ goos @ ascii ''/'' @ goarch @ ascii '' | '' @ version @ [10, 10]
      @ titled [ascii ''  OUR LSM: INTERNAL BENCHMARKS (per sync mode)'',
          ascii ''  N=1,000,000 | batch=1,000 | 11B keys & values | 100k reads'']
      @ printRows lsmInternalData
      @ println [] @ titled [ascii ''  FAIR COMPETITION: macOS (Apple M-series, APFS)'', fair] @ printRows macOSFairData
      @ println []
      @ titled [if isLima then ascii ''  FAIR COMPETITION: Linux via Lima VM (vz, virtiofs)''
          else ascii ''  FAIR COMPETITION: Linux (native)'', fair]
      @ printRows linuxFairData
      @ println [] @ titled [ascii ''  KEY INSIGHTS''] @ printInsights
      @ println [] @ titled [ascii ''  WRITE AMPLIFICATION (measured)''] @ printWA
      @ println [] @ titled [ascii ''  IO_URING EXPERIMENT'']
      @ (if linux then printIOUring
         else unlines [ascii ''  io_uring is Linux-only.'', ascii ''  Cross-compile and run on Linux:'',
           ascii ''    GOOS=linux GOARCH=arm64 go run ./bench/fulltable.go'']))"

section \<open>The layout of the tables\<close>

lemma cut_label_fits: "length (cut_label l) \<le> 44"
  by (simp add: cut_label_def ascii_def)

text \<open>The columns of a line whose figures are ASCII and fit.\<close>

definition figures :: "benchmark \<Rightarrow> gostr list" where
  "figures d = [bm_seqWrt d, bm_randWrt d, bm_read d, bm_missRd d]"

definition fits :: "benchmark \<Rightarrow> bool" where
  "fits d \<longleftrightarrow> (\<forall>s\<in>set (figures d). length s \<le> 12 \<and> (\<forall>b\<in>set s. b < 0x80))"

lemma ascii_hd: "\<forall>b\<in>set s. b < (0x80 :: byte) \<Longrightarrow> s = [] \<or> hd s < 0x80"
  by (cases s) auto

definition columns :: "benchmark \<Rightarrow> gostr list" where
  "columns d = [[32, 32] @ pad_right 45 (bm_label d) @ [32], pad_left 12 (bm_seqWrt d) @ [32],
     pad_left 12 (bm_randWrt d) @ [32], pad_left 12 (bm_read d) @ [32], pad_left 12 (bm_missRd d) @ [32, 32]]"

lemma table_line_columns: "table_line d = concat (columns d) @ bm_notes d @ [10]"
  by (simp add: table_line_def columns_def)

lemma columns_aligned:
  assumes "rune_count (bm_label d) \<le> 45" "fits d"
  shows "map rune_count (columns d) = [48, 13, 13, 13, 14]"
proof -
  have pad: "rune_count (pad_left 12 s @ t) = 12 + rune_count t" if "s \<in> set (figures d)" "t = [] \<or> hd t < 0x80" for s t
  proof -
    have "\<forall>b\<in>set s. b < 0x80" "length s \<le> 12" using assms(2) that(1) by (auto simp: fits_def)
    then show ?thesis
      using rune_count_pad(2) [OF ascii_hd, of s 12] rune_count_append [OF that(2)] rune_count_ascii [of s] by simp
  qed
  have one: "rune_count [32] = 1" "rune_count [32, 32] = 2"
    using rune_count_spaces [of 1] rune_count_spaces [of 2] by (simp_all add: numeral_eq_Suc)
  have first: "rune_count ([32, 32] @ pad_right 45 (bm_label d) @ [32]) = 48"
  proof -
    have "rune_count (pad_right 45 (bm_label d) @ [32]) = 46"
      using rune_count_append [of "[32]" "pad_right 45 (bm_label d)"] one(1) assms(1) by simp
    moreover have "rune_count ([32] @ [32] @ s) = 2 + rune_count s" for s
      using rune_width_ascii [of 32] by simp
    ultimately show ?thesis by simp
  qed
  have cells: "rune_count (pad_left 12 s @ [32]) = 13" "rune_count (pad_left 12 s @ [32, 32]) = 14"
    if "s \<in> set (figures d)" for s
    using pad [OF that, of "[32]"] pad [OF that, of "[32, 32]"] one by simp_all
  show ?thesis
    unfolding columns_def list.map first cells [unfolded figures_def, OF list.set_intros(1)]
      cells [unfolded figures_def, OF list.set_intros(2), OF list.set_intros(1)]
      cells [unfolded figures_def, OF list.set_intros(2), OF list.set_intros(2), OF list.set_intros(1)]
      cells [unfolded figures_def, OF list.set_intros(2), OF list.set_intros(2), OF list.set_intros(2), OF list.set_intros(1)] ..
qed

text \<open>So every line \<open>printRows\<close> writes has its columns at the same runes.\<close>

definition cut_row :: "benchmark \<Rightarrow> benchmark" where
  "cut_row d = d\<lparr>bm_label := cut_label (bm_label d)\<rparr>"

lemma cut_row_aligned: "fits d \<Longrightarrow> map rune_count (columns (cut_row d)) = [48, 13, 13, 13, 14]"
proof (rule columns_aligned)
  show "rune_count (bm_label (cut_row d)) \<le> 45"
    using rune_count_le [of "cut_label (bm_label d)"] cut_label_fits [of "bm_label d"] by (simp add: cut_row_def)
qed (simp add: fits_def figures_def cut_row_def)

lemma printRows_lines:
  assumes "\<forall>d\<in>set data. fits d"
  shows "printRows data = table_line table_head @ println ([32, 32] @ strings_Repeat (signs ''_'') 110)
       @ concat (map (\<lambda>d. concat (columns (cut_row d)) @ bm_notes d @ [10]) data)"
    "\<forall>d\<in>set data. map rune_count (columns (cut_row d)) = [48, 13, 13, 13, 14]"
  using assms by (auto simp: printRows_def cut_row_def [symmetric] table_line_columns cut_row_aligned)
    (simp add: cut_row_def)

text \<open>The figures of the source fit, and which labels are cut.\<close>

lemma data_fits: "list_all fits (table_head # lsmInternalData @ macOSFairData @ linuxFairData)"
  by code_simp

lemma labels_cut:
  "filter (\<lambda>l. cut_label l \<noteq> l) (map bm_label (lsmInternalData @ macOSFairData @ linuxFairData))
     = replicate 2 (signs ''__ Sync per batch (fsync per 1k writes) __'')
   \<and> rune_count (signs ''__ Sync per batch (fsync per 1k writes) __'') = 42"
  by code_simp

end
