(* ===== verification/CompactCrash.thy ===== *)
theory CompactCrash
  imports Recovery
begin

text \<open>
  A process that stops inside a compaction.  Both compactions remove their input
  files before the manifest lists the merged ones; until it does, the directory
  holds a manifest whose tables are partly gone and tables the manifest does not
  know, and the next opening skips the former and removes the latter.
\<close>

lemma merge_dir:
  assumes ok: "engine_ok L" and w: "l_wal L = Some w" "wal_replays w es" and parts: "parts L i j ins1 rem1 ins2 rem2"
    and head: "replace_head os_ok i j ins1 rem1 ins2 rem2 L = (Inr (), L1)"
  shows "dir_lists (disk_image L1) (l_levels L) (map (filter (\<lambda>s. s \<notin> set (ins1 @ ins2))) (l_levels L)) w es"
proof -
  let ?ins = "ins1 @ ins2"
  have inv: "lsm_inv L (contents_of L)" and saved: "d_manifest (l_disk L) = Some (snapshot (l_levels L))"
    using engine_inv [OF ok] ok by (simp_all add: engine_ok_def saved_def)
  have ij: "i < j" "j < length (l_levels L)" using parts inv by (auto simp: parts_def lsm_inv_def)
  let ?rest = "concat ((l_levels L)[i := rem1, j := rem2])"
  have "mset (concat (l_levels L)) = mset ?ins + mset ?rest"
    by (rule concat_update2 [OF ij]) (use parts in \<open>simp_all add: parts_def\<close>)
  then have sub: "set (concat (l_levels L)) = set ?ins \<union> set ?rest" by (metis set_mset_mset set_mset_union)
  then have "\<forall>s\<in>set ?ins. small_table s" using engine_levels(8) [OF ok] by blast
  from replace_head_ok [OF inv parts this] head obtain es' where
    L1: "replaced L i j ins1 rem1 ins2 rem2 es' (with_manifest L1)" "lsm_inv L1 (contents_of L1)"
      "d_manifest (l_disk L1) = d_manifest (l_disk L)" "\<forall>s\<in>set ?ins. map_of (files_of L1) (s_path s) = None"
    by auto
  obtain new where new: "l_levels L1 = (l_levels L)[i := rem1, j := rem2 @ new]" "l_wal L1 = l_wal L"
    using L1(1) by (auto simp: replaced_def with_manifest_def)
  have "mset (concat (l_levels L1)) = mset ?rest + mset new"
    using concat_update [of j "(l_levels L)[i := rem1, j := rem2]" "rem2 @ new"] ij by (simp add: new(1) ac_simps)
  then have rest: "set ?rest \<subseteq> set (concat (l_levels L1))" by (metis set_mset_mset set_mset_union sup_ge1)
  let ?fs = "d_files (disk_image L1)"
  have files: "map_of ?fs = (map_of (files_of L1))(wal_name \<mapsto> wa_file w)"
    using w(1) new(2) by (simp add: disk_image_def update_conv)
  have names: "has_suffix (s_path s) sst_suffix" if "s \<in> set (concat (l_levels L))" for s
    using engine_levels(7) [OF ok] that by (metis image_eqI set_map)
  have img: "map_of ?fs (s_path s) = map_of (files_of L1) (s_path s)" if "s \<in> set (concat (l_levels L))" for s
    using suffix_wal [OF names [OF that]] by (simp add: files)
  have kept: "table_at ?fs s (cont s)" if "s \<in> set (concat (l_levels L))" "s \<notin> set ?ins" for s
  proof (rule table_at_other [OF _ img [OF that(1)]])
    have "s \<in> set (concat (l_levels L1))" using that sub rest by blast
    then show "table_at (files_of L1) s (cont s)" using L1(2) unfolding lsm_inv_iff by blast
  qed
  have gone: "present ?fs s \<longleftrightarrow> s \<notin> set ?ins" if "s \<in> set (concat (l_levels L))" for s
    using kept [OF that] table_at_present L1(4) img [OF that] by (metis present_def)
  have "map (filter (\<lambda>s. s \<notin> set ?ins)) (l_levels L) = map (filter (present ?fs)) (l_levels L)"
    using gone by (auto intro!: filter_cong)
  moreover have "distinct (map s_path (concat (map (filter (\<lambda>s. s \<notin> set ?ins)) (l_levels L))))"
    using inv by (simp add: lsm_inv_def paths_of_def distinct_map_filter flip: filter_concat)
  moreover have "\<forall>s\<in>set (concat (map (filter (\<lambda>s. s \<notin> set ?ins)) (l_levels L))). table_at ?fs s (cont s)"
    using kept by auto
  moreover have "d_manifest (disk_image L1) = Some (snapshot (l_levels L))"
    using saved L1(3) w(1) new(2) by (simp add: disk_image_def)
  ultimately show ?thesis
    using w(2) files unfolding dir_lists_def by (intro conjI ballI names) (auto simp del: set_concat)
qed

lemma merge_crash:
  assumes ok: "engine_ok L" and w: "l_wal L = Some w" "wal_replays w es" and opts: "recovery_opts opts (l_numLevels L)"
    and now: "l_nextID L \<le> sint now" and parts: "parts L i j ins1 rem1 ins2 rem2"
    and head: "replace_head os_ok i j ins1 rem1 ins2 rem2 L = (Inr (), L1)"
  shows "\<exists>L2. lsm_Open os_ok k now opts (disk_image L1) = (Inr L2, disk_image L2)
     \<and> l_levels L2 = map (filter (\<lambda>s. s \<notin> set (ins1 @ ins2))) (l_levels L)
     \<and> l_memtable L2 = replay_into es mt_New \<and> lsm_inv L2 (contents_of L2)"
proof -
  note lv = engine_levels [OF ok]
  let ?levels = "map (filter (\<lambda>s. s \<notin> set (ins1 @ ins2))) (l_levels L)"
  have "set (map s_path (concat ?levels)) \<subseteq> set (map s_path (concat (l_levels L)))" by auto
  from fresh_subset [OF fresh_less [OF lv(4) now] this]
  show ?thesis
    using lsm_Open_listed [OF merge_dir [OF ok w parts head], of opts now k] opts now lv(1-3,5) by auto
qed

text \<open>The two compactions: after the restart every one of their inputs is missing.\<close>

definition without :: "sstable list \<Rightarrow> lsm \<Rightarrow> sstable list list" where
  "without ins L = map (filter (\<lambda>s. s \<notin> set ins)) (l_levels L)"

lemma merge_loses:
  assumes ok: "engine_ok L" and log: "logged L" and opts: "recovery_opts opts (l_numLevels L)"
    and now: "l_nextID L \<le> sint now" and parts: "parts L i j ins1 rem1 ins2 rem2"
  shows "\<exists>L1 L2. replace_head os_ok i j ins1 rem1 ins2 rem2 L = (Inr (), L1)
     \<and> lsm_Open os_ok k now opts (disk_image L1) = (Inr L2, disk_image L2)
     \<and> l_levels L2 = without (ins1 @ ins2) L \<and> lsm_inv L2 (contents_of L2)
     \<and> (\<forall>x. mt_Get (l_memtable L2) x = mt_Get (l_memtable L) x)"
proof -
  obtain w bs where w: "l_wal L = Some w" "wal_holds w bs"
      "\<forall>x. mt_Get (l_memtable L) x = mt_Get (replay_into (concat bs) mt_New) x"
    using log by (auto simp: logged_def)
  have inv: "lsm_inv L (contents_of L)" using engine_inv [OF ok] by simp
  have ij: "i < j" "j < length (l_levels L)" using parts inv by (auto simp: parts_def lsm_inv_def)
  have "mset (concat (l_levels L)) = mset (ins1 @ ins2) + mset (concat ((l_levels L)[i := rem1, j := rem2]))"
    by (rule concat_update2 [OF ij]) (use parts in \<open>simp_all add: parts_def\<close>)
  then have "set (ins1 @ ins2) \<subseteq> set (concat (l_levels L))" by (metis set_mset_mset set_mset_union sup_ge1)
  then have "\<forall>s\<in>set (ins1 @ ins2). small_table s" using engine_levels(8) [OF ok] by blast
  from replace_head_ok [OF inv parts this] obtain L1 where
    L1: "replace_head os_ok i j ins1 rem1 ins2 rem2 L = (Inr (), L1)" by blast
  from merge_crash [OF ok w(1) wal_holds_replays [OF w(2)] opts now parts L1, of k] L1 w(3) show ?thesis
    unfolding without_def by auto
qed

lemma l0_merge_crash:
  assumes ok: "engine_ok L" and log: "logged L" and opts: "recovery_opts opts (l_numLevels L)"
    and now: "l_nextID L \<le> sint now" and ne: "l_levels L ! 0 \<noteq> []"
  shows "\<exists>L1 L2. l0_merge os_ok L = (Inr (), L1) \<and> lsm_Open os_ok k now opts (disk_image L1) = (Inr L2, disk_image L2)
     \<and> l_levels L2 = without (l0_inputs L @ l1_inputs L) L \<and> lsm_inv L2 (contents_of L2)
     \<and> (\<forall>x. mt_Get (l_memtable L2) x = mt_Get (l_memtable L) x)"
proof -
  have st: "lsm_inv L (contents_of L)" "2 \<le> l_numLevels L" "2 \<le> l_maxL0Files L"
    using ok by (simp_all add: engine_ok_def store_ok_def)
  show ?thesis
    unfolding l0_merge_replace [OF st ne] by (rule merge_loses [OF ok log opts now l0_parts [OF st(1,2)]])
qed

lemma level_merge_crash:
  assumes ok: "engine_ok L" and log: "logged L" and opts: "recovery_opts opts (l_numLevels L)"
    and now: "l_nextID L \<le> sint now" and level: "level + 1 < l_numLevels L"
  shows "\<exists>L1 L2. level_merge os_ok level L = (Inr (), L1) \<and> lsm_Open os_ok k now opts (disk_image L1) = (Inr L2, disk_image L2)
     \<and> l_levels L2 = without (l_levels L ! level @ l_levels L ! (level + 1)) L \<and> lsm_inv L2 (contents_of L2)
     \<and> (\<forall>x. mt_Get (l_memtable L2) x = mt_Get (l_memtable L) x)"
proof -
  have "lsm_inv L (contents_of L)" using engine_inv [OF ok] by simp
  then show ?thesis
    unfolding level_merge_replace [OF \<open>lsm_inv L (contents_of L)\<close> level]
    by (intro merge_loses [OF ok log opts now level_parts [OF level]])
qed

text \<open>A key that only the inputs held is gone.\<close>

lemma without_look:
  assumes "l_levels L2 = without ins L" "mt_Get (l_memtable L2) k = None"
    and "\<forall>s\<in>set (concat (l_levels L)) - set ins. k \<notin> e_key ` set (cont s)"
  shows "look L2 (contents_of L2) k = None"
proof -
  have "k \<notin> e_key ` stored_set L2" using assms(1,3) by (auto simp: stored_set_def without_def)
  then have "newest (stored_entries (contents_of L2)) k = None" unfolding newest_None stored_set_eq .
  then show ?thesis by (simp add: look_def assms(2))
qed

end
