(* ===== verification/CompactFaults.thy ===== *)
theory CompactFaults
  imports CompactCrash FlushFaults
begin

text \<open>
  Compactions of level 0 that fail.  Whatever system calls fail, the memtable and
  the log stay as they are.  Either the merge has failed, and then levels,
  manifest and the files of all listed tables are as before; or the inputs are
  gone, and level 1 lists in their place the merged tables up to the first that
  could not be opened, or all of them when the manifest could not be written.
\<close>

section \<open>The merge up to the opening of its outputs\<close>

definition l0_before :: "os \<Rightarrow> (gostr list, lsm) prog" where
  "l0_before os L =
     andthen (on_files (DoCompact os (l0_inputs L @ l1_inputs L) 1 (l_nextID L))) (\<lambda>(paths, st).
     andthen (update (note_compaction st)) (\<lambda>_.
     andthen (update (drop_tables os 0 (l0_inputs L))) (\<lambda>_.
     andthen (update (drop_tables os 1 (l1_inputs L))) (\<lambda>_.
     andthen (update (\<lambda>x. set_level 1 (l1_rest L) (set_level 0 (l0_rest L) x))) (\<lambda>_.
     ret paths))))) L"

lemma l0_merge_steps:
  assumes "l0_inputs L \<noteq> []" "1 < length (l_levels L)"
  shows "l0_merge os L = andthen (l0_before os) (add_outputs os 1) L"
proof -
  have c: "\<not> (l0_inputs L = [] \<or> length (l_levels L) \<le> 1)" using assms by simp
  show ?thesis
    unfolding l0_merge_def Let_def length_sort l0_inputs_def [symmetric] l0_rest_def [symmetric]
      l1_inputs_def [symmetric] l1_rest_def [symmetric] if_not_P [OF c] l0_before_def
    by (simp add: andthen_def update_def ret_def del: add_outputs.simps split: prod.splits sum.splits)
qed

lemma l0_inputs_some:
  assumes "l_levels L ! 0 \<noteq> []" "2 \<le> l_maxL0Files L"
  shows "l0_inputs L \<noteq> []"
proof -
  have "0 < l0_count (length (l_levels L ! 0)) (l_maxL0Files L)" using assms(2) by (simp add: l0_count_def Let_def)
  moreover have "0 < length (sort_key s_path (l_levels L ! 0))" using assms(1) by simp
  ultimately show ?thesis unfolding l0_inputs_def by (cases "sort_key s_path (l_levels L ! 0)") auto
qed

lemma drop_tables_levels: "l_levels (drop_tables os i ss L) = l_levels L"
  by (induction os i ss L rule: drop_tables.induct) (simp_all add: add_level_size_def upd_stats_def)

lemma note_compaction_levels: "l_levels (note_compaction st L) = l_levels L"
  by (simp add: note_compaction_def upd_stats_def split: option.splits)

lemma l0_before_levels:
  assumes "l0_before os L = (r, L')"
  shows "l_levels L' = (case r of Inl _ \<Rightarrow> l_levels L | Inr _ \<Rightarrow> (l_levels L)[0 := l0_rest L, 1 := l1_rest L])"
proof -
  obtain q L1 where q: "on_files (DoCompact os (l0_inputs L @ l1_inputs L) 1 (l_nextID L)) L = (q, L1)" by fastforce
  then have "l_levels L1 = l_levels L" using on_files_sizes by blast
  then show ?thesis
    using assms by (cases q)
      (auto simp: l0_before_def andthen_def update_def ret_def q drop_tables_levels note_compaction_levels set_level_def)
qed

section \<open>A merge that succeeds or fails\<close>

text \<open>A merge that succeeds does what it does when every call succeeds.\<close>

lemma honest_if: "honest a a' \<Longrightarrow> honest b b' \<Longrightarrow> honest (if c then a else b) (if c then a' else b')"
  by simp

lemma w_Close_honest: "honest (w_Close os w) (w_Close os_ok w)"
  unfolding w_Close_def split_def by (intro honest_andthen honest_need honest_refl) simp_all

lemma CreateWriter_honest: "honest (CreateWriter os p n s) (CreateWriter os_ok p n s)"
  unfolding CreateWriter_def by (intro honest_andthen honest_need honest_refl) simp_all

lemma append_or_close_honest: "honest (append_or_close os w e) (append_or_close os_ok w e)"
  using w_Append_honest by (simp add: honest_def append_or_close_ok_iff)

lemma flushChunk_honest: "honest (flushChunk os o1) (flushChunk os_ok o1)"
  by (cases "o_w o1") (simp_all add: flushChunk_def honest_andthen w_Close_honest honest_refl)

lemma openChunk_honest: "honest (openChunk os level o1) (openChunk os_ok level o1)"
  by (cases "o_w o1") (simp_all add: openChunk_def Let_def honest_andthen CreateWriter_honest honest_refl)

lemma emit_honest: "honest (emit os level e o1) (emit os_ok level e o1)"
  unfolding emit_def split_def
  by (intro honest_if honest_andthen honest_refl flushChunk_honest openChunk_honest append_or_close_honest)

lemma merge_loop_honest: "merge_loop os level h o1 fs = (Inr o2, fs') \<Longrightarrow> merge_loop os_ok level h o1 fs = (Inr o2, fs')"
proof (induction os level h o1 fs rule: merge_loop.induct)
  case (1 os level h o1 fs)
  show ?case
  proof (cases "h = []")
    case True
    with "1.prems" show ?thesis by (simp add: merge_loop.simps)
  next
    case False
    then obtain e h' o3 fs1 where step: "pull h = Inr (e, h')" "emit os level e o1 fs = (Inr o3, fs1)"
        "merge_loop os level h' o3 fs1 = (Inr o2, fs')"
      using "1.prems" by (subst (asm) merge_loop.simps) (auto split: sum.splits prod.splits)
    have "merge_loop os_ok level h' o3 fs1 = (Inr o2, fs')"
      by (rule "1.IH" [OF False step(1) refl step(2) [symmetric] refl step(3)])
    then show ?thesis
      using False step(1) honestD [OF emit_honest step(2)] by (subst merge_loop.simps) simp
  qed
qed

lemma DoCompact_honest: "honest (DoCompact os ssts level n) (DoCompact os_ok ssts level n)"
proof -
  have "honest (merge_loop os level h o1) (merge_loop os_ok level h o1)" for h o1
    using merge_loop_honest by (simp add: honest_def)
  then show ?thesis
    unfolding DoCompact_def Let_def by (intro honest_if honest_andthen honest_refl flushChunk_honest)
qed

text \<open>A merge changes no file but those it names, whether it succeeds or fails.\<close>

definition only_outputs :: "int \<Rightarrow> int \<Rightarrow> fs \<Rightarrow> fs \<Rightarrow> bool" where
  "only_outputs level n fs fs' \<longleftrightarrow> (\<forall>q. (\<forall>m \<ge> n. q \<noteq> compact_name level m) \<longrightarrow> map_of fs' q = map_of fs q)"

definition out_file :: "int \<Rightarrow> int \<Rightarrow> merge_out \<Rightarrow> bool" where
  "out_file level n o1 \<longleftrightarrow> n \<le> o_fileID o1 \<and> (\<forall>w. o_w o1 = Some w \<longrightarrow> (\<exists>m \<ge> n. w_path w = compact_name level m))"

definition in_outputs :: "int \<Rightarrow> int \<Rightarrow> ('a \<Rightarrow> merge_out) \<Rightarrow> ('a, fs) prog \<Rightarrow> bool" where
  "in_outputs level n g m \<longleftrightarrow>
     (\<forall>fs r fs'. m fs = (r, fs') \<longrightarrow> only_outputs level n fs fs' \<and> (\<forall>x. r = Inr x \<longrightarrow> out_file level n (g x)))"

lemma only_outputs_refl [simp]: "only_outputs level n fs fs"
  by (simp add: only_outputs_def)

lemma only_outputs_trans: "only_outputs level n fs fs' \<Longrightarrow> only_outputs level n fs' fs'' \<Longrightarrow> only_outputs level n fs fs''"
  by (simp add: only_outputs_def)

lemma only_file_outputs: "only_file (compact_name level m) fs fs' \<Longrightarrow> n \<le> m \<Longrightarrow> only_outputs level n fs fs'"
  by (auto simp: only_outputs_def only_file_def)

lemma in_outputsD:
  "in_outputs level n g m \<Longrightarrow> m fs = (r, fs') \<Longrightarrow> only_outputs level n fs fs'"
  "in_outputs level n g m \<Longrightarrow> m fs = (Inr x, fs') \<Longrightarrow> out_file level n (g x)"
  by (auto simp: in_outputs_def)

lemma in_outputs_ret: "out_file level n (g x) \<Longrightarrow> in_outputs level n g (ret x)"
  by (simp add: in_outputs_def ret_def)

lemma in_outputs_then:
  assumes "in_outputs level n g m" "\<And>x. out_file level n (g x) \<Longrightarrow> in_outputs level n h (f x)"
  shows "in_outputs level n h (andthen m f)"
  unfolding in_outputs_def
proof (intro allI impI)
  fix fs r fs'
  assume run: "andthen m f fs = (r, fs')"
  obtain q fs1 where q: "m fs = (q, fs1)" by fastforce
  note one = in_outputsD(1) [OF assms(1) q]
  show "only_outputs level n fs fs' \<and> (\<forall>x. r = Inr x \<longrightarrow> out_file level n (h x))"
  proof (cases q)
    case (Inl e)
    then show ?thesis using run q one by (auto simp: andthen_def)
  next
    case (Inr x)
    then have x: "f x fs1 = (r, fs')" using run q by (simp add: andthen_def)
    have f: "in_outputs level n h (f x)" using assms(2) in_outputsD(2) [OF assms(1)] q Inr by blast
    show ?thesis using in_outputsD(1) [OF f x] in_outputsD(2) [OF f] x one only_outputs_trans by blast
  qed
qed

lemma flushChunk_outputs:
  assumes "out_file level n o1"
  shows "in_outputs level n id (flushChunk os o1)"
proof (cases "o_w o1")
  case None
  then show ?thesis using assms by (simp add: flushChunk_def in_outputs_ret)
next
  case (Some w)
  then obtain m where m: "n \<le> m" "w_path w = compact_name level m" "n \<le> o_fileID o1" using assms by (auto simp: out_file_def)
  show ?thesis
    unfolding in_outputs_def
  proof (intro allI impI)
    fix fs r fs'
    assume run: "flushChunk os o1 fs = (r, fs')"
    obtain q fs1 where q: "w_Close os w fs = (q, fs1)" by fastforce
    have "fs' = fs1" using run q Some by (auto simp: flushChunk_def andthen_def ret_def split: sum.splits)
    moreover have "out_file level n x" if "r = Inr x" for x
      using that run q Some m by (auto simp: flushChunk_def andthen_def ret_def out_file_def split: sum.splits)
    ultimately show "only_outputs level n fs fs' \<and> (\<forall>x. r = Inr x \<longrightarrow> out_file level n (id x))"
      using only_file_outputs [of level m fs fs1 n] w_Close_file [OF q] m by simp
  qed
qed

lemma openChunk_outputs:
  assumes "out_file level n o1"
  shows "openChunk os level o1 fs = (r, fs') \<Longrightarrow> only_outputs level n fs fs'
     \<and> (\<forall>w o2. r = Inr (w, o2) \<longrightarrow> out_file level n o2 \<and> o_w o2 = Some w)"
proof (cases "o_w o1")
  case None
  assume run: "openChunk os level o1 fs = (r, fs')"
  obtain q fs1 where q: "CreateWriter os (compact_name level (o_fileID o1)) entriesPerChunk 128 fs = (q, fs1)" by fastforce
  note c = CreateWriter_file [OF q]
  have n: "n \<le> o_fileID o1" using assms by (simp add: out_file_def)
  have "fs' = fs1" using run q None by (auto simp: openChunk_def Let_def andthen_def ret_def split: sum.splits)
  moreover have "out_file level n o2 \<and> o_w o2 = Some w" if "r = Inr (w, o2)" for w o2
    using that run q None n c by (auto simp: openChunk_def Let_def andthen_def ret_def out_file_def split: sum.splits)
  ultimately show ?thesis using only_file_outputs [of level "o_fileID o1" fs fs1 n] c n by blast
next
  case (Some w)
  assume "openChunk os level o1 fs = (r, fs')"
  then show ?thesis using Some assms by (auto simp: openChunk_def ret_def)
qed

lemma emit_outputs:
  assumes "out_file level n o1"
  shows "in_outputs level n id (emit os level e o1)"
proof -
  have rest: "in_outputs level n id (andthen (openChunk os level o2) (\<lambda>(w, o3). andthen (append_or_close os w e) (\<lambda>w1.
          ret (o3\<lparr>o_w := Some w1, o_chunkSize := o_chunkSize o3 + cost e, o_lastKey := e_key e\<rparr>))))"
    if "out_file level n (id o2)" for o2
    unfolding in_outputs_def
  proof (intro allI impI)
    fix fs r fs'
    assume run: "andthen (openChunk os level o2) (\<lambda>(w, o3). andthen (append_or_close os w e) (\<lambda>w1.
          ret (o3\<lparr>o_w := Some w1, o_chunkSize := o_chunkSize o3 + cost e, o_lastKey := e_key e\<rparr>))) fs = (r, fs')"
    obtain q fs1 where q: "openChunk os level o2 fs = (q, fs1)" by fastforce
    note one = openChunk_outputs [OF that [unfolded id_apply] q]
    show "only_outputs level n fs fs' \<and> (\<forall>x. r = Inr x \<longrightarrow> out_file level n (id x))"
    proof (cases q)
      case (Inl err)
      then show ?thesis using run q one by (auto simp: andthen_def)
    next
      case (Inr x)
      then obtain w o3 where x: "q = Inr (w, o3)" by (cases x) auto
      then have o3: "out_file level n o3" "o_w o3 = Some w" using one by blast+
      then obtain m where m: "n \<le> m" "w_path w = compact_name level m" "n \<le> o_fileID o3" by (auto simp: out_file_def)
      obtain q2 fs2 where q2: "append_or_close os w e fs1 = (q2, fs2)" by fastforce
      note two = append_or_close_file [OF q2]
      have "fs' = fs2" using run q x q2 by (auto simp: andthen_def ret_def split: sum.splits)
      moreover have "only_outputs level n fs1 fs2" using two only_file_outputs [OF _ m(1), of level fs1 fs2] m(2) by simp
      moreover have "out_file level n y" if "r = Inr y" for y
      proof -
        have "\<exists>w1. q2 = Inr w1" using that run q x q2 by (cases q2) (auto simp: andthen_def)
        then obtain w1 where w1: "q2 = Inr w1" by blast
        then have "w_path w1 = compact_name level m" using two m(2) by metis
        moreover have "y = o3\<lparr>o_w := Some w1, o_chunkSize := o_chunkSize o3 + cost e, o_lastKey := e_key e\<rparr>"
          using that run q x q2 w1 by (simp add: andthen_def ret_def)
        ultimately show ?thesis using m by (auto simp: out_file_def)
      qed
      ultimately show ?thesis using one only_outputs_trans by auto
    qed
  qed
  have "in_outputs level n id (if o_w o1 \<noteq> None \<and> targetSize < o_chunkSize o1 + cost e then flushChunk os o1 else ret o1)"
    using flushChunk_outputs [OF assms] in_outputs_ret [of level n id o1] assms by simp
  then have "in_outputs level n id (andthen (if o_w o1 \<noteq> None \<and> targetSize < o_chunkSize o1 + cost e then flushChunk os o1 else ret o1)
     (\<lambda>o2. andthen (openChunk os level o2) (\<lambda>(w, o3). andthen (append_or_close os w e) (\<lambda>w1.
          ret (o3\<lparr>o_w := Some w1, o_chunkSize := o_chunkSize o3 + cost e, o_lastKey := e_key e\<rparr>)))))"
    by (rule in_outputs_then) (rule rest)
  then show ?thesis
    using assms by (simp add: emit_def in_outputs_ret out_file_def)
qed

lemma merge_loop_outputs:
  "out_file level n o1 \<Longrightarrow> merge_loop os level h o1 fs = (r, fs')
     \<Longrightarrow> only_outputs level n fs fs' \<and> (\<forall>x. r = Inr x \<longrightarrow> out_file level n x)"
proof (induction os level h o1 fs rule: merge_loop.induct)
  case (1 os level h o1 fs)
  show ?case
  proof (cases "h = [] \<or> (\<exists>err. pull h = Inl err)")
    case True
    then show ?thesis using "1.prems" by (auto simp: merge_loop.simps [of os level h o1 fs] split: if_splits)
  next
    case False
    then obtain e h' where p: "h \<noteq> []" "pull h = Inr (e, h')" by (cases "pull h") auto
    obtain q fs1 where q: "emit os level e o1 fs = (q, fs1)" by fastforce
    note one = in_outputsD(1) [OF emit_outputs [OF "1.prems"(1)] q]
    show ?thesis
    proof (cases q)
      case (Inl err)
      then show ?thesis using "1.prems"(2) p q one by (subst (asm) merge_loop.simps) auto
    next
      case (Inr o2)
      then have "out_file level n o2" using in_outputsD(2) [OF emit_outputs [OF "1.prems"(1)]] q by auto
      moreover have "merge_loop os level h' o2 fs1 = (r, fs')"
        using "1.prems"(2) p q Inr by (subst (asm) merge_loop.simps) simp
      ultimately show ?thesis using "1.IH" [OF p refl q [symmetric] Inr] one only_outputs_trans by blast
    qed
  qed
qed

lemma DoCompact_outputs:
  assumes "DoCompact os ssts level n fs = (r, fs')"
  shows "only_outputs level n fs fs'"
proof -
  have init: "out_file level n (out_init n)" by (simp add: out_file_def out_init_def)
  have loop: "in_outputs level n id (merge_loop os level h (out_init n))" for h
    using merge_loop_outputs [OF init] by (auto simp: in_outputs_def)
  obtain h where h: "ssts = [] \<or> fs' = fs \<or> andthen (merge_loop os level h (out_init n)) (\<lambda>o1.
      andthen (flushChunk os o1) (\<lambda>o2. ret (o_paths o2, Some ((o_stats o2)\<lparr>cs_InputFiles := length ssts\<rparr>)))) fs = (r, fs')"
    using assms by (cases "merge_heads ssts") (auto simp: DoCompact_def Let_def ret_def split: if_splits)
  have "in_outputs level n (\<lambda>_. out_init n) (andthen (merge_loop os level h (out_init n)) (\<lambda>o1.
      andthen (flushChunk os o1) (\<lambda>o2. ret (o_paths o2, Some ((o_stats o2)\<lparr>cs_InputFiles := length ssts\<rparr>)))))"
    by (rule in_outputs_then [OF loop], rule in_outputs_then [OF flushChunk_outputs]) (simp_all add: in_outputs_ret init)
  with h show ?thesis using assms in_outputsD(1) by (auto simp: DoCompact_def ret_def)
qed

section \<open>The outcome\<close>

lemma drop_tables_other:
  "q \<notin> s_path ` set ss \<Longrightarrow> map_of (files_of (drop_tables os i ss L)) q = map_of (files_of L) q"
  by (induction os i ss L rule: drop_tables.induct) (auto simp: add_level_size_def upd_stats_def)

lemma note_compaction_files: "files_of (note_compaction st L) = files_of L"
  by (simp add: note_compaction_def upd_stats_def split: option.splits)

text \<open>The outputs are opened one after the other, up to one that cannot be opened.\<close>

lemma add_outputs_prefix:
  assumes "list_all2 (written fs) ps cs" "files_of L = fs" "add_outputs os j ps L = (r, L')" "j < length (l_levels L)"
  shows "\<exists>new. l_levels L' = (l_levels L)[j := l_levels L ! j @ new] \<and> map cont new = take (length new) cs
     \<and> map s_path new = take (length new) ps
     \<and> (r = Inr () \<and> length new = length ps
        \<or> length new < length ps \<and> (\<exists>e. r = Inl e \<and> st_OpenNoVerify os (files_of L') (ps ! length new) = Inl e))"
  using assms
proof (induction ps cs arbitrary: L rule: list_all2_induct)
  case Nil
  then show ?case by (intro exI [of _ "[]"]) simp
next
  case (Cons p ps c cs)
  show ?case
  proof (cases "st_OpenNoVerify os (files_of L) p")
    case (Inl e)
    then show ?thesis using Cons.prems by (intro exI [of _ "[]"]) simp
  next
    case (Inr s)
    let ?L = "add_level_size j (s_dataSize s) (set_level j (l_levels L ! j @ [s]) L)"
    have L: "l_levels ?L = (l_levels L)[j := l_levels L ! j @ [s]]" "files_of ?L = files_of L"
      by (simp_all add: add_level_size_def set_level_def upd_stats_def)
    have s: "cont s = c" "s_path s = p" using opened_at [OF Cons.hyps(1)] Inr Cons.prems(1) table_at_cont by blast+
    have "files_of ?L = fs" "add_outputs os j ps ?L = (r, L')" "j < length (l_levels ?L)" using Cons.prems Inr L by simp_all
    from Cons.IH [OF this] obtain new where new: "l_levels L' = (l_levels ?L)[j := l_levels ?L ! j @ new]"
        "map cont new = take (length new) cs" "map s_path new = take (length new) ps"
        "r = Inr () \<and> length new = length ps
           \<or> length new < length ps \<and> (\<exists>e. r = Inl e \<and> st_OpenNoVerify os (files_of L') (ps ! length new) = Inl e)"
      by blast
    have "l_levels L' = (l_levels L)[j := l_levels L ! j @ s # new]" using new(1) Cons.prems(3) by (simp add: L(1))
    then show ?thesis using new(2-4) s by (intro exI [of _ "s # new"]) auto
  qed
qed

definition stopped_merging :: "lsm \<Rightarrow> lsm \<Rightarrow> bool" where
  "stopped_merging L L' \<longleftrightarrow> l_levels L' = l_levels L \<and> d_manifest (l_disk L') = d_manifest (l_disk L)
     \<and> (\<forall>s\<in>set (concat (l_levels L)). map_of (files_of L') (s_path s) = map_of (files_of L) (s_path s))"

definition stopped_listing :: "os \<Rightarrow> lsm \<Rightarrow> goerr \<Rightarrow> lsm \<Rightarrow> bool" where
  "stopped_listing os L e L' \<longleftrightarrow>
     (\<exists>es new. merge_of (map cont (l0_inputs L @ l1_inputs L)) es
        \<and> l_levels L' = (l_levels L)[0 := l0_rest L, 1 := l1_rest L @ new]
        \<and> map cont new = take (length new) (merged 1 es)
        \<and> map s_path new = take (length new) (out_names 1 (l_nextID L) (length (merged 1 es)))
        \<and> (length new < length (merged 1 es)
              \<and> st_OpenNoVerify os (files_of L') (compact_name 1 (l_nextID L + int (length new))) = Inl e
           \<or> length new = length (merged 1 es) \<and> (\<exists>L1. lsm_writeManifest os L1 = (Inl e, L') \<and> l_levels L1 = l_levels L')))"

lemma failed_merge:
  assumes ok: "engine_ok L" and ne: "l_levels L ! 0 \<noteq> []" and run: "l0_before os L = (r, L1)"
  shows "case r of
     Inl e \<Rightarrow> stopped_merging L L1
   | Inr ps \<Rightarrow> (\<exists>es. merge_of (map cont (l0_inputs L @ l1_inputs L)) es \<and> ps = out_names 1 (l_nextID L) (length (merged 1 es))
        \<and> list_all2 (written (files_of L1)) ps (merged 1 es) \<and> l_levels L1 = (l_levels L)[0 := l0_rest L, 1 := l1_rest L])"
proof -
  let ?ins = "l0_inputs L @ l1_inputs L"
  have inv: "lsm_inv L (contents_of L)" and two: "2 \<le> l_numLevels L"
    using ok engine_inv [OF ok] by (simp_all add: engine_ok_def store_ok_def)
  have len: "1 < length (l_levels L)" using engine_levels(1) [OF ok] two by simp
  have fr: "fresh_from (l_nextID L) (set (paths_of L))" "0 \<le> l_nextID L" using inv by (simp_all add: lsm_inv_iff)
  have sub: "set ?ins \<subseteq> set (concat (l_levels L))"
  proof -
    have "parts L 0 1 (l0_inputs L) (l0_rest L) (l1_inputs L) (l1_rest L)" by (rule l0_parts [OF inv two])
    then have mm: "mset (l_levels L ! 0) = mset (l0_inputs L @ l0_rest L)" "mset (l_levels L ! 1) = mset (l1_inputs L @ l1_rest L)"
      by (simp_all add: parts_def)
    have "mset (concat (l_levels L)) = mset ?ins + mset (concat ((l_levels L)[0 := l0_rest L, 1 := l1_rest L]))"
      by (rule concat_update2 [OF zero_less_one len mm])
    then show ?thesis by (metis set_mset_mset set_mset_union sup_ge1)
  qed
  obtain q fs where q: "DoCompact os ?ins 1 (l_nextID L) (files_of L) = (q, fs)" by fastforce
  show ?thesis
  proof (cases q)
    case (Inl e)
    then have L1: "r = Inl e" "L1 = L\<lparr>l_disk := (l_disk L)\<lparr>d_files := fs\<rparr>\<rparr>"
      using run q by (simp_all add: l0_before_def andthen_def on_files_def on_disk_def)
    have "map_of fs (s_path s) = map_of (files_of L) (s_path s)" if "s \<in> set (concat (l_levels L))" for s
    proof -
      have "s_path s \<in> set (paths_of L)" using that by (auto simp: paths_of_def)
      then have "\<forall>m \<ge> l_nextID L. s_path s \<noteq> compact_name 1 m" using fr(1) by (force simp: fresh_from_def)
      then show ?thesis using DoCompact_outputs [OF q] by (simp add: only_outputs_def)
    qed
    then show ?thesis by (simp add: L1 stopped_merging_def)
  next
    case (Inr x)
    then have dc: "DoCompact os_ok ?ins 1 (l_nextID L) (files_of L) = (Inr x, fs)"
      using honestD [OF DoCompact_honest] q by simp
    have "\<forall>s\<in>set ?ins. small_table s" using engine_levels(8) [OF ok] sub by blast
    from merge_inputs [OF inv sub this, of 1] obtain es st fs1 where m: "merge_of (map cont ?ins) es"
        "DoCompact os_ok ?ins 1 (l_nextID L) (files_of L) = (Inr (out_names 1 (l_nextID L) (length (merged 1 es)), st), fs1)"
        "compacted 1 (l_nextID L) (merged 1 es) (files_of L) fs1"
      unfolding of_nat_1 by blast
    have x: "x = (out_names 1 (l_nextID L) (length (merged 1 es)), st)" "fs1 = fs" using dc m(2) by simp_all
    define L2 where "L2 = drop_tables os 1 (l1_inputs L) (drop_tables os 0 (l0_inputs L)
        (note_compaction st (L\<lparr>l_disk := (l_disk L)\<lparr>d_files := fs\<rparr>\<rparr>)))"
    have r: "r = Inr (out_names 1 (l_nextID L) (length (merged 1 es)))"
        "L1 = set_level 1 (l1_rest L) (set_level 0 (l0_rest L) L2)"
      using run q Inr by (simp_all add: l0_before_def andthen_def update_def ret_def on_files_def on_disk_def x(1) L2_def)
    have files: "map_of (files_of L1) p = map_of fs p" if "p \<notin> s_path ` set ?ins" for p
      using that by (simp add: r(2) set_level_def L2_def drop_tables_other note_compaction_files image_Un)
    have new: "set (out_names 1 (l_nextID L) n) \<inter> set (paths_of L) = {}" for n by (rule out_names_new [OF fr(1)]) simp_all
    have "s_path ` set ?ins \<subseteq> set (paths_of L)" using sub by (auto simp: paths_of_def)
    then have w: "written (files_of L1) (compact_name 1 (l_nextID L + int i)) (merged 1 es ! i)" if "i < length (merged 1 es)" for i
    proof -
      have "compact_name 1 (l_nextID L + int i) \<in> set (out_names 1 (l_nextID L) (length (merged 1 es)))"
        using that by (auto simp: out_names_def)
      then have "compact_name 1 (l_nextID L + int i) \<notin> s_path ` set ?ins"
        using new \<open>s_path ` set ?ins \<subseteq> set (paths_of L)\<close> by blast
      from files [OF this] show ?thesis using m(3) that x(2) by (simp add: compacted_def written_def)
    qed
    then have "list_all2 (written (files_of L1)) (out_names 1 (l_nextID L) (length (merged 1 es))) (merged 1 es)"
      by (simp add: list_all2_conv_all_nth out_names_def)
    moreover have "l_levels L1 = (l_levels L)[0 := l0_rest L, 1 := l1_rest L]" using l0_before_levels [OF run] r(1) by simp
    ultimately show ?thesis using m(1) r(1) by auto
  qed
qed

lemma failed_compaction:
  assumes ok: "engine_ok L" and fail: "compactL0ToL1 os L = (Inl e, L')"
  shows "l_memtable L' = l_memtable L \<and> l_wal L' = l_wal L \<and> (stopped_merging L L' \<or> stopped_listing os L e L')"
proof -
  have kept: "l_memtable L' = l_memtable L" "l_wal L' = l_wal L"
    using keepsD [OF kept_mem.compactL0ToL1 fail] keepsD [OF kept_wal.compactL0ToL1 fail] by simp_all
  have two: "2 \<le> l_maxL0Files L" "1 < length (l_levels L)"
    using ok engine_levels(1) [OF ok] by (simp_all add: engine_ok_def store_ok_def)
  have ne: "l_levels L ! 0 \<noteq> []" using fail by (auto simp: compactL0ToL1_def)
  note steps = l0_merge_steps [OF l0_inputs_some [OF ne two(1)] two(2), of os]
  obtain r L1 where r: "l0_before os L = (r, L1)" by fastforce
  note merge = failed_merge [OF ok ne r]
  show ?thesis
  proof (cases r)
    case (Inl e')
    then have "L' = L1" using fail ne steps r by (simp add: compactL0ToL1_def andthen_def)
    then show ?thesis using merge Inl kept by simp
  next
    case (Inr ps)
    then obtain es where es: "merge_of (map cont (l0_inputs L @ l1_inputs L)) es" "ps = out_names 1 (l_nextID L) (length (merged 1 es))"
        "list_all2 (written (files_of L1)) ps (merged 1 es)" "l_levels L1 = (l_levels L)[0 := l0_rest L, 1 := l1_rest L]"
      using merge by auto
    have len: "length ps = length (merged 1 es)" by (simp add: es(2) out_names_def)
    obtain q L2 where q: "add_outputs os 1 ps L1 = (q, L2)" by fastforce
    obtain new where new: "l_levels L2 = (l_levels L1)[1 := l_levels L1 ! 1 @ new]" "map cont new = take (length new) (merged 1 es)"
        "map s_path new = take (length new) ps"
        "q = Inr () \<and> length new = length ps
           \<or> length new < length ps \<and> (\<exists>e. q = Inl e \<and> st_OpenNoVerify os (files_of L2) (ps ! length new) = Inl e)"
      using add_outputs_prefix [OF es(3) refl q] two(2) es(4) by auto
    have lv: "l_levels L2 = (l_levels L)[0 := l0_rest L, 1 := l1_rest L @ new]" using new(1) two(2) by (simp add: es(4))
    have run: "andthen (\<lambda>_. (q, L2)) (\<lambda>_. lsm_writeManifest os) L = (Inl e, L')"
      using fail ne steps r Inr q by (simp add: compactL0ToL1_def andthen_def)
    from new(4) show ?thesis
    proof
      assume all: "q = Inr () \<and> length new = length ps"
      then have w: "lsm_writeManifest os L2 = (Inl e, L')" using run by (simp add: andthen_def)
      then have "l_levels L' = l_levels L2" by (auto simp: lsm_writeManifest_def on_disk_def split: prod.splits)
      then have "stopped_listing os L e L'"
        unfolding stopped_listing_def using es(1,2) lv new(2,3) all len w
        by (intro exI [of _ es] exI [of _ new]) (metis le_refl)
      then show ?thesis using kept by simp
    next
      assume cut: "length new < length ps \<and> (\<exists>e. q = Inl e \<and> st_OpenNoVerify os (files_of L2) (ps ! length new) = Inl e)"
      then have "L' = L2" "q = Inl e" using run by (auto simp: andthen_def)
      moreover have "ps ! length new = compact_name 1 (l_nextID L + int (length new))"
        using cut len by (simp add: es(2) out_names_def)
      ultimately have "stopped_listing os L e L'"
        unfolding stopped_listing_def using es(1,2) lv new(2,3) cut len
        by (intro exI [of _ es] exI [of _ new]) simp
      then show ?thesis using kept by simp
    qed
  qed
qed

section \<open>A merged table that cannot be opened\<close>

text \<open>A merge opens no file.\<close>

lemma no_open_merge: "DoCompact (no_open p) = DoCompact os_ok"
proof -
  have "openChunk (no_open p) = openChunk os_ok" by (intro ext) (simp only: openChunk_def no_open_writer)
  moreover have chunk: "flushChunk (no_open p) = flushChunk os_ok" by (intro ext) (simp only: flushChunk_def no_open_writer)
  ultimately have "emit (no_open p) = emit os_ok" by (intro ext) (simp only: emit_def no_open_writer)
  then have "merge_loop (no_open p) level h o1 fs = merge_loop os_ok level h o1 fs" for level h o1 fs
    by (induction "no_open p" level h o1 fs rule: merge_loop.induct)
      (subst (1 2) merge_loop.simps, auto split: sum.splits prod.splits)
  then have "merge_loop (no_open p) = merge_loop os_ok" by (simp add: fun_eq_iff)
  then show ?thesis by (intro ext) (simp only: DoCompact_def chunk)
qed

lemma no_open_before: "l0_before (no_open p) = l0_before os_ok"
proof -
  have "drop_tables (no_open p) i ss L = drop_tables os_ok i ss L" for i ss L
    by (induction "no_open p" i ss L rule: drop_tables.induct) simp_all
  then have "drop_tables (no_open p) = drop_tables os_ok" by (simp add: fun_eq_iff)
  then show ?thesis by (intro ext) (simp only: l0_before_def no_open_merge)
qed

text \<open>The merge of tables with a key writes a table.\<close>

lemma merged_some:
  assumes "merge_of ess es" "e \<in> set (concat ess)" "e_key e \<noteq> []"
  shows "merged 1 es \<noteq> []"
proof
  assume none: "merged 1 es = []"
  have e: "e \<in> set es" using assms(1,2) unfolding merge_of_def by (metis set_mset_mset)
  obtain x where x: "newest es (e_key e) = Some x" using e newest_None [of es "e_key e"] by (cases "newest es (e_key e)") auto
  then have "e_key x = e_key e" "x \<in> set es" by (auto dest: newest_SomeD)
  moreover have "sorted (map e_key es)" using assms(1) by (auto simp: merge_of_def intro: keys_sorted)
  ultimately have "x \<in> set (kept 1 [] es)" using kept_iff [of es "[]" x 1] x assms(3) by simp
  moreover have "concat (merged 1 es) = kept 1 [] es" by (simp add: concat_split)
  ultimately show False using none by simp
qed

lemma drop_tables_files:
  "map_of (files_of (drop_tables os_ok i ss L)) p = (if p \<in> s_path ` set ss then None else map_of (files_of L) p)"
proof (induction os_ok i ss L rule: drop_tables.induct)
  case (2 i s ss L)
  then show ?case by (auto simp: add_level_size_def upd_stats_def)
qed simp

text \<open>The first output does not open: the inputs are gone and nothing has taken their place.\<close>

lemma unopened_compaction:
  assumes ok: "engine_ok L" and ne: "l_levels L ! 0 \<noteq> []"
    and s: "s \<in> set (l0_inputs L @ l1_inputs L)" "e \<in> set (cont s)" "e_key e \<noteq> []"
  shows "\<exists>L'. compactL0ToL1 (no_open (compact_name 1 (l_nextID L))) L = (Inl ErrOS, L')
     \<and> l_levels L' = (l_levels L)[0 := l0_rest L, 1 := l1_rest L]
     \<and> (\<forall>s\<in>set (l0_inputs L @ l1_inputs L). map_of (files_of L') (s_path s) = None)"
proof -
  define p where "p = compact_name 1 (l_nextID L)"
  let ?ins = "l0_inputs L @ l1_inputs L"
  have inv: "lsm_inv L (contents_of L)" and two: "2 \<le> l_numLevels L" "2 \<le> l_maxL0Files L"
    using ok engine_inv [OF ok] by (simp_all add: engine_ok_def store_ok_def)
  have len: "1 < length (l_levels L)" using engine_levels(1) [OF ok] two(1) by simp
  have parts: "parts L 0 1 (l0_inputs L) (l0_rest L) (l1_inputs L) (l1_rest L)" by (rule l0_parts [OF inv two(1)])
  then have mm: "mset (l_levels L ! 0) = mset (l0_inputs L @ l0_rest L)" "mset (l_levels L ! 1) = mset (l1_inputs L @ l1_rest L)"
    by (simp_all add: parts_def)
  have "mset (concat (l_levels L)) = mset ?ins + mset (concat ((l_levels L)[0 := l0_rest L, 1 := l1_rest L]))"
    by (rule concat_update2 [OF zero_less_one len mm])
  then have sub: "set ?ins \<subseteq> set (concat (l_levels L))" by (metis set_mset_mset set_mset_union sup_ge1)
  then have "\<forall>s\<in>set ?ins. small_table s" using engine_levels(8) [OF ok] by blast
  from merge_inputs [OF inv sub this, of 1] obtain es st fs where dc: "merge_of (map cont ?ins) es"
      "DoCompact os_ok ?ins 1 (l_nextID L) (files_of L) = (Inr (out_names 1 (l_nextID L) (length (merged 1 es)), st), fs)"
    unfolding of_nat_1 by blast
  have "e \<in> set (concat (map cont ?ins))" using s(1,2) by auto
  with merged_some [OF dc(1) _ s(3)] have "merged 1 es \<noteq> []" by blast
  then obtain m where "length (merged 1 es) = Suc m" by (cases "length (merged 1 es)") auto
  moreover have "out_names 1 n (Suc m) = compact_name 1 n # map (\<lambda>i. compact_name 1 (n + int i)) [1..<Suc m]" for n m
    by (simp add: out_names_def upt_rec [of 0] del: upt_Suc)
  ultimately obtain ps where ps: "out_names 1 (l_nextID L) (length (merged 1 es)) = p # ps"
    unfolding p_def by metis
  obtain q L1 where b: "l0_before os_ok L = (q, L1)" by fastforce
  define L2 where "L2 = drop_tables os_ok 1 (l1_inputs L) (drop_tables os_ok 0 (l0_inputs L)
      (note_compaction st (L\<lparr>l_disk := (l_disk L)\<lparr>d_files := fs\<rparr>\<rparr>)))"
  have q: "q = Inr (p # ps)" "L1 = set_level 1 (l1_rest L) (set_level 0 (l0_rest L) L2)"
    using b by (auto simp: l0_before_def andthen_def update_def ret_def on_files_def on_disk_def dc(2) [unfolded ps] L2_def simp del: of_nat_1)
  have "files_of L1 = files_of L2" by (simp add: q(2) set_level_def)
  then have gone: "\<forall>s\<in>set ?ins. map_of (files_of L1) (s_path s) = None" by (auto simp: L2_def drop_tables_files)
  have "st_OpenNoVerify (no_open p) fs' p = Inl ErrOS" for fs'
    by (simp add: st_OpenNoVerify_def map_file_def no_open_def)
  then have "add_outputs (no_open p) 1 (p # ps) L1 = (Inl ErrOS, L1)" by simp
  then have "l0_merge (no_open p) L = (Inl ErrOS, L1)"
    using l0_merge_steps [OF l0_inputs_some [OF ne two(2)] len, of "no_open p"] b q(1)
    by (simp add: no_open_before andthen_def del: add_outputs.simps)
  then have "compactL0ToL1 (no_open p) L = (Inl ErrOS, L1)" using ne by (simp add: compactL0ToL1_def andthen_def)
  then show ?thesis using l0_before_levels [OF b] q(1) gone unfolding p_def by auto
qed

end
