(* ===== verification/RingLayout.thy ===== *)
theory RingLayout
  imports Prelude
begin

text \<open>
  The structures shared with the kernel in \<open>internal/wal/io_uring_linux.go\<close> and
  the check of their layout in \<open>init\<close>.  The compiler lays fields out in order,
  each at the next multiple of its alignment; \<open>w\<close> is the alignment of a 64-bit
  integer, 8 on amd64 and arm64, 4 on 386 and arm.
\<close>

section \<open>Types and their layout\<close>

datatype gotype = TUint8 | TUint16 | TInt32 | TUint32 | TUint64 | TArray nat gotype | TStruct fields
and fields = NoFields | Field string gotype fields

definition round_up :: "nat \<Rightarrow> nat \<Rightarrow> nat" where
  "round_up n a = (n + a - 1) div a * a"

fun alignof :: "nat \<Rightarrow> gotype \<Rightarrow> nat" and alignof_fields :: "nat \<Rightarrow> fields \<Rightarrow> nat" where
  "alignof w TUint8 = 1"
| "alignof w TUint16 = 2"
| "alignof w TInt32 = 4"
| "alignof w TUint32 = 4"
| "alignof w TUint64 = w"
| "alignof w (TArray n t) = alignof w t"
| "alignof w (TStruct fs) = alignof_fields w fs"
| "alignof_fields w NoFields = 1"
| "alignof_fields w (Field x t fs) = max (alignof w t) (alignof_fields w fs)"

text \<open>\<open>fields_end\<close> is where the fields that start at \<open>pos\<close> end.\<close>

fun sizeof :: "nat \<Rightarrow> gotype \<Rightarrow> nat" and fields_end :: "nat \<Rightarrow> nat \<Rightarrow> fields \<Rightarrow> nat" where
  "sizeof w TUint8 = 1"
| "sizeof w TUint16 = 2"
| "sizeof w TInt32 = 4"
| "sizeof w TUint32 = 4"
| "sizeof w TUint64 = 8"
| "sizeof w (TArray n t) = n * sizeof w t"
| "sizeof w (TStruct fs) = round_up (fields_end w 0 fs) (alignof_fields w fs)"
| "fields_end w pos NoFields = pos"
| "fields_end w pos (Field x t fs) = fields_end w (round_up pos (alignof w t) + sizeof w t) fs"

fun offset_from :: "nat \<Rightarrow> nat \<Rightarrow> fields \<Rightarrow> string \<Rightarrow> nat option" where
  "offset_from w pos NoFields x = None"
| "offset_from w pos (Field y t fs) x =
     (let start = round_up pos (alignof w t) in
      if x = y then Some start else offset_from w (start + sizeof w t) fs x)"

fun field_names :: "fields \<Rightarrow> string list" where
  "field_names NoFields = []"
| "field_names (Field x t fs) = x # field_names fs"

section \<open>The structures\<close>

definition io_uring_sqe :: fields where
  "io_uring_sqe =
     Field ''opcode'' TUint8 (Field ''flags'' TUint8 (Field ''ioprio'' TUint16 (Field ''fd'' TInt32
    (Field ''off'' TUint64 (Field ''addr'' TUint64 (Field ''len'' TUint32 (Field ''rwFlags'' TUint32
    (Field ''userData'' TUint64 (Field ''bufIndex'' TUint16 (Field ''personality'' TUint16 (Field ''fileIndex'' TUint32
    (Field ''addr3'' TUint64 (Field ''pad2'' TUint64 NoFields)))))))))))))"

definition io_uring_cqe :: fields where
  "io_uring_cqe = Field ''userData'' TUint64 (Field ''res'' TInt32 (Field ''flags'' TUint32 NoFields))"

definition io_sqring_offsets :: fields where
  "io_sqring_offsets =
     Field ''head'' TUint32 (Field ''tail'' TUint32 (Field ''ringMask'' TUint32 (Field ''ringEntries'' TUint32
    (Field ''flags'' TUint32 (Field ''dropped'' TUint32 (Field ''array'' TUint32 (Field ''resv1'' TUint32
    (Field ''resv2'' TUint64 NoFields))))))))"

definition io_cqring_offsets :: fields where
  "io_cqring_offsets =
     Field ''head'' TUint32 (Field ''tail'' TUint32 (Field ''ringMask'' TUint32 (Field ''ringEntries'' TUint32
    (Field ''overflow'' TUint32 (Field ''cqes'' TUint32 (Field ''flags'' TUint32 (Field ''resv1'' TUint32
    (Field ''resv2'' TUint64 NoFields))))))))"

definition io_uring_params :: fields where
  "io_uring_params =
     Field ''sqEntries'' TUint32 (Field ''cqEntries'' TUint32 (Field ''flags'' TUint32 (Field ''sqThreadCPU'' TUint32
    (Field ''sqThreadIdle'' TUint32 (Field ''features'' TUint32 (Field ''wqFd'' TUint32 (Field ''resv'' (TArray 3 TUint32)
    (Field ''sqOff'' (TStruct io_sqring_offsets) (Field ''cqOff'' (TStruct io_cqring_offsets) NoFields)))))))))"

section \<open>The check\<close>

datatype layout_panic = BadSize string nat | BadOffset string string

type_synonym layout_check = "layout_panic + unit"

definition check_size :: "nat \<Rightarrow> string \<Rightarrow> fields \<Rightarrow> nat \<Rightarrow> layout_check" where
  "check_size w name fs n =
     (if sizeof w (TStruct fs) \<noteq> n then Inl (BadSize name (sizeof w (TStruct fs))) else Inr ())"

definition check_offset :: "nat \<Rightarrow> string \<Rightarrow> fields \<Rightarrow> string \<Rightarrow> nat \<Rightarrow> layout_check" where
  "check_offset w name fs x n =
     (if offset_from w 0 fs x \<noteq> Some n then Inl (BadOffset name x) else Inr ())"

fun run_checks :: "layout_check list \<Rightarrow> layout_check" where
  "run_checks [] = Inr ()"
| "run_checks (Inl p # cs) = Inl p"
| "run_checks (Inr u # cs) = run_checks cs"

definition ring_init :: "nat \<Rightarrow> layout_check" where
  "ring_init w = run_checks
    ([check_size w ''io_uring_sqe'' io_uring_sqe 64]
     @ map (\<lambda>(x, n). check_offset w ''io_uring_sqe'' io_uring_sqe x n)
         [(''opcode'', 0), (''flags'', 1), (''fd'', 4), (''off'', 8), (''addr'', 16), (''len'', 24), (''userData'', 32)]
     @ [check_size w ''io_uring_cqe'' io_uring_cqe 16]
     @ map (\<lambda>(x, n). check_offset w ''io_uring_cqe'' io_uring_cqe x n)
         [(''userData'', 0), (''res'', 8)])"

section \<open>The layouts have no padding\<close>

text \<open>The sum of the sizes of the fields.\<close>

fun sum_sizes :: "nat \<Rightarrow> fields \<Rightarrow> nat" where
  "sum_sizes w NoFields = 0"
| "sum_sizes w (Field x t fs) = sizeof w t + sum_sizes w fs"

lemma layouts:
  assumes "w = 4 \<or> w = 8"
  shows "ring_init w = Inr ()" "sizeof w (TStruct io_uring_params) = 120"
    "sizeof w (TStruct io_sqring_offsets) = 40" "sizeof w (TStruct io_cqring_offsets) = 40"
    "\<forall>fs\<in>{io_uring_sqe, io_uring_cqe, io_sqring_offsets, io_cqring_offsets, io_uring_params}.
       sizeof w (TStruct fs) = sum_sizes w fs \<and> distinct (field_names fs)"
  using assms by (auto; code_simp)+

end
