(* ===== verification/Background.thy ===== *)
theory Background
  imports RunReads Loader Frame
begin

text \<open>
  The engine with its background goroutine and its lock (\<open>internal/lsm/lsm.go\<close>):
  any number of clients, the compaction loop and one call of \<open>Close\<close>, each holding
  the lock where the code does.  What a call does under the lock is one step,
  since nobody else runs there but readers beside readers; taking and releasing
  the lock, the loop's \<open>select\<close> and the three stages of \<open>Close\<close> are steps of their own.
\<close>

section \<open>States\<close>

text \<open>
  The loop is at its \<open>select\<close>, has received from the channel and waits for the
  lock, holds the lock, or has returned.
\<close>

datatype loop_pc = Selecting | Received | Compacting | Stopped

text \<open>
  \<open>Close\<close> has not been called, waits for the loop, waits for the lock, holds it,
  or has returned.
\<close>

datatype close_pc = NotCalled | AwaitLoop | AwaitLock | Closing | Returned

datatype holder = Client | Loop | Closer

record conc =
  cc_eng :: lsm
  cc_written :: "entry set"
  cc_writer :: "holder option"
  cc_readers :: nat
  cc_cancelled :: bool
  cc_loop :: loop_pc
  cc_close :: close_pc

definition lock_free :: "conc \<Rightarrow> bool" where
  "lock_free s \<longleftrightarrow> cc_writer s = None \<and> cc_readers s = 0"

text \<open>After \<open>Open\<close>, which starts the loop.\<close>

definition conc_init :: "lsm \<Rightarrow> conc" where
  "conc_init L = \<lparr>cc_eng = L, cc_written = {}, cc_writer = None, cc_readers = 0, cc_cancelled = False,
     cc_loop = Selecting, cc_close = NotCalled\<rparr>"

section \<open>Steps\<close>

text \<open>
  Calls of clients, before \<open>Close\<close> has returned: the lock is taken and the work
  done.  The bounds are those of \<open>engine_step\<close>.
\<close>

inductive call_step :: "kernel \<Rightarrow> conc \<Rightarrow> conc \<Rightarrow> bool" for kn where
  put: "\<lbrakk> lock_free s; cc_close s \<noteq> Returned; kvs \<noteq> []; small_batch kvs; clock_ok now (length kvs) (cc_written s);
          at_most (4 * 2 ^ 20) (cc_eng s); PutBatch os_ok kn now kvs (cc_eng s) = (r, L) \<rbrakk>
        \<Longrightarrow> call_step kn s (s\<lparr>cc_eng := L, cc_written := cc_written s \<union> set (put_entries now kvs), cc_writer := Some Client\<rparr>)"
| delete: "\<lbrakk> lock_free s; cc_close s \<noteq> Returned; length key \<le> 512; clock_ok now 1 (cc_written s);
          lsm_Delete os_ok kn now key (cc_eng s) = (r, L) \<rbrakk>
        \<Longrightarrow> call_step kn s (s\<lparr>cc_eng := L, cc_written := insert (tombstone now key) (cc_written s), cc_writer := Some Client\<rparr>)"
| get: "\<lbrakk> cc_writer s = None; cc_close s \<noteq> Returned; lsm_Get key (cc_eng s) = (g, L) \<rbrakk>
        \<Longrightarrow> call_step kn s (s\<lparr>cc_eng := L, cc_readers := Suc (cc_readers s)\<rparr>)"

text \<open>
  Everything else: unlocking, the loop, \<open>Close\<close>.  When the context is cancelled and
  the channel holds a token, \<open>select\<close> may choose either.
\<close>

inductive go_step :: "kernel \<Rightarrow> conc \<Rightarrow> conc \<Rightarrow> bool" for kn where
  unlock: "cc_writer s = Some Client \<Longrightarrow> go_step kn s (s\<lparr>cc_writer := None\<rparr>)"
| runlock: "0 < cc_readers s \<Longrightarrow> go_step kn s (s\<lparr>cc_readers := cc_readers s - 1\<rparr>)"
| receive: "\<lbrakk> cc_loop s = Selecting; l_compactCh (cc_eng s) \<rbrakk>
        \<Longrightarrow> go_step kn s (s\<lparr>cc_eng := (cc_eng s)\<lparr>l_compactCh := False\<rparr>, cc_loop := Received\<rparr>)"
| stop: "\<lbrakk> cc_loop s = Selecting; cc_cancelled s \<rbrakk> \<Longrightarrow> go_step kn s (s\<lparr>cc_loop := Stopped\<rparr>)"
| compact: "\<lbrakk> cc_loop s = Received; lock_free s; tick_body os_ok (cc_eng s) = (r, L) \<rbrakk>
        \<Longrightarrow> go_step kn s (s\<lparr>cc_eng := L, cc_writer := Some Loop, cc_loop := Compacting\<rparr>)"
| compacted: "cc_loop s = Compacting \<Longrightarrow> go_step kn s (s\<lparr>cc_writer := None, cc_loop := Selecting\<rparr>)"
| cancel: "cc_close s = NotCalled
        \<Longrightarrow> go_step kn s (s\<lparr>cc_eng := (cc_eng s)\<lparr>l_closed := True\<rparr>, cc_cancelled := True, cc_close := AwaitLoop\<rparr>)"
| waited: "\<lbrakk> cc_close s = AwaitLoop; cc_loop s = Stopped \<rbrakk> \<Longrightarrow> go_step kn s (s\<lparr>cc_close := AwaitLock\<rparr>)"
| closing: "\<lbrakk> cc_close s = AwaitLock; lock_free s; lsm_Close os_ok kn (cc_eng s) = (r, L) \<rbrakk>
        \<Longrightarrow> go_step kn s (s\<lparr>cc_eng := L, cc_writer := Some Closer, cc_close := Closing\<rparr>)"
| returned: "cc_close s = Closing \<Longrightarrow> go_step kn s (s\<lparr>cc_writer := None, cc_close := Returned\<rparr>)"

definition conc_step :: "kernel \<Rightarrow> conc \<Rightarrow> conc \<Rightarrow> bool" where
  "conc_step kn s s' \<longleftrightarrow> call_step kn s s' \<or> go_step kn s s'"

section \<open>Invariants\<close>

text \<open>Who holds the lock, and what \<open>Close\<close> waits for.\<close>

definition lock_inv :: "conc \<Rightarrow> bool" where
  "lock_inv s \<longleftrightarrow> (cc_writer s \<noteq> None \<longrightarrow> cc_readers s = 0)
     \<and> (cc_writer s = Some Loop \<longleftrightarrow> cc_loop s = Compacting) \<and> (cc_writer s = Some Closer \<longleftrightarrow> cc_close s = Closing)
     \<and> (cc_cancelled s \<longleftrightarrow> cc_close s \<noteq> NotCalled)
     \<and> (cc_close s \<in> {AwaitLock, Closing, Returned} \<longrightarrow> cc_loop s = Stopped)"

lemma call_lock_inv: "call_step kn s s' \<Longrightarrow> lock_inv s \<Longrightarrow> lock_inv s'"
  by (induction rule: call_step.induct) (auto simp: lock_inv_def lock_free_def)

lemma go_lock_inv: "go_step kn s s' \<Longrightarrow> lock_inv s \<Longrightarrow> lock_inv s'"
  by (induction rule: go_step.induct) (auto simp: lock_inv_def lock_free_def)

text \<open>Until \<open>Close\<close> closes the tables, the engine is as in a sequential run.\<close>

definition conc_inv :: "nat \<Rightarrow> bool \<Rightarrow> conc \<Rightarrow> bool" where
  "conc_inv n d s \<longleftrightarrow> lock_inv s
     \<and> (cc_close s \<notin> {Closing, Returned} \<longrightarrow> engine_inv_for n d (cc_eng s, cc_written s))"

lemma engine_inv_flags:
  "engine_inv_for n d (L\<lparr>l_compactCh := b\<rparr>, W) \<longleftrightarrow> engine_inv_for n d (L, W)"
  "engine_inv_for n d (L\<lparr>l_closed := b\<rparr>, W) \<longleftrightarrow> engine_inv_for n d (L, W)"
  by (simp_all add: engine_inv_for_def engine_ok_def store_ok_def lsm_inv_def contents_of_def paths_of_def
      wal_ready_def saved_def logged_def all_set_def stored_set_def mem_entries_def)

lemma call_inv:
  assumes "call_step kn s s'" "conc_inv n d s"
  shows "conc_inv n d s'"
proof -
  have lock: "lock_inv s'" using call_lock_inv assms by (auto simp: conc_inv_def)
  have eng: "engine_step kn (cc_eng s, cc_written s) (cc_eng s', cc_written s')" "cc_close s' = cc_close s"
    using assms(1) by (induction rule: call_step.induct) (auto intro: engine_step.intros)
  then have "engine_inv_for n d (cc_eng s', cc_written s')" if "cc_close s \<notin> {Closing, Returned}"
    using engine_step_inv [OF eng(1)] assms(2) that by (simp add: conc_inv_def)
  then show ?thesis using lock eng(2) by (simp add: conc_inv_def)
qed

lemma tick_inv:
  assumes "engine_inv_for n d (L, W)" "tick_body os_ok L = (r, L')"
  shows "engine_inv_for n d (L', W)"
proof -
  have ok: "engine_ok L" "l_numLevels L = n" "outlives (7 \<le> n) W (all_set L)" "d \<longrightarrow> logged L"
    using assms(1) by (simp_all add: engine_inv_for_def)
  have "store_ok L" using ok(1) by (simp add: engine_ok_def)
  from tick_body_ok [OF this] assms(2) have "compacts L L'" by simp
  note c = engine_compacts [OF ok(1) this]
  show ?thesis using c ok outlives_trans [OF ok(3)] by (simp add: engine_inv_for_def)
qed

lemma go_inv:
  assumes "go_step kn s s'" "conc_inv n d s"
  shows "conc_inv n d s'"
proof -
  have lock: "lock_inv s'" using go_lock_inv assms by (auto simp: conc_inv_def)
  have "engine_inv_for n d (cc_eng s', cc_written s')" if "cc_close s' \<notin> {Closing, Returned}"
    using assms that
    by (induction rule: go_step.induct) (auto simp: conc_inv_def engine_inv_flags intro: tick_inv)
  then show ?thesis using lock by (simp add: conc_inv_def)
qed

lemma conc_inv_run: "(conc_step kn)\<^sup>*\<^sup>* s s' \<Longrightarrow> conc_inv n d s \<Longrightarrow> conc_inv n d s'"
  by (induction rule: rtranclp_induct) (auto simp: conc_step_def intro: call_inv go_inv)

lemma conc_inv_init: "engine_inv_for n d (L, {}) \<Longrightarrow> conc_inv n d (conc_init L)"
  by (simp add: conc_inv_def conc_init_def lock_inv_def)

section \<open>Close returns\<close>

text \<open>What is left to do when no client calls any more.\<close>

definition loop_rank :: "loop_pc \<Rightarrow> nat" where
  "loop_rank p = (case p of Stopped \<Rightarrow> 0 | Selecting \<Rightarrow> 1 | Compacting \<Rightarrow> 2 | Received \<Rightarrow> 3)"

definition close_rank :: "close_pc \<Rightarrow> nat" where
  "close_rank p = (case p of Returned \<Rightarrow> 0 | Closing \<Rightarrow> 1 | AwaitLock \<Rightarrow> 2 | AwaitLoop \<Rightarrow> 3 | NotCalled \<Rightarrow> 4)"

definition work_left :: "conc \<Rightarrow> nat" where
  "work_left s = close_rank (cc_close s) + loop_rank (cc_loop s) + (if l_compactCh (cc_eng s) then 3 else 0)
     + cc_readers s + (if cc_writer s = Some Client then 1 else 0)"

lemma close_ch: "lsm_Close os k L = (r, L') \<Longrightarrow> l_compactCh L' = l_compactCh L"
  by (auto simp: lsm_Close_def andthen_def update_def on_wal_def split: option.splits prod.splits)

lemma go_decreases: "go_step kn s s' \<Longrightarrow> lock_inv s \<Longrightarrow> work_left s' < work_left s"
  by (induction rule: go_step.induct)
    (auto simp: work_left_def loop_rank_def close_rank_def lock_inv_def lock_free_def dest: keepsD [OF kept_ch.tick_body] close_ch)

text \<open>Somebody can always go on until \<open>Close\<close> has returned and every lock is free.\<close>

lemma go_enabled:
  assumes inv: "lock_inv s" and "cc_close s \<noteq> Returned \<or> \<not> lock_free s"
  shows "\<exists>s'. go_step kn s s'"
proof (cases "lock_free s")
  case False
  then consider "0 < cc_readers s" | "cc_writer s = Some Client" | "cc_writer s = Some Loop" | "cc_writer s = Some Closer"
    unfolding lock_free_def by (metis holder.exhaust neq0_conv option.exhaust)
  then show ?thesis using inv by cases (auto simp: lock_inv_def intro: go_step.intros)
next
  case True
  then show ?thesis
  proof (cases "cc_close s")
    case AwaitLoop
    have "cc_loop s \<noteq> Compacting" using inv True by (auto simp: lock_inv_def lock_free_def)
    moreover have "cc_cancelled s" using inv AwaitLoop by (simp add: lock_inv_def)
    moreover obtain r L where "tick_body os_ok (cc_eng s) = (r, L)" by fastforce
    ultimately show ?thesis using AwaitLoop True by (cases "cc_loop s") (auto intro: go_step.intros)
  next
    case AwaitLock
    obtain r L where "lsm_Close os_ok kn (cc_eng s) = (r, L)" by fastforce
    then show ?thesis using AwaitLock True by (auto intro: go_step.intros)
  qed (use assms(2) True in \<open>auto intro: go_step.intros\<close>)
qed

text \<open>So every schedule without new calls is finite, and when it cannot go on \<open>Close\<close> has returned.\<close>

lemma go_bounded: "(go_step kn ^^ k) s s' \<Longrightarrow> lock_inv s \<Longrightarrow> lock_inv s' \<and> work_left s' + k \<le> work_left s"
proof (induction k arbitrary: s')
  case (Suc k)
  then obtain t where t: "(go_step kn ^^ k) s t" "go_step kn t s'" by auto
  with Suc.IH [OF t(1) Suc.prems(2)] go_lock_inv [OF t(2)] go_decreases [OF t(2)] show ?case by force
qed simp

lemma go_maximal:
  assumes "(go_step kn ^^ k) s s'" "lock_inv s" "\<nexists>s''. go_step kn s' s''"
  shows "k \<le> work_left s \<and> cc_close s' = Returned \<and> lock_free s' \<and> cc_loop s' = Stopped"
proof -
  have b: "lock_inv s'" "work_left s' + k \<le> work_left s" using go_bounded [OF assms(1,2)] by simp_all
  then have r: "cc_close s' = Returned" "lock_free s'" using go_enabled [OF b(1), of kn] assms(3) by blast+
  then show ?thesis using b by (simp add: lock_inv_def)
qed

lemma go_run_ends:
  assumes "lock_inv s"
  shows "\<exists>k s'. (go_step kn ^^ k) s s' \<and> (\<nexists>s''. go_step kn s' s'')"
  using assms
proof (induction "work_left s" arbitrary: s rule: less_induct)
  case less
  show ?case
  proof (cases "\<exists>s1. go_step kn s s1")
    case True
    then obtain s1 where s1: "go_step kn s s1" by blast
    obtain k s' where "(go_step kn ^^ k) s1 s'" "\<nexists>s''. go_step kn s' s''"
      using less.hyps [OF go_decreases [OF s1 less.prems] go_lock_inv [OF s1 less.prems]] by blast
    then show ?thesis using relpowp_Suc_I2 [where P = "go_step kn", OF s1] by blast
  qed (metis relpowp_0_I)
qed

end
