(* ===== verification/AfterClose.thy ===== *)
theory AfterClose
  imports Anomalies
begin

text \<open>
  Reads after \<open>Close\<close>.  \<open>Close\<close> unmaps the tables and leaves them listed, and \<open>Get\<close>
  does not ask whether the engine is closed: what only the tables hold reads as
  missing, or the process panics.
\<close>

lemma st_Get_closed:
  assumes "st_MayContain s k = Inr b"
  shows "st_Get (st_Close s) k
    = (if b \<and> sint (si_Lookup (s_index s) k) \<noteq> 0 then Inl (Panic SliceBounds) else Inr None)"
proof -
  have "st_MayContain (st_Close s) k = Inr b" using assms by (simp add: st_MayContain_def st_Close_def)
  moreover have "s_index (st_Close s) = s_index s" "data_bytes (st_Close s) = []"
    by (simp_all add: st_Close_def data_bytes_def)
  ultimately show ?thesis by (simp add: st_Get_def slice_def bindr_def get_scan.simps)
qed

text \<open>The sparse index of a table with fewer than 128 entries points to its start.\<close>

definition at_start :: "sstable \<Rightarrow> bool" where
  "at_start s \<longleftrightarrow> (\<forall>x\<in>set (si_entries (s_index s)). ie_off x = 0)"

lemma at_start_Lookup: "at_start s \<Longrightarrow> si_Lookup (s_index s) k = 0"
proof -
  assume s: "at_start s"
  let ?es = "si_entries (s_index s)"
  have z: "ie_off (?es ! i) = 0" if "i < length ?es" for i using s that by (simp add: at_start_def)
  have "sort_Search (length ?es) (\<lambda>i. k \<le> ie_key (?es ! i)) \<le> length ?es" by (rule sort_Search_le)
  then show ?thesis using z by (auto simp: si_Lookup_def Let_def le_less)
qed

lemma few_at_start: "table_at fs s es \<Longrightarrow> length es < 128 \<Longrightarrow> at_start s"
proof -
  assume t: "table_at fs s es" and n: "length es < 128"
  obtain bf where "s = opened (s_path s) 128 bf es" using t by (auto simp: table_at_def)
  then have "si_entries (s_index s) = index_from 128 0 0 es" by (metis opened_def sparse_index.select_convs(1) sstable.select_convs(2))
  then show ?thesis using index_of_few [OF n] by (auto simp: at_start_def split: list.splits)
qed

lemma get_tables_closed:
  assumes "\<forall>s\<in>set ss. \<exists>b. st_MayContain s k = Inr b"
  shows "fst (get_tables (map st_Close ss) k L) \<in> {Inr None, Inl (Panic SliceBounds)}"
    and "(\<forall>s\<in>set ss. at_start s) \<Longrightarrow> fst (get_tables (map st_Close ss) k L) = Inr None"
proof -
  have "fst (get_tables (map st_Close ss) k L) \<in> {Inr None, Inl (Panic SliceBounds)}
     \<and> ((\<forall>s\<in>set ss. at_start s) \<longrightarrow> fst (get_tables (map st_Close ss) k L) = Inr None)"
    using assms
  proof (induction ss arbitrary: L)
    case (Cons s ss)
    obtain b where b: "st_MayContain s k = Inr b" using Cons.prems by auto
    have m: "st_MayContain (st_Close s) k = Inr b" using b by (simp add: st_MayContain_def st_Close_def)
    show ?case
      using Cons.IH Cons.prems st_Get_closed [OF b] m by (cases b) (auto simp: Let_def at_start_Lookup)
  qed simp
  then show "fst (get_tables (map st_Close ss) k L) \<in> {Inr None, Inl (Panic SliceBounds)}"
    "(\<forall>s\<in>set ss. at_start s) \<Longrightarrow> fst (get_tables (map st_Close ss) k L) = Inr None" by simp_all
qed

lemma get_levels_closed:
  assumes "\<forall>s\<in>set (concat sss). \<exists>b. st_MayContain s k = Inr b"
  shows "fst (get_levels (map (map st_Close) sss) k L) \<in> {Inr None, Inl (Panic SliceBounds)}
     \<and> ((\<forall>s\<in>set (concat sss). at_start s) \<longrightarrow> fst (get_levels (map (map st_Close) sss) k L) = Inr None)"
  using assms
proof (induction sss arbitrary: L)
  case (Cons ss sss)
  obtain r L1 where r: "get_tables (map st_Close ss) k L = (r, L1)" by fastforce
  have "\<forall>s\<in>set ss. \<exists>b. st_MayContain s k = Inr b" using Cons.prems by auto
  note t = get_tables_closed [OF this, of L]
  have "\<forall>s\<in>set (concat sss). \<exists>b. st_MayContain s k = Inr b" using Cons.prems by auto
  note l = Cons.IH [OF this, of L1]
  show ?case using t l r by auto
qed simp

lemma close_levels:
  "lsm_Close os kn L = (r, L1) \<Longrightarrow> l_levels L1 = map (map st_Close) (l_levels L) \<and> l_memtable L1 = l_memtable L
     \<and> l_numLevels L1 = l_numLevels L"
  by (auto simp: lsm_Close_def andthen_def update_def on_wal_def split: option.splits prod.splits)

lemma get_after_close:
  assumes ok: "engine_ok L" and cl: "lsm_Close os kn L = (r, L1)" and none: "mt_Get (l_memtable L) k = None"
  shows "fst (lsm_Get k L1) \<in> {Inr None, Inl (Panic SliceBounds)}"
    and "(\<forall>es\<in>set (concat (contents_of L)). length es < 128) \<Longrightarrow> fst (lsm_Get k L1) = Inr None"
proof -
  note L1 = close_levels [OF cl]
  have len: "take (l_numLevels L1) (l_levels L1) = map (map st_Close) (l_levels L)"
    using L1 engine_levels(1) [OF ok] by simp
  have "\<exists>b. st_MayContain s k = Inr b" if "s \<in> set (concat (l_levels L))" for s
    by (rule st_MayContain_total [OF engine_tables(2) [OF ok that]])
  then have g: "fst (get_levels (map (map st_Close) (l_levels L)) k L1) \<in> {Inr None, Inl (Panic SliceBounds)}
     \<and> ((\<forall>s\<in>set (concat (l_levels L)). at_start s) \<longrightarrow> fst (get_levels (map (map st_Close) (l_levels L)) k L1) = Inr None)"
    by (intro get_levels_closed) blast
  obtain x L2 where x: "get_levels (map (map st_Close) (l_levels L)) k L1 = (x, L2)" by fastforce
  have get: "fst (lsm_Get k L1) = (case x of Inl e \<Rightarrow> Inl e | Inr None \<Rightarrow> Inr None | Inr (Some e) \<Rightarrow> Inr (answer e))"
    using L1 none x len by (simp add: lsm_Get_def andthen_def ret_def split: sum.splits option.splits)
  show "fst (lsm_Get k L1) \<in> {Inr None, Inl (Panic SliceBounds)}" unfolding get using g x by auto
  assume few: "\<forall>es\<in>set (concat (contents_of L)). length es < 128"
  have "at_start s" if s: "s \<in> set (concat (l_levels L))" for s
  proof (rule few_at_start [OF engine_tables(1) [OF ok s]])
    show "length (cont s) < 128" using few s by (auto simp: contents_of_def)
  qed
  then show "fst (lsm_Get k L1) = Inr None" unfolding get using g x by auto
qed

end
