(* ===== verification/PowerLoss.thy ===== *)
theory PowerLoss
  imports Recovery FlushFaults
begin

text \<open>
  Losing power with an engine whose log is synchronised by every append.  A
  reset is not synchronised, so after a flush the log may come back as it was,
  empty, or bare.  The tables and the manifest are on the disk: a table is
  synchronised before the manifest names it, and the manifest and the directory
  before the operation that writes it returns.
\<close>

section \<open>The log's file after power is lost\<close>

definition after_power_loss :: "byte list \<Rightarrow> lsm \<Rightarrow> disk" where
  "after_power_loss f L = (l_disk L)\<lparr>d_files := AList.update wal_name f (d_files (l_disk L))\<rparr>"

text \<open>
  What the file can hold: what has been synchronised, or one of the states that
  creating or resetting the log has put it through since, in the order of the
  calls of \<open>wal_New\<close> and \<open>wal_renew\<close>.
\<close>

definition log_left :: "wal \<Rightarrow> byte list set" where
  "log_left w = (if wa_synced w = wa_file w then {wa_file w} else {wa_synced w, [], [walVersion], wa_file w})"

text \<open>A file that an opening reads the batches \<open>bs\<close> from; before the first synchronisation it may be empty.\<close>

definition log_recovers :: "byte list \<Rightarrow> entry list list \<Rightarrow> bool" where
  "log_recovers f bs \<longleftrightarrow> (\<forall>b\<in>set bs. batch_fits b)
     \<and> (f = [] \<and> bs = [] \<or> (\<exists>n. f = walVersion # log_bytes bs @ replicate n 0))"

lemma wal_holds_recovers: "wal_holds w bs \<Longrightarrow> log_recovers (wa_file w) bs"
  by (auto simp: wal_holds_def wal_at_def log_recovers_def)

lemma log_recovers_blank: "f \<in> {[], [walVersion]} \<Longrightarrow> log_recovers f []"
  by (auto simp: log_recovers_def intro: exI [of _ 0])

lemma update_again: "AList.update k v (AList.update k v' xs) = AList.update k v xs"
  by (induction xs) auto

text \<open>An empty file is opened as a bare one is.\<close>

lemma wal_New_blank:
  "mode \<noteq> SyncIouring \<Longrightarrow> wal_New os_ok k path mode (AList.update path [] fs)
     = wal_New os_ok k path mode (AList.update path [walVersion] fs)"
  by (simp add: wal_New_def andthen_def need_def asks_def update_def update_again Let_def ret_def)

lemma Open_blank:
  assumes "\<not> op_NoWAL opts" "op_WALSyncMode opts \<noteq> SyncIouring"
  shows "lsm_Open os_ok k now opts (after_power_loss [] L) = lsm_Open os_ok k now opts (after_power_loss [walVersion] L)"
  using assms
  by (simp add: lsm_Open_def lsm_start_def lsm_init_def after_power_loss_def andthen_def on_files_def on_disk_def
      wal_New_blank Let_def split: prod.splits sum.splits)

text \<open>Opening after power is lost is opening after a stop with another log.\<close>

lemma reopen_power:
  assumes ok: "engine_ok L" and log: "l_wal L \<noteq> None" and f: "log_recovers f bs"
    and opts: "recovery_opts opts (l_numLevels L)" and now: "l_nextID L \<le> sint now"
  shows "\<exists>L'. lsm_Open os_ok k now opts (after_power_loss f L) = (Inr L', disk_image L')
     \<and> l_levels L' = l_levels L \<and> l_memtable L' = replay_into (concat bs) mt_New \<and> lsm_inv L' (contents_of L')
     \<and> saved L' \<and> wal_ready L' \<and> l_numLevels L' = l_numLevels L \<and> l_maxL0Files L' = 8
     \<and> l_flushThreshold L' \<le> 4 * 2 ^ 20"
proof -
  define g where "g = (if f = [] then [walVersion] else f)"
  have same: "lsm_Open os_ok k now opts (after_power_loss f L) = lsm_Open os_ok k now opts (after_power_loss g L)"
    using Open_blank opts by (simp add: g_def recovery_opts_def)
  have fit: "\<forall>b\<in>set bs. batch_fits b" using f by (simp add: log_recovers_def)
  obtain n where g: "g = walVersion # log_bytes bs @ replicate n 0"
    using f by (auto simp: log_recovers_def g_def intro: exI [of _ 0])
  define w where "w = wal_init wal_name SyncAlways g (1 + length (log_bytes bs))"
  have "wal_holds w bs" using fit by (auto simp: wal_holds_def w_def wal_init_def wal_at_def wal_up_def g)
  then have rep: "wal_replays w (concat bs)" by (rule wal_holds_replays)
  define L0 where "L0 = L\<lparr>l_wal := Some w\<rparr>"
  have "wal_ready L0" using rep by (auto simp: L0_def wal_ready_def wal_replays_def)
  then have "engine_ok L0"
    using ok by (simp add: L0_def engine_ok_def store_ok_def lsm_inv_def paths_of_def contents_of_def saved_def
        mem_entries_def)
  moreover have "disk_image L0 = after_power_loss g L"
    by (simp add: L0_def disk_image_def after_power_loss_def w_def wal_init_def)
  moreover have "l_levels L0 = l_levels L" "l_numLevels L0 = l_numLevels L" "l_nextID L0 = l_nextID L" "l_wal L0 = Some w"
    by (simp_all add: L0_def)
  ultimately show ?thesis using reopen [of L0 w "concat bs" opts now k] rep opts now same by auto
qed

section \<open>What keeps the synchronised part of the log\<close>

definition log_view :: "lsm \<Rightarrow> (sync_mode \<times> byte list) option" where
  "log_view L = map_option (\<lambda>w. (wa_mode w, wa_synced w)) (l_wal L)"

lemma wal_Reset_view: "wal_Reset os k w = (w', r) \<Longrightarrow> wa_mode w' = wa_mode w \<and> wa_synced w' = wa_synced w"
  by (auto simp: wal_Reset_def wal_renew_def Let_def split: if_splits sum.splits)

lemma on_reset_view: "keeps log_view (on_wal (wal_Reset os k))"
  by (auto simp: keeps_def on_wal_def log_view_def dest: wal_Reset_view split: prod.splits option.splits)

interpretation flush_log: flush_frame log_view
  by unfold_locales (simp_all add: log_view_def on_reset_view)

text \<open>A flush that succeeds empties the memtable.\<close>

lemma flush_empties:
  assumes run: "flushMemtable os k L = (Inr (), L')"
  shows "L' = L \<or> l_memtable L' = mt_New"
proof (cases "mt_Count (l_memtable L) = 0")
  case True
  then show ?thesis using run by (auto simp: flushMemtable_def)
next
  case some: False
  obtain m1 es where e: "mt_Entries (l_memtable L) = (m1, es)" by fastforce
  show ?thesis
    using run unfolding flushMemtable_steps [OF some e]
    by (auto split: sum.splits prod.splits dest: keepsD [OF flush_rest_mem])
qed

section \<open>The invariant\<close>

definition replayed :: "entry list list \<Rightarrow> entry set" where
  "replayed bs = set (snd (mt_Entries (replay_into (concat bs) mt_New)))"

lemma replayed_Nil: "replayed [] = {}"
  by (simp add: replayed_def replay_into_def mt_Entries_def mt_New_def)

text \<open>
  What is synchronised of the log replays to the whole memtable, and to nothing
  that was not written; what is not is the creation or a reset, and then the
  memtable is empty.
\<close>

definition power_safe :: "lsm \<Rightarrow> entry set \<Rightarrow> bool" where
  "power_safe L W \<longleftrightarrow> (\<exists>f bs. log_view L = Some (SyncAlways, f) \<and> log_recovers f bs
     \<and> set (mem_entries L) \<subseteq> replayed bs \<and> replayed bs \<subseteq> W \<and> (\<forall>e\<in>replayed bs. entry_small e))
     \<and> (\<forall>w. l_wal L = Some w \<longrightarrow> wa_synced w = wa_file w \<or> mem_entries L = [])"

lemma power_safe_mode: "power_safe L W \<Longrightarrow> \<exists>f. log_view L = Some (SyncAlways, f)"
  by (auto simp: power_safe_def)

lemma power_safe_same:
  "power_safe L W \<Longrightarrow> l_wal L' = l_wal L \<Longrightarrow> mem_entries L' = mem_entries L \<Longrightarrow> power_safe L' W"
  by (simp add: power_safe_def log_view_def)

lemma power_safe_emptied:
  "power_safe L W \<Longrightarrow> log_view L' = log_view L \<Longrightarrow> mem_entries L' = [] \<Longrightarrow> power_safe L' W"
  by (auto simp: power_safe_def)

lemma logged_replayed:
  assumes "engine_ok L" "logged L"
  shows "\<exists>w bs. l_wal L = Some w \<and> log_recovers (wa_file w) bs \<and> replayed bs = set (mem_entries L)"
proof -
  obtain w bs where w: "l_wal L = Some w" "wal_holds w bs"
      "\<forall>x. mt_Get (l_memtable L) x = mt_Get (replay_into (concat bs) mt_New) x"
    using assms(2) by (auto simp: logged_def)
  have "mt_wf (replay_into (concat bs) mt_New)" by (rule replay_into_wf [OF mt_wf_New])
  then have "e \<in> replayed bs \<longleftrightarrow> e \<in> set (mem_entries L)" for e
    using w(3) engine_inv [OF assms(1)] by (simp add: replayed_def mt_Entries_set mem_entries_iff)
  then show ?thesis using w(1) wal_holds_recovers [OF w(2)] by blast
qed

lemma power_safe_logged:
  assumes ok: "engine_ok L" and log: "logged L" and w: "l_wal L = Some w" "wa_mode w = SyncAlways" "wa_synced w = wa_file w"
    and sub: "all_set L \<subseteq> W"
  shows "power_safe L W"
proof -
  obtain bs where bs: "log_recovers (wa_file w) bs" "replayed bs = set (mem_entries L)"
    using logged_replayed [OF ok log] w(1) by auto
  have "set (mem_entries L) \<subseteq> W" using sub by (auto simp: all_set_def)
  moreover have "\<forall>e\<in>set (mem_entries L). entry_small e" using ok by (simp add: engine_ok_def)
  ultimately show ?thesis using bs w unfolding power_safe_def log_view_def by auto
qed

section \<open>Every step keeps it\<close>

lemma on_append_synced:
  assumes app: "on_wal (\<lambda>w. wal_AppendBatch os_ok k w es) L = (Inr (), L1)"
    and mode: "log_view L = Some (SyncAlways, f)" and wal: "wal_ready L"
  shows "\<exists>w. l_wal L1 = Some w \<and> wa_mode w = SyncAlways \<and> wa_synced w = wa_file w"
proof -
  obtain w where w: "l_wal L = Some w" "wa_mode w = SyncAlways" using mode by (auto simp: log_view_def)
  obtain data where "wal_at w data" "wal_up w" using wal w(1) by (auto simp: wal_ready_def)
  from wal_AppendRaw_at [OF this, of k "serializeEntries es"] obtain w' where
    w': "wal_AppendRaw os_ok k w (serializeEntries es) = (w', None)" "wa_mode w' = wa_mode w" by blast
  have "l_wal L1 = Some w'" using app w(1) w'(1) by (auto simp: on_wal_def wal_AppendBatch_def)
  then show ?thesis using append_always_synced [OF w'(1) w(2)] w'(2) w(2) by simp
qed

lemma put_step_synced:
  assumes "put_step os_ok k now kvs L = (Inr (), L1)" "log_view L = Some (SyncAlways, f)" "wal_ready L"
  shows "\<exists>w. l_wal L1 = Some w \<and> wa_mode w = SyncAlways \<and> wa_synced w = wa_file w"
proof -
  have same: "log_view (puts now kvs L) = log_view L" "wal_ready (puts now kvs L) = wal_ready L"
    by (simp_all add: log_view_def wal_ready_def puts_def)
  have "l_wal L \<noteq> None" using assms(2) by (auto simp: log_view_def)
  then obtain L2 where "on_wal (\<lambda>w. wal_AppendBatch os_ok k w (put_entries now kvs)) (puts now kvs L) = (Inr (), L2)"
      "l_wal L1 = l_wal L2"
    using assms(1) by (auto simp: put_step_def andthen_def update_def upd_stats_def split: prod.splits sum.splits)
  with on_append_synced [OF this(1)] same assms(2,3) show ?thesis by simp
qed

lemma Delete_synced:
  assumes "lsm_Delete os_ok k now key L = (Inr (), L1)" "log_view L = Some (SyncAlways, f)" "wal_ready L"
  shows "\<exists>w. l_wal L1 = Some w \<and> wa_mode w = SyncAlways \<and> wa_synced w = wa_file w"
proof -
  have "l_wal L \<noteq> None" using assms(2) by (auto simp: log_view_def)
  then obtain L2 where "on_wal (\<lambda>w. wal_AppendBatch os_ok k w [tombstone now key]) L = (Inr (), L2)" "l_wal L1 = l_wal L2"
    using assms(1)
    by (auto simp: lsm_Delete_def wal_Append_def tombstone_def andthen_def update_def upd_stats_def split: prod.splits sum.splits)
  with on_append_synced [OF this(1) assms(2,3)] show ?thesis by simp
qed

lemma PutBatch_power:
  assumes ok: "engine_ok L" and log: "logged L" and size: "at_most (4 * 2 ^ 20) L" and kvs: "small_batch kvs"
    and clock: "clock_ok now (length kvs) W" and sub: "all_set L \<subseteq> W" and safe: "power_safe L W"
    and run: "PutBatch os_ok k now kvs L = (r, L')"
  shows "power_safe L' (W \<union> set (put_entries now kvs))"
proof (cases "kvs = []")
  case True
  then show ?thesis using run safe by (simp add: PutBatch_def)
next
  case False
  let ?W = "W \<union> set (put_entries now kvs)"
  obtain L1 where L1: "put_step os_ok k now kvs L = (Inr (), L1)" "engine_ok L1" "at_most (4 * 2 ^ 20 + 2 ^ 17) L1"
      "outlives True (all_set L \<union> set (put_entries now kvs)) (all_set L1)" "logged L1"
    using put_step_engine [OF ok size kvs clock_ok_mono [OF clock sub], of k True] log by blast
  have "all_set L1 \<subseteq> ?W" using L1(4) sub by (auto simp: outlives_def)
  moreover have "wal_ready L" using ok by (simp add: engine_ok_def)
  ultimately have safe1: "power_safe L1 ?W"
    using power_safe_logged [OF L1(2,5)] put_step_synced [OF L1(1)] power_safe_mode [OF safe] by blast
  show ?thesis
  proof (cases "l_flushThreshold L1 \<le> mt_Size (l_memtable L1)")
    case True
    obtain L2 where L2: "flushMemtable os_ok k L1 = (Inr (), L2)" using flush_ok [OF L1(2,3)] by blast
    then have "L' = L2" using run True by (simp add: PutBatch_step [OF False] andthen_def L1(1))
    moreover have "L2 = L1 \<or> mem_entries L2 = []" using flush_empties [OF L2] mem_entries_New by blast
    ultimately show ?thesis using safe1 power_safe_emptied [OF safe1 flush_log.flushMemtable [OF L2]] by auto
  next
    case False
    with run safe1 \<open>kvs \<noteq> []\<close> show ?thesis by (simp add: PutBatch_step andthen_def L1(1))
  qed
qed

lemma Delete_power:
  assumes ok: "engine_ok L" and log: "logged L" and key: "length key \<le> 512" and clock: "clock_ok now 1 W"
    and sub: "all_set L \<subseteq> W" and safe: "power_safe L W" and run: "lsm_Delete os_ok k now key L = (r, L')"
  shows "power_safe L' (insert (tombstone now key) W)"
proof -
  have L': "r = Inr ()" "engine_ok L'" "outlives (7 \<le> l_numLevels L) (all_set L \<union> {tombstone now key}) (all_set L')" "logged L'"
    using Delete_ok [OF ok key clock_ok_mono [OF clock sub], of k] run log by auto
  have "all_set L' \<subseteq> insert (tombstone now key) W" using L'(3) sub by (auto simp: outlives_def)
  moreover have "wal_ready L" using ok by (simp add: engine_ok_def)
  ultimately show ?thesis
    using power_safe_logged [OF L'(2,4)] Delete_synced [of k now key L L'] run L'(1) power_safe_mode [OF safe] by blast
qed

text \<open>The invariant of the runs of an engine that synchronises every append.\<close>

definition power_inv :: "nat \<Rightarrow> lsm \<times> entry set \<Rightarrow> bool" where
  "power_inv n c \<longleftrightarrow> engine_inv_for n True c \<and> power_safe (fst c) (snd c)"

lemma power_step:
  assumes step: "engine_step kn c c'" and inv: "power_inv n c"
  shows "power_inv n c'"
proof -
  have inv': "engine_inv_for n True c'" using engine_step_inv [OF step] inv by (simp add: power_inv_def)
  have "power_safe (fst c') (snd c')"
    using step
  proof cases
    case (put kvs now W L r L')
    with inv have "engine_ok L" "logged L" "all_set L \<subseteq> W" "power_safe L W"
      by (simp_all add: power_inv_def engine_inv_for_def outlives_def)
    from PutBatch_power [OF this(1,2) put(5,3,4) this(3,4) put(6)] put(2) show ?thesis by simp
  next
    case (delete key now W L r L')
    with inv have "engine_ok L" "logged L" "all_set L \<subseteq> W" "power_safe L W"
      by (simp_all add: power_inv_def engine_inv_for_def outlives_def)
    from Delete_power [OF this(1,2) delete(3,4) this(3,4) delete(5)] delete(2) show ?thesis by simp
  next
    case (get key L g L' W)
    have same: "same_but_stats L L'" by (rule lsm_Get_stats [OF get(3)])
    then have "l_wal L' = l_wal L" "mem_entries L' = mem_entries L"
      by (auto simp: same_but_stats_def upd_stats_def mem_entries_def)
    with inv get power_safe_same [of L W L'] show ?thesis by (simp add: power_inv_def)
  next
    case (compact L r L' W)
    with inv have ok: "engine_ok L" by (simp add: power_inv_def engine_inv_for_def)
    have "l_memtable L' = l_memtable L" using engine_tick [OF ok] compact(3) by auto
    then have "mem_entries L' = mem_entries L" by (simp add: mem_entries_def)
    with inv compact power_safe_same [of L W L'] keepsD [OF kept_wal.compaction_tick compact(3)] show ?thesis
      by (simp add: power_inv_def)
  qed
  with inv' show ?thesis by (simp add: power_inv_def)
qed

lemma power_run: "(engine_step kn)\<^sup>*\<^sup>* c c' \<Longrightarrow> power_inv n c \<Longrightarrow> power_inv n c'"
  by (induction rule: rtranclp_induct) (auto intro: power_step)

lemma power_inv_new:
  assumes "engine_inv_for n True (L, {})" "mem_entries L = []"
    and "l_wal L = Some w" "wa_mode w = SyncAlways" "wa_synced w = []"
  shows "power_inv n (L, {})"
  using assms by (auto simp: power_inv_def power_safe_def log_view_def log_recovers_def replayed_Nil intro!: exI [of _ "[]"])

section \<open>After power is lost\<close>

lemma power_recovers:
  assumes inv: "power_inv n (L, W)" and w: "l_wal L = Some w" and f: "f \<in> log_left w"
    and opts: "recovery_opts opts n" and now: "l_nextID L \<le> sint now"
  shows "\<exists>L'. lsm_Open os_ok k now opts (after_power_loss f L) = (Inr L', disk_image L')
     \<and> l_levels L' = l_levels L \<and> engine_inv_for n False (L', W)"
proof -
  have ok: "engine_ok L" "logged L" "l_numLevels L = n" "outlives (7 \<le> n) W (all_set L)" "power_safe L W"
    using inv by (simp_all add: power_inv_def engine_inv_for_def)
  obtain bs where bs: "log_recovers f bs" "set (mem_entries L) \<subseteq> replayed bs" "replayed bs \<subseteq> W"
      "\<forall>e\<in>replayed bs. entry_small e"
  proof -
    have left: "f = wa_synced w \<or> f = wa_file w \<or> mem_entries L = [] \<and> f \<in> {[], [walVersion]}"
      using f ok(5) w by (auto simp: log_left_def power_safe_def split: if_splits)
    have mem: "set (mem_entries L) \<subseteq> W" "\<forall>e\<in>set (mem_entries L). entry_small e"
      using ok(1,4) by (auto simp: outlives_def all_set_def engine_ok_def)
    show ?thesis
      using left
    proof (elim disjE conjE)
      assume "f = wa_synced w"
      with ok(5) w that show ?thesis unfolding power_safe_def log_view_def by auto
    next
      assume "f = wa_file w"
      with logged_replayed [OF ok(1,2)] w mem that show ?thesis by auto
    next
      assume "mem_entries L = []" "f \<in> {[], [walVersion]}"
      then show ?thesis by (intro that [OF log_recovers_blank]) (simp_all add: replayed_Nil)
    qed
  qed
  obtain L' where L': "lsm_Open os_ok k now opts (after_power_loss f L) = (Inr L', disk_image L')"
      "l_levels L' = l_levels L" "l_memtable L' = replay_into (concat bs) mt_New" "lsm_inv L' (contents_of L')"
      "saved L'" "wal_ready L'" "l_numLevels L' = l_numLevels L" "l_maxL0Files L' = 8" "l_flushThreshold L' \<le> 4 * 2 ^ 20"
    using reopen_power [OF ok(1) _ bs(1) _ now, of opts k] w opts ok(3) by auto
  have mem: "set (mem_entries L') = replayed bs" by (simp add: mem_entries_def replayed_def L'(3))
  have "engine_ok L'" by (rule engine_ok_opened [OF ok(1) L'(2,7,8,4,5,6,9)]) (use bs(4) mem in simp)
  moreover have "stored_set L' = stored_set L" by (simp add: stored_set_def L'(2))
  then have "all_set L' = replayed bs \<union> stored_set L" by (simp add: all_set_def mem)
  then have "all_set L \<subseteq> all_set L'" "all_set L' \<subseteq> W" using bs(2,3) ok(4) by (auto simp: all_set_def outlives_def)
  then have "outlives (7 \<le> n) W (all_set L')" using ok(4) unfolding outlives_def by blast
  ultimately show ?thesis using L'(1,2,7) ok(3) by (auto simp: engine_inv_for_def)
qed

end
