(* ===== verification/Spec2Isabelle.thy ===== *)
theory Spec2Isabelle
  imports Programs BenchOther FullTable CompactFaults RingLayout Background AfterClose PowerLoss
begin

text \<open>
  A model of the storage engine of this repository: a log-structured merge tree
  in Go, in the packages of \<open>src/internal\<close>, and of the programs that drive it.
  This theory imports all others and states the properties, C1 to C40, with a
  witness where there is a hypothesis, and further results on single components.

  The program.  \<open>lsm.LSM\<close> keeps a memtable, a write-ahead log and levels of
  immutable table files.  A write goes to the memtable and the log; a memtable
  over its threshold is flushed into a new table of level 0; compactions merge
  tables into the next level; a read asks the memtable, then the tables in the
  order of the levels.  Every table carries a sparse index and a Bloom filter.
  \<open>Open\<close> reads the manifest, which lists the tables, and replays the log.

  How code becomes definitions.  A Go struct is a record, a method a function
  from the state to a result and the new state, under the name the method has
  (prefixed \<open>mt_\<close>, \<open>bf_\<close>, \<open>si_\<close>, \<open>w_\<close>, \<open>st_\<close>, \<open>wal_\<close>, \<open>lsm_\<close> by component).  Strings and
  byte slices are lists of \<open>8 word\<close>; \<open>uint64\<close>, \<open>uint32\<close> and timestamps are words;
  \<open>int\<close> counters and sizes that cannot overflow are \<open>int\<close> or \<open>nat\<close>.  Each error
  return is a value of \<open>error\<close>, each run-time panic a value \<open>Panic\<close> of it.  Every
  system call asks an oracle \<open>os\<close> whether it succeeds, \<open>os_ok\<close> being the one that
  never fails.  The oracle has no memory: within one operation the same call on
  the same file always succeeds or always fails, and a failure that passes is one
  where the next operation has another oracle (\<open>log_calls\<close>, C27).  The io_uring
  kernel interface is a parameter \<open>kernel\<close> and the clock an argument.  What a call does under the engine's lock is one function;
  \<open>Background\<close> has the lock itself, the background loop and the stages of \<open>Close\<close>
  as steps, and shows that every interleaving keeps what the calls keep.

  The standard library, written out where its behaviour matters:
    \<^item> \<open>Prelude\<close>: machine types, results, slices, lists of pairs, sorted lists;
    \<^item> \<open>GoOS\<close>: files, the oracle of system calls, programs with errors;
    \<^item> \<open>GoSort\<close>, \<open>GoHeap\<close>: \<open>sort.Search\<close> and \<open>container/heap\<close>, the latter with the
      locale \<open>lt_by\<close> that a \<open>Less\<close> method meets (\<open>Compaction\<close> interprets it);
    \<^item> \<open>GoFloat\<close>: rounding of doubles; \<open>GoFmt\<close>: the verbs of the file names;
      \<open>GoText\<close>: runes, the widths of \<open>fmt\<close>, fixed-point figures;
    \<^item> \<open>Varint\<close>, \<open>Checksum\<close>: \<open>encoding/binary\<close>, CRC-32 and FNV-1a.

  The components, with their own invariants and laws:
    \<^item> \<open>MemTable\<close> (\<open>memtable/entry.go\<close>): the map with its sorted key cache; locale
      \<open>write_buffer\<close>, the last write per key;
    \<^item> \<open>SparseIndex\<close> (\<open>sparseindex/sparseindex.go\<close>): the binary search against a
      linear reference;
    \<^item> \<open>Bloom\<close> (\<open>bloom/bloom.go\<close>): the filter as a set of positions, its bytes;
      locale \<open>approx_set\<close>, no false negatives;
    \<^item> \<open>EntryCodec\<close>, \<open>SSTableFormat\<close>, \<open>SSTableWriter\<close>, \<open>SSTable\<close>
      (\<open>sstable/sstable.go\<close>): record, block and file formats, the mapped writer,
      the three ways of opening, lookup, full read and iterator; locale
      \<open>table_store\<close>, a table answers as its entries do;
    \<^item> \<open>IOUring\<close> (\<open>wal/io_uring_linux.go\<close>): the submission and completion rings;
      \<open>RingLayout\<close>: the structures shared with the kernel as the compiler lays them
      out, and the check of \<open>init\<close>;
    \<^item> \<open>WAL\<close>, \<open>WALLog\<close> (\<open>wal/wal.go\<close>, \<open>wal/sync_*.go\<close>): the mapped log in its four
      synchronisation modes, replay, reset and close; locale \<open>append_log\<close>, what is
      appended is replayed; the asynchronous goroutine as a step relation;
    \<^item> \<open>Compaction\<close>, \<open>MergeSpec\<close>, \<open>CompactSpec\<close>, \<open>TableSize\<close>
      (\<open>compaction/compaction.go\<close>): the merge over a heap of iterators, shown equal
      to a sorted merge that keeps the newest version per key, cut into chunks
      that fit the mapping of a new table;
    \<^item> \<open>Manifest\<close>, \<open>LSM\<close> (\<open>lsm/lsm.go\<close>): manifest, orphans, \<open>Open\<close>, writes, flush,
      both compactions, the background round, reads, statistics, \<open>Close\<close>.

  The engine as a whole, over the definitions of \<open>LSM\<close>:
    \<^item> \<open>LSMSpec\<close>, \<open>FlushSpec\<close>, \<open>FlushFacts\<close>: the invariant \<open>lsm_inv\<close> relates the levels
      to the contents of their files; a read returns \<open>look\<close>; a flush keeps every
      version of every key;
    \<^item> \<open>CompactStep\<close>, \<open>CompactOps\<close>: both compactions replace tables by the chunks of
      their merge, keep the invariant, and a version at least as new survives;
    \<^item> \<open>EngineRun\<close>: \<open>engine_step\<close>, the runs of the engine, whose state is paired with
      the set of all entries written; \<open>Recovery\<close>: crashes and reopening;
    \<^item> \<open>Reads\<close>, \<open>Refine\<close>: when the tables list the versions of a key newest first the
      engine implements a map; \<open>kv_step\<close> pairs each step with its effect on the
      map, and the locale \<open>map_store\<close> is that contract, interpreted on the engine;
    \<^item> \<open>RunReads\<close>: what the reads of a run can return, with no condition on its
      flushes and compactions;
    \<^item> \<open>CompactCrash\<close>: both compactions up to the manifest (\<open>l0_merge\<close>,
      \<open>level_merge\<close>) and what an opening finds after a crash there;
    \<^item> \<open>PowerLoss\<close>: what is on the device of the log when each append is
      synchronised, kept by every step, and what an opening finds in it;
    \<^item> \<open>Background\<close>: any number of clients, the compaction loop and \<open>Close\<close> over one
      engine, with the lock, the channel and the cancelled context; who holds the
      lock when, and that \<open>Close\<close> returns under every schedule;
    \<^item> \<open>Frame\<close>: what compactions leave as it is whatever fails: the locales
      \<open>compaction_frame\<close> and \<open>tick_frame\<close>, extended to flushes by \<open>flush_frame\<close> in
      \<open>FlushFaults\<close>, are interpreted on the parts of the engine that are kept;
    \<^item> \<open>Anomalies\<close>, \<open>AfterClose\<close>, \<open>Faults\<close>, \<open>FlushFaults\<close>, \<open>CompactFaults\<close>: behaviour the
      documentation does not promise, on stores built with given contents, reads
      after \<open>Close\<close>, and what failing operations leave behind: the places where a
      flush (\<open>stopped_unwritten\<close> to \<open>stopped_listed\<close>) and a compaction of level 0
      (\<open>stopped_merging\<close>, \<open>stopped_listing\<close>) can stop, whatever calls fail.

  The programs over the engine:
    \<^item> \<open>Loader\<close> (\<open>bench/compare/compare.go\<close>, \<open>cmd/lsmdemo\<close>, \<open>cmd/profile\<close>): the loop
      that collects pairs and puts full batches, shown equal to cutting the list
      into batches; the loads, the reads and a whole benchmark as runs of the
      engine, with any rounds of the background goroutine in between;
    \<^item> \<open>BenchWal\<close> (\<open>cmd/benchwal\<close>): the runs over the log, the memtable and the
      engine; \<open>BenchOther\<close>: the runs of the comparison over BadgerDB and BoltDB, whose
      operations are the parameters \<open>badger\<close> and \<open>bolt\<close>;
    \<^item> \<open>Programs\<close>: the main functions of \<open>cmd/lsmdemo\<close>, \<open>cmd/profile\<close> and
      \<open>cmd/benchwal\<close> from the opening to the output; the locale \<open>engine_frame\<close> is
      what only reads change;
    \<^item> \<open>Report\<close>, \<open>DemoReport\<close>: the ratios, rates and tables that the demo, the
      comparison and the profiler print; \<open>FullTable\<close> (\<open>bench/fulltable.go\<close>): the report
      of the measured figures.

  Bounds.  \<open>entry_small\<close>: keys of at most 512 bytes and values of at most 64 KiB;
  \<open>small_batch\<close>: batches of at most 128 KiB; thresholds of at most 4 MiB.  Under
  these a table has fewer than 300000 entries and fits the first mapping of the
  writer, which \<open>Close\<close> does not grow (\<open>full_writer_close_panics\<close> at the end is what
  happens otherwise).  The
  clock is ahead of the entries written and does not reach \<open>2 ^ 63\<close>.  Reads assume
  \<open>st_clean\<close>: the bytes behind a table's data block do not scan as the key, since
  the code scans past the block.  C2 asks further that the key is not empty, that
  no flush brings a key into a level 0 that holds it and that no compaction of
  level 0, the one inside a flush included, misses an overlap (\<open>flush_fits\<close>,
  \<open>no_overlap_missed\<close>); C19 and C23 show what happens without that, and C3 holds
  without it.  That nothing is lost (C1, C7, C8, \<open>outlives\<close>) means of a non-empty
  key that a version at least as new is held, or with seven levels or more, the
  default, has been a tombstone that a compaction has dropped.
  The benchmarks have indices below \<open>10 ^ 8\<close>, so that eight digits hold them, and
  batches a microsecond apart, so that the timestamps of two batches do not mix.

  No fuel is used for the program's loops: all terminate by structure or a
  measure, except the doubling of the log's mapping and the collection of
  completions (\<open>grow_loop\<close>, \<open>grow_size\<close>, \<open>reap\<close>), which are partial functions; C28
  and \<open>reap_checks_first_only\<close> say when they return.  The log's mapping grows by
  \<open>grow_size\<close>, on sizes that do not wrap around; C28 is about \<open>grow_loop\<close>, the loop
  on Go's \<open>int\<close>, and shows that the two agree up to \<open>2 ^ 62\<close> bytes on 64-bit
  platforms, and that with 32 bits the code hangs beyond 1 GiB, which the model of
  the log does not show.  \<open>compactLevel\<close> takes the number
  of levels as the bound of its cascade, and each cascade descends one level.

  Not modelled.  Of the drivers, the measuring of times, which are arguments of
  what is printed, and what the profiler and the tracer write.  BadgerDB and BoltDB are not here: of BadgerDB, C38 assumes
  \<open>badger_laws\<close>, what its write batch promises; nothing is assumed of BoltDB.
  The kernel, the scheduler and \<open>sync.RWMutex\<close> appear as what they guarantee.
  The JSON text of the manifest is held as the value it denotes.  The numbers of
  system calls, opcodes and flags of io_uring, and its mapping of the rings,
  belong to the kernel interface, which is a parameter.  \<open>PowerLoss\<close> has the
  loss of power between operations, with tables and manifest on the disk, since
  the code synchronises each before it is relied on, and with the changes of the
  log's file arriving in their order; a loss inside an operation, and what is
  left of files whose synchronisation failed, are not modelled.  Statistics are
  unbounded integers.  Plain accessors are the selectors of the records.
\<close>

section \<open>Opening and running an engine\<close>

text \<open>
  The options the properties allow: any synchronisation mode but the ring, two
  levels or more and a flush threshold of at most 4 MiB, the default.
\<close>

definition plain_opts :: "options \<Rightarrow> bool" where
  "plain_opts opts \<longleftrightarrow> op_WALSyncMode opts \<noteq> SyncIouring \<and> op_NumLevels opts \<noteq> 1
     \<and> op_NumLevels opts < 2 ^ 63 \<and> op_FlushThreshold opts \<le> 4 * 2 ^ 20"

definition opened_with :: "kernel \<Rightarrow> i64 \<Rightarrow> options \<Rightarrow> lsm \<Rightarrow> bool" where
  "opened_with kn now opts L \<longleftrightarrow>
     plain_opts opts \<and> 0 \<le> sint now \<and> fst (lsm_Open os_ok kn now opts empty_disk) = Inr L"

lemma opened_facts:
  assumes "opened_with kn now opts L"
  shows "engine_ok L" "all_set L = {}" "l_memtable L = mt_New" "\<not> op_NoWAL opts \<Longrightarrow> logged L"
    "l_numLevels L = (if op_NumLevels opts \<le> 0 then 7 else nat (op_NumLevels opts))" "l_nextID L = sint now"
    "contents_of L = replicate (l_numLevels L) []"
    "\<not> op_NoWAL opts \<Longrightarrow> \<exists>w. l_wal L = Some w \<and> wal_holds w []
       \<and> wa_file w = walVersion # replicate (wal_initialMmapSize - 1) 0"
  using assms lsm_Open_new [of opts now kn] by (auto simp: opened_with_def plain_opts_def)

lemma opened_inv:
  "opened_with kn now opts L \<Longrightarrow> engine_inv_for (l_numLevels L) (\<not> op_NoWAL opts) (L, {})"
  using opened_facts [of kn now opts L] by (auto simp: engine_inv_for_def)

lemma opened_power:
  assumes "opened_with kn now opts L" "\<not> op_NoWAL opts" "op_WALSyncMode opts = SyncAlways"
  shows "power_inv (l_numLevels L) (L, {})"
proof -
  obtain w where "l_wal L = Some w" "wa_mode w = SyncAlways" "wa_synced w = []"
    using assms lsm_Open_new [of opts now kn] by (auto simp: opened_with_def plain_opts_def)
  moreover have "mem_entries L = []" by (rule mem_entries_New [OF opened_facts(3) [OF assms(1)]])
  ultimately show ?thesis using power_inv_new [OF _ \<open>mem_entries L = []\<close>] opened_inv [OF assms(1)] assms(2) by simp
qed

lemma run_inv:
  assumes "opened_with kn now opts L0" "(engine_step kn)\<^sup>*\<^sup>* (L0, {}) (L, W)"
  shows "engine_ok L" "l_numLevels L = l_numLevels L0" "outlives (7 \<le> l_numLevels L) W (all_set L)"
    "\<not> op_NoWAL opts \<Longrightarrow> logged L"
  using engine_run_inv [OF assms(2) opened_inv [OF assms(1)]] by (auto simp: engine_inv_for_def)

lemma run_recovery_opts:
  assumes "opened_with kn now opts L0" "(engine_step kn)\<^sup>*\<^sup>* (L0, {}) (L, W)" "\<not> op_NoWAL opts"
  shows "recovery_opts opts (l_numLevels L)"
  using assms(1,3) opened_facts(5) [OF assms(1)] run_inv(2) [OF assms(1,2)]
  by (auto simp: recovery_opts_def opened_with_def plain_opts_def)

lemma look_fresh:
  assumes "l_memtable L2 = mt_New" "l_levels L2 = l_levels L" "k \<notin> e_key ` stored_set L"
  shows "look L2 (contents_of L2) k = None"
proof -
  have "contents_of L2 = contents_of L" by (simp add: contents_of_def assms(2))
  then have "newest (stored_entries (contents_of L2)) k = None"
    using assms(3) unfolding newest_None stored_set_eq by simp
  then show ?thesis by (simp add: look_def assms(1))
qed

lemma append_raws_wlog: "append_raws os_ok k w (map serializeEntries bs) = wlog.appends k w bs"
  by (induction bs arbitrary: w) (auto simp: wal_AppendBatch_def split: prod.splits option.splits)

lemma append_batches:
  assumes "wal_holds w as" "\<forall>b\<in>set bs. batch_fits b"
  shows "\<exists>w'. append_raws os_ok k w (map serializeEntries bs) = (w', None) \<and> wal_holds w' (as @ bs)"
  unfolding append_raws_wlog by (rule wlog.appends_holds [OF assms])

lemma new_log:
  assumes "map_of fs p = None" "mode \<noteq> SyncIouring"
  shows "\<exists>w fs'. wal_New os_ok k p mode fs = (Inr w, fs') \<and> wal_holds w [] \<and> wa_mode w = mode \<and> wa_path w = p"
  using wal_New_empty [of fs p mode k] assms by (fastforce simp: wal_holds_def)

lemma wal_New_fresh:
  assumes "wal_New os k p mode fs = (Inr w, fs')"
  shows "wa_mode w = mode" "wa_pending w = 0" "wa_synced w = []"
  using assms
  by (auto simp: wal_New_def wal_init_def Let_def andthen_def need_def asks_def update_def ret_def raise_def
      split: if_splits prod.splits sum.splits)

text \<open>Opening a log file reads back what precedes a cut batch, padded or not.\<close>

lemma log_replays:
  assumes "\<forall>b\<in>set bs. batch_fits b" "batch_fits b" "m < length (serializeEntries b)"
  shows "replay_loop (log_bytes bs @ take m (serializeEntries b)) = Inr (concat bs)"
  using replay_log [OF assms(1)] replay_loop_cut [OF assms(2,3)] by simp

lemma open_log:
  assumes "map_of fs p = Some (walVersion # data)" "replay_loop data = Inr es" "mode \<noteq> SyncIouring"
  shows "\<exists>w fs'. wal_New os_ok k p mode fs = (Inr w, fs') \<and> wal_Replay w = Inr es"
proof (cases "data = []")
  case True
  then have "map_of fs p \<in> {None, Some [], Some [walVersion]}" "es = []" using assms(1,2) by simp_all
  with wal_New_empty [of fs p mode k] assms(3) wal_Replay_at [of _ "[]"] show ?thesis by fastforce
next
  case False
  with wal_New_existing [OF assms(1) False assms(3), of k] wal_Replay_at assms(2) show ?thesis by fastforce
qed

text \<open>Adding keys to a filter one after the other.\<close>

lemma bloom_fold: "foldl (\<lambda>r k. bindr r (\<lambda>f. bf_Add f k)) (Inr f) ks = bloom.add_all f ks"
  by (induction ks rule: rev_induct) (simp_all add: bloom.add_all_snoc)

section \<open>Sample data of the witnesses\<close>

text \<open>A kernel without io_uring, the default options, and the engine they open.\<close>

definition no_ring :: kernel where
  "no_ring = \<lparr>k_setup = None, k_enter = (\<lambda>_ _ _ _. Errno)\<rparr>"

definition default_opts :: options where
  "default_opts = \<lparr>op_FlushThreshold = 4 * 2 ^ 20, op_NumLevels = 0, op_WALSyncMode = SyncAlways, op_NoWAL = False\<rparr>"

definition new_engine :: lsm where
  "new_engine = (case fst (lsm_Open os_ok no_ring 0 default_opts empty_disk) of
     Inr L \<Rightarrow> L | Inl _ \<Rightarrow> lsm_init 0 default_opts empty_disk)"

lemma new_engine_opened: "opened_with no_ring 0 default_opts new_engine"
  using lsm_Open_new [of default_opts 0 no_ring]
  by (auto simp: opened_with_def plain_opts_def default_opts_def new_engine_def)

definition sample :: "entry list" where
  "sample = [\<lparr>e_key = [97], e_val = [1], e_ts = 5, e_tomb = False\<rparr>,
             \<lparr>e_key = [98], e_val = [], e_ts = 6, e_tomb = True\<rparr>]"

lemma sample_facts:
  "sorted_strict (map e_key sample)" "\<forall>e\<in>set sample. entry_small e" "\<forall>e\<in>set sample. entry_fits e"
  "table_fits (int (length sample)) sample" "sample \<noteq> []"
proof -
  show small: "\<forall>e\<in>set sample. entry_small e" by (simp add: sample_def entry_small_def)
  then show "\<forall>e\<in>set sample. entry_fits e" by (auto intro: entry_small_fits)
  show "table_fits (int (length sample)) sample"
    by (rule table_fits_small [OF small]) (simp_all add: sample_def chunk_size_def cost_def)
qed (simp_all add: sample_def)

text \<open>One write of a short key at time one, as a step of the new engine.\<close>

definition one_put :: entry where
  "one_put = \<lparr>e_key = [97], e_val = [1], e_ts = 1, e_tomb = False\<rparr>"

lemma small_put: "small_batch [([97], [1])]"
  by (simp add: small_batch_def put_estimate_def)

lemma clock_one: "clock_ok 1 1 {}"
  by (simp add: clock_ok_def)

lemma new_engine_size: "at_most n new_engine \<longleftrightarrow> 0 \<le> n"
  using opened_facts(3) [OF new_engine_opened] by (simp add: at_most_def mt_Size_def mt_New_def)

lemma new_engine_threshold: "l_flushThreshold new_engine = 4 * 2 ^ 20"
  using lsm_Open_new [of default_opts 0 no_ring] by (auto simp: default_opts_def new_engine_def)

lemma new_engine_level0: "l_levels new_engine ! 0 = []"
proof -
  note new = opened_facts [OF new_engine_opened]
  have "0 < length (l_levels new_engine)" using engine_levels(2) [OF new(1)] .
  then have "map cont (l_levels new_engine ! 0) = contents_of new_engine ! 0" by (simp add: contents_of_def)
  also have "\<dots> = []" using new(5,7) by (simp add: default_opts_def)
  finally show ?thesis by simp
qed

lemma new_engine_stored: "l_levels L = l_levels new_engine \<Longrightarrow> stored_set L = {}"
  using opened_facts(2) [OF new_engine_opened] by (simp add: all_set_def stored_set_def)

lemma new_engine_clean: "l_levels L = l_levels new_engine \<Longrightarrow> clean_for L k"
proof -
  have "concat (contents_of new_engine) = []"
    using opened_facts(7) [OF new_engine_opened] by (metis concat_replicate_trivial)
  then show "clean_for L k" if "l_levels L = l_levels new_engine"
    using that by (auto simp: clean_for_def contents_of_def)
qed

lemma new_engine_room: "mt_Size (l_memtable (puts 1 [([97], [1])] new_engine)) < l_flushThreshold new_engine"
  unfolding new_engine_threshold using opened_facts(3) [OF new_engine_opened]
  by (simp add: puts_def replay_into_def mt_Put_store mt_store_def mt_New_def mt_Size_def entry_cost_def)

lemma new_engine_put:
  "\<exists>L. (engine_step no_ring)\<^sup>*\<^sup>* (new_engine, {}) (L, {one_put})
     \<and> PutBatch os_ok no_ring 1 [([97], [1])] new_engine = (Inr (), L)
     \<and> mt_Get (l_memtable L) [97] = Some one_put \<and> l_nextID L = 0 \<and> l_levels L = l_levels new_engine
     \<and> at_most (4 * 2 ^ 20) L"
proof -
  note new = opened_facts [OF new_engine_opened]
  have size: "mt_Size (l_memtable (puts 1 [([97], [1])] new_engine)) < 4 * 2 ^ 20"
    using new_engine_room by (simp add: new_engine_threshold)
  from PutBatch_no_flush [OF _ _ _ new_engine_room, where k = no_ring] engine_inv [OF new(1)] new(1)
  obtain L where L: "PutBatch os_ok no_ring 1 [([97], [1])] new_engine = (Inr (), L)"
      "l_memtable L = l_memtable (puts 1 [([97], [1])] new_engine)" "l_nextID L = l_nextID new_engine"
      "l_levels L = l_levels new_engine"
    unfolding engine_ok_def by blast
  have "at_most (4 * 2 ^ 20) L" using size L(2) by (simp add: at_most_def)
  moreover
  have "engine_step no_ring (new_engine, {}) (L, {one_put})"
    using engine_step.put [OF small_put _ _ L(1), of "{}"] clock_one new_engine_size by (simp add: one_put_def)
  moreover have "mt_Get (l_memtable L) [97] = Some one_put"
    using L(2) new(3) by (simp add: puts_def replay_into_get last_write_def stored_def one_put_def)
  ultimately show ?thesis using L(1,3,4) new(6) by auto
qed

text \<open>An engine that flushes at every put, after one.\<close>

definition eager_opts :: options where
  "eager_opts = default_opts\<lparr>op_FlushThreshold := 1\<rparr>"

lemma eager_put:
  "\<exists>L0 L s. opened_with no_ring 0 eager_opts L0 \<and> (engine_step no_ring)\<^sup>*\<^sup>* (L0, {}) (L, {one_put})
     \<and> l_nextID L = 1 \<and> l_memtable L = mt_New \<and> l_levels L ! 0 = [s] \<and> l_levels L ! 1 = []
     \<and> concat (l_levels L) = [s] \<and> cont s = [one_put]
     \<and> l_numLevels L0 = 7 \<and> kv_step no_ring (L0, Map.empty) (L, [[97] \<mapsto> [1]])"
proof -
  obtain L0 d where L0: "lsm_Open os_ok no_ring 0 eager_opts empty_disk = (Inr L0, d)" "l_maxL0Files L0 = 8"
      "l_flushThreshold L0 = 1"
    using lsm_Open_new [of eager_opts 0 no_ring] by (auto simp: eager_opts_def default_opts_def)
  have o: "opened_with no_ring 0 eager_opts L0"
    using L0(1) by (simp add: opened_with_def plain_opts_def eager_opts_def default_opts_def)
  note new = opened_facts [OF o]
  have n: "l_numLevels L0 = 7" "l_nextID L0 = 0" using new(5,6) by (simp_all add: eager_opts_def default_opts_def)
  have len: "length (l_levels L0) = 7" using engine_levels(1) [OF new(1)] n(1) by simp
  have "concat (contents_of L0) = []" using new(7) by (metis concat_replicate_trivial)
  then have empty: "\<forall>ss\<in>set (l_levels L0). ss = []" by (auto simp: contents_of_def)
  have size: "at_most (4 * 2 ^ 20) L0" using new(3) by (simp add: at_most_def mt_Size_def mt_New_def)
  have full: "l_flushThreshold L0 \<le> mt_Size (l_memtable (puts 1 [([97], [1])] L0))"
    using L0(3) new(3) by (simp add: puts_def replay_into_def mt_Put_store mt_store_def mt_New_def mt_Size_def entry_cost_def)
  have clock: "clock_ok 1 (length [([97], [1])]) (all_set L0)" using clock_one new(2) by simp
  have "l_levels L0 ! 0 = []" using empty len by simp
  then have "length (l_levels L0 ! 0) < l_maxL0Files L0 * 2" using L0(2) by simp
  from PutBatch_flush [OF new(1) size _ small_put clock full this, of no_ring]
  obtain L1 L where L: "PutBatch os_ok no_ring 1 [([97], [1])] L0 = (Inr (), L)" "engine_ok L1" "engine_ok L"
      "l_memtable L1 = replay_into (put_entries 1 [([97], [1])]) (l_memtable L0)" "l_levels L1 = l_levels L0"
      "l_nextID L = l_nextID L0 + 1"
      "flushed L1 (contents_of L1) L ((contents_of L1)[0 := contents_of L1 ! 0 @ [mem_entries L1]])"
    by auto
  obtain s where s: "l_levels L = (l_levels L0)[0 := [s]]" "table_at (files_of L) s (mem_entries L1)" "l_memtable L = mt_New"
    using L(7) \<open>l_levels L0 ! 0 = []\<close> unfolding flushed_def in_level0_def L(5) by auto
  have "flush_fits no_ring (snd (put_step os_ok no_ring 1 [([97], [1])] L0))"
    by (rule flush_fits_empty [OF new(1) size small_put clock \<open>l_levels L0 ! 0 = []\<close>]) (simp add: L0(2))
  then have "kv_step no_ring (L0, Map.empty) (L, [[97] \<mapsto> [1]])"
    using kv_step.put [OF _ small_put _ size _ L(1), of Map.empty] new(2) by (simp add: newer_def)
  moreover have "engine_step no_ring (L0, {}) (L, {one_put})"
    using engine_step.put [OF small_put _ size L(1), of "{}"] clock_one by (simp add: one_put_def)
  moreover have "mem_entries L1 = [one_put]"
    by (simp add: mem_entries_def L(4) new(3) replay_into_def mt_Put_store mt_store_def mt_New_def mt_Entries_def one_put_def)
  then have "cont s = [one_put]" using table_at_cont [OF s(2)] by simp
  moreover have "l_levels L0 = replicate 7 []" using empty len by (metis replicate_eqI)
  then have "l_levels L = [[s], [], [], [], [], [], []]" using s(1) by (simp add: numeral_eq_Suc)
  ultimately show ?thesis using o L(6) n s(3) by (intro exI [of _ L0] exI [of _ L] exI [of _ s]) simp
qed

text \<open>
  A ring of four entries and a kernel that completes every request at once,
  writing the queued bytes at their offsets.
\<close>

definition sample_params :: ring_params where
  "sample_params = \<lparr>p_sqEntries = 4, p_cqEntries = 8, p_sqMask = 3, p_cqMask = 7\<rparr>"

definition run_sqe :: "byte list \<Rightarrow> sqe \<Rightarrow> byte list" where
  "run_sqe f s =
     (case se_op s of
        OP_WRITE \<Rightarrow> (let pos = unat (se_off s) in take pos f @ se_buf s @ drop (pos + length (se_buf s)) f)
      | _ \<Rightarrow> f)"

definition sample_kernel :: kernel where
  "sample_kernel =
     \<lparr>k_setup = Some sample_params,
      k_enter = (\<lambda>n m r f. Done (r\<lparr>r_sqHead := r_sqTail r, r_cqTail := r_cqTail r + (r_sqTail r - r_sqHead r)\<rparr>)
                              (foldl run_sqe f (r_sqes r)))\<rparr>"

definition sample_ring :: iouring where
  "sample_ring =
     \<lparr>r_sqes = [zero_sqe, zero_sqe, zero_sqe, zero_sqe],
      r_cqes = [zero_cqe, zero_cqe, zero_cqe, zero_cqe, zero_cqe, zero_cqe, zero_cqe, zero_cqe],
      r_sqHead = 0, r_sqTail = 0, r_sqMask = 3, r_sqEntries = 4, r_cqHead = 0, r_cqTail = 0, r_cqMask = 7,
      r_offset = 0, r_sqLocalTail = 0, r_writeBufs = replicate iouringDepth None, r_wbHead = 0, r_wbTail = 0\<rparr>"

lemma few_copies: "replicate 4 x = [x, x, x, x]" "replicate 8 x = [x, x, x, x, x, x, x, x]"
  by (simp_all add: numeral_eq_Suc)

lemma sample_ring_facts: "newIORing sample_kernel = Inr sample_ring" "ring_wf sample_ring" "ring_room sample_ring"
  by (simp_all add: newIORing_def sample_kernel_def sample_params_def sample_ring_def ring_wf_def ring_room_def
    few_copies)

definition queued_ring :: iouring where
  "queued_ring = sample_ring\<lparr>r_sqes := [\<lparr>se_op = OP_WRITE, se_off = 0, se_buf = [7], se_len = 1, se_user = 1\<rparr>,
        \<lparr>se_op = OP_FSYNC, se_off = 0, se_buf = [], se_len = 0, se_user = 0x80000001\<rparr>, zero_sqe, zero_sqe],
     r_sqTail := 2, r_sqLocalTail := 2, r_offset := 1,
     r_writeBufs := (replicate iouringDepth None)[0 := Some [7]], r_wbTail := 1\<rparr>"

lemma sample_push: "ring_push sample_ring [7] = Inr queued_ring"
  by (simp add: ring_push_def sample_ring_def queued_ring_def Let_def)

lemma sample_flush:
  "\<exists>r' f'. ring_flush sample_kernel queued_ring f = Some ((r', f'), None) \<and> r_sqHead r' = r_sqTail r'"
proof -
  let ?r = "queued_ring\<lparr>r_sqHead := 2, r_cqTail := 2\<rparr>"
  obtain r' where "reap sample_kernel 2 ?r (foldl run_sqe f (r_sqes queued_ring)) = Some ((r', foldl run_sqe f (r_sqes queued_ring)), None)"
      "r_sqHead r' = 2" "r_sqTail r' = 2"
    using reap_done [of 2 ?r sample_kernel "foldl run_sqe f (r_sqes queued_ring)"]
    by (auto simp: queued_ring_def sample_ring_def zero_cqe_def)
  then show ?thesis by (auto simp: ring_flush_def sample_kernel_def queued_ring_def sample_ring_def)
qed

text \<open>A version with a value, and tables of one.\<close>

definition ver :: "gostr \<Rightarrow> gostr \<Rightarrow> i64 \<Rightarrow> entry" where
  "ver k v t = \<lparr>e_key = k, e_val = v, e_ts = t, e_tomb = False\<rparr>"

lemma good_single: "entry_small e \<Longrightarrow> good_table [e]"
  using chunk_size_single [of e] by (intro good_table_small) simp_all

lemma good_ver: "length k \<le> 512 \<Longrightarrow> length v \<le> 65536 \<Longrightarrow> good_table [ver k v t]"
  by (rule good_single) (simp add: entry_small_def ver_def)

text \<open>An engine whose tables are given, level by level.\<close>

lemma engine_at:
  assumes "set c \<subseteq> {[]}" "2 \<le> length c" "length c < 100" "0 < thr" "thr \<le> 4 * 2 ^ 20"
    and "\<forall>(i, es)\<in>set ts. i < length c \<and> good_table es"
  shows "\<exists>L. engine_ok L \<and> contents_of L = add_tables ts c \<and> l_memtable L = mt_New
     \<and> l_numLevels L = length c \<and> l_maxL0Files L = 8 \<and> l_baseLevelSize L = 2 ^ 20 \<and> l_flushThreshold L = thr"
proof -
  have "c = replicate (length c) []" using assms(1) by (induction c) auto
  then show ?thesis using engine_exists [of "length c" thr ts] assms(2-) by simp
qed

section \<open>Properties\<close>

text \<open>
  C1: in every state that an engine opened on an empty directory reaches by
  writes, deletes, reads and rounds of the compaction loop, everything stored
  has been written, and for every version written of a non-empty key the engine
  still holds a version of that key which is at least as new; with more than
  six levels that version may be a tombstone that was dropped.
\<close>

theorem no_write_lost:
  assumes "opened_with kn now opts L0" "(engine_step kn)\<^sup>*\<^sup>* (L0, {}) (L, W)" "e \<in> W" "e_key e \<noteq> []"
  shows "all_set L \<subseteq> W \<and> (\<exists>e'\<in>W. e_key e' = e_key e \<and> sint (e_ts e) \<le> sint (e_ts e')
     \<and> (e' \<in> all_set L \<or> 7 \<le> l_numLevels L \<and> e_tomb e'))"
  using run_inv(3) [OF assms(1,2)] assms(3,4) by (auto simp: outlives_def)

theorem no_write_lost_witness:
  "\<exists>L. (engine_step no_ring)\<^sup>*\<^sup>* (new_engine, {}) (L, {one_put}) \<and> one_put \<in> all_set L"
proof -
  obtain L where L: "(engine_step no_ring)\<^sup>*\<^sup>* (new_engine, {}) (L, {one_put})" using new_engine_put by blast
  from no_write_lost [OF new_engine_opened this, of one_put] show ?thesis
    using L by (auto simp: one_put_def)
qed

text \<open>
  C2: the engine refines a map from keys to values, under conditions on the run.
  Take a run of batches, deletes, reads and compaction rounds from an empty
  directory, with at most seven levels and the bounds on sizes of the header,
  where every write's time is ahead of all that is stored, no flush brings a key
  into a level 0 that already holds it, and every compaction of level 0, in the
  background or inside a flush, misses no overlap.  Then a read of a non-empty key,
  one that the trailer of no table scans as (\<open>clean_for\<close>),
  returns what the same run leaves in the map.
\<close>

theorem engine_refines_map:
  assumes "opened_with kn now opts L0" "l_numLevels L0 \<le> 7" "(kv_step kn)\<^sup>*\<^sup>* (L0, Map.empty) (L, M)"
    and "k \<noteq> []" "clean_for L k"
  shows "fst (lsm_Get k L) = Inr (M k)"
proof (rule kv.run_get [OF _ assms(3)])
  show "refines L0 Map.empty"
    by (rule refines_empty [OF opened_facts(1) [OF assms(1)] assms(2) opened_facts(2) [OF assms(1)]])
qed (use assms(4,5) in simp)

theorem engine_refines_map_witness:
  "\<exists>L0 L L'. opened_with no_ring 0 eager_opts L0 \<and> kv_step no_ring (L0, Map.empty) (L, [[97] \<mapsto> [1]])
     \<and> l_memtable L = mt_New \<and> lsm_Delete os_ok no_ring 5 [97] L = (Inr (), L')
     \<and> fst (lsm_Get [97] L) = Inr (Some [1]) \<and> fst (lsm_Get [97] L') = Inr None"
proof -
  obtain L0 L s where L: "opened_with no_ring 0 eager_opts L0" "(engine_step no_ring)\<^sup>*\<^sup>* (L0, {}) (L, {one_put})"
      "l_memtable L = mt_New" "concat (l_levels L) = [s]" "cont s = [one_put]" "l_numLevels L0 = 7"
      "kv_step no_ring (L0, Map.empty) (L, [[97] \<mapsto> [1]])"
    using eager_put by blast
  have ok: "engine_ok L" "all_set L \<subseteq> {one_put}"
    using run_inv(1,3) [OF L(1,2)] by (auto simp: outlives_def)
  then have clock: "newer 5 1 L" by (auto simp: newer_def one_put_def)
  obtain L' where L': "lsm_Delete os_ok no_ring 5 [97] L = (Inr (), L')" "l_levels L' = l_levels L" "engine_ok L'"
    using Delete_ok [OF ok(1) _ newer_clock [OF clock], of "[97]" no_ring]
      lsm_Delete_ok [of L "contents_of L" no_ring 5 "[97]"] engine_inv [OF ok(1)] ok(1)
    by (auto simp: engine_ok_def)
  have "kv_step no_ring (L, [[97] \<mapsto> [1]]) (L', [[97] \<mapsto> [1]]([97] := None))"
    using clock L'(1) by (intro kv_step.delete) simp_all
  with L(7) have run: "(kv_step no_ring)\<^sup>*\<^sup>* (L0, Map.empty) (L', [[97] \<mapsto> [1]]([97] := None))" by simp
  have "concat (contents_of L) = [[one_put]]"
    using L(4,5) by (simp add: contents_of_def map_concat [symmetric])
  then have "clean_for L [97]" "clean_for L' [97]"
    using clean_contents [OF ok(1)] clean_contents [OF L'(3)] L'(2) by (simp_all add: contents_of_def one_put_def)
  with engine_refines_map [OF L(1) _ _ _ , of L "[[97] \<mapsto> [1]]" "[97]"] engine_refines_map [OF L(1) _ run, of "[97]"] L L'(1)
  show ?thesis by auto
qed

text \<open>
  C3: in every reachable state, whatever was flushed and compacted, a read
  answers with a value that was written for the key, or says that the key is
  missing; the latter only if the key is empty, was never written or has been
  deleted.
\<close>

theorem reads_sound:
  assumes "opened_with kn now opts L0" "(engine_step kn)\<^sup>*\<^sup>* (L0, {}) (L, W)" "clean_for L k"
  shows "(\<exists>e\<in>W. e_key e = k \<and> \<not> e_tomb e \<and> fst (lsm_Get k L) = Inr (Some (e_val e)))
     \<or> fst (lsm_Get k L) = Inr None \<and> (k = [] \<or> (\<forall>e\<in>W. e_key e \<noteq> k) \<or> (\<exists>e\<in>W. e_key e = k \<and> e_tomb e))"
  using engine_reads_sound [OF engine_run_inv [OF assms(2) opened_inv [OF assms(1)]] assms(3)]
  by (simp add: read_sound_def)

theorem reads_sound_witness:
  "\<exists>L. PutBatch os_ok no_ring 1 [([97], [1])] new_engine = (Inr (), L)
     \<and> fst (lsm_Get [97] L) = Inr (Some [1]) \<and> fst (lsm_Get [98] L) = Inr None"
proof -
  obtain L where L: "(engine_step no_ring)\<^sup>*\<^sup>* (new_engine, {}) (L, {one_put})" "l_levels L = l_levels new_engine"
      "PutBatch os_ok no_ring 1 [([97], [1])] new_engine = (Inr (), L)"
    using new_engine_put by blast
  from reads_sound [OF new_engine_opened L(1) new_engine_clean [OF L(2)], of "[97]"]
    reads_sound [OF new_engine_opened L(1) new_engine_clean [OF L(2)], of "[98]"] L(3)
  show ?thesis by (auto simp: one_put_def)
qed

text \<open>
  C4: in every reachable state whose memtable is at most the threshold of 4 MiB,
  a small batch, a delete and a round of the compaction loop return without an
  error, whatever flush, compaction or cascade they run on the way.
\<close>

theorem engine_progress:
  assumes "opened_with kn now opts L0" "(engine_step kn)\<^sup>*\<^sup>* (L0, {}) (L, W)" "at_most (4 * 2 ^ 20) L"
    and "small_batch kvs" "clock_ok t (length kvs) W" "length key \<le> 512" "clock_ok t 1 W"
  shows "(\<exists>L'. PutBatch os_ok kn t kvs L = (Inr (), L')) \<and> (\<exists>L'. lsm_Delete os_ok kn t key L = (Inr (), L'))
     \<and> (\<exists>L'. compaction_tick os_ok L = (Inr (), L'))"
proof -
  note ok = run_inv(1,3) [OF assms(1,2)]
  have "all_set L \<subseteq> W" using ok(2) by (simp add: outlives_def)
  then have clock: "clock_ok t (length kvs) (all_set L)" "clock_ok t 1 (all_set L)"
    using assms(5,7) clock_ok_mono by blast+
  have "\<exists>L'. PutBatch os_ok kn t kvs L = (Inr (), L')"
  proof (cases "kvs = []")
    case True then show ?thesis by (simp add: PutBatch_def)
  next
    case False
    then show ?thesis using PutBatch_ok [OF ok(1) assms(3) False assms(4) clock(1)] by blast
  qed
  then show ?thesis
    using Delete_ok [OF ok(1) assms(6) clock(2), of kn] engine_tick [OF ok(1)] by blast
qed

theorem engine_progress_witness:
  "(\<exists>L'. PutBatch os_ok no_ring 1 [([97], [1])] new_engine = (Inr (), L'))
     \<and> (\<exists>L'. compaction_tick os_ok new_engine = (Inr (), L'))"
  using engine_progress [OF new_engine_opened rtranclp.rtrancl_refl _ small_put, of 1 "[]"] clock_one new_engine_size
  by simp

text \<open>
  C5: a read of an engine returns the memtable's version of the key, and if it
  has none the first version in the tables' order, level by level and within a
  level in the order the tables are listed; a tombstone and a missing key give
  the same answer, and nothing but the two counters changes.
\<close>

theorem get_first_version:
  assumes "engine_ok L" "clean_for L k"
  shows "\<exists>L'. lsm_Get k L = (Inr (case mt_Get (l_memtable L) k of
       Some e \<Rightarrow> answer e
     | None \<Rightarrow> (case find (\<lambda>e. e_key e = k) (concat (concat (contents_of L))) of
                  Some e \<Rightarrow> answer e | None \<Rightarrow> None)), L') \<and> same_but_stats L L'"
proof -
  have "visible (look L (contents_of L) k) = (case mt_Get (l_memtable L) k of
       Some e \<Rightarrow> answer e
     | None \<Rightarrow> (case find (\<lambda>e. e_key e = k) (concat (concat (contents_of L))) of
                  Some e \<Rightarrow> answer e | None \<Rightarrow> None))"
    by (simp add: visible_def look_def newest_def stored_entries_def split: option.splits)
  with lsm_Get_look [OF conjunct1 [OF engine_inv [OF assms(1)]] assms(2)] show ?thesis by simp
qed

theorem get_first_version_witness: "\<exists>L'. lsm_Get [97] new_engine = (Inr None, L')"
proof -
  note new = opened_facts [OF new_engine_opened]
  have l: "concat (contents_of new_engine) = []" using new(7) by (metis concat_replicate_trivial)
  from get_first_version [OF new(1) new_engine_clean [OF refl]] show ?thesis using new(3) l by auto
qed

text \<open>
  C6: when the process stops in a reachable state of an engine with a log and
  the directory is opened again with the same options, every key has the answer
  it had before, from the recovered memtable and the tables of the manifest.
\<close>

theorem crash_keeps_answers:
  assumes "opened_with kn now opts L0" "\<not> op_NoWAL opts" "(engine_step kn)\<^sup>*\<^sup>* (L0, {}) (L, W)"
    and "l_nextID L \<le> sint now'"
  shows "\<exists>L'. lsm_Open os_ok kn now' opts (disk_image L) = (Inr L', disk_image L') \<and> engine_ok L'
     \<and> l_levels L' = l_levels L \<and> (\<forall>x. look L' (contents_of L') x = look L (contents_of L) x)"
  using reopen_logged [OF run_inv(1) [OF assms(1,3)] run_inv(4) [OF assms(1,3,2)] run_recovery_opts [OF assms(1,3,2)] assms(4)]
  by blast

theorem crash_keeps_answers_witness:
  "\<exists>L L'. PutBatch os_ok no_ring 1 [([97], [1])] new_engine = (Inr (), L)
     \<and> lsm_Open os_ok no_ring 2 default_opts (disk_image L) = (Inr L', disk_image L')
     \<and> look L' (contents_of L') [97] = Some one_put"
proof -
  obtain L where L: "(engine_step no_ring)\<^sup>*\<^sup>* (new_engine, {}) (L, {one_put})"
      "PutBatch os_ok no_ring 1 [([97], [1])] new_engine = (Inr (), L)"
      "mt_Get (l_memtable L) [97] = Some one_put" "l_nextID L = 0"
    using new_engine_put by blast
  have "look L (contents_of L) [97] = Some one_put" using L(3) by (simp add: look_def)
  then show ?thesis
    using crash_keeps_answers [OF new_engine_opened _ L(1), of 2] L(2,4) by (auto simp: default_opts_def)
qed

text \<open>
  C7: with \<open>SyncAlways\<close> the writes that were acknowledged survive a loss of power
  between two operations; C20 and C21 show what is lost inside a flush or a
  compaction.  Whether the log comes back as last synchronised or in a state that
  a reset has put it in since, the directory opens again, with the same tables,
  and holds only versions that were written.  For every version written of a
  non-empty key it holds one of that key which is at least as new, or, with seven
  levels or more, the default, such a version was a tombstone that a compaction
  has dropped.  A read answers with a value written for the key, or with missing
  only if the key is empty, was never written or has been deleted.
\<close>

theorem power_loss_keeps_writes:
  assumes "opened_with kn now opts L0" "\<not> op_NoWAL opts" "op_WALSyncMode opts = SyncAlways"
    and "(engine_step kn)\<^sup>*\<^sup>* (L0, {}) (L, W)" "l_wal L = Some w" "f \<in> log_left w"
    and "l_nextID L \<le> sint now'"
  shows "\<exists>L'. lsm_Open os_ok kn now' opts (after_power_loss f L) = (Inr L', disk_image L') \<and> engine_ok L'
     \<and> l_levels L' = l_levels L \<and> all_set L' \<subseteq> W
     \<and> (\<forall>e\<in>W. e_key e \<noteq> [] \<longrightarrow> (\<exists>e'\<in>W. e_key e' = e_key e \<and> sint (e_ts e) \<le> sint (e_ts e')
          \<and> (e' \<in> all_set L' \<or> 7 \<le> l_numLevels L0 \<and> e_tomb e')))
     \<and> (\<forall>k. clean_for L' k \<longrightarrow> read_sound W k (fst (lsm_Get k L')))"
proof -
  have inv: "power_inv (l_numLevels L0) (L, W)" by (rule power_run [OF assms(4) opened_power [OF assms(1-3)]])
  have opts: "recovery_opts opts (l_numLevels L0)"
    using run_recovery_opts [OF assms(1,4,2)] run_inv(2) [OF assms(1,4)] by simp
  obtain L' where L': "lsm_Open os_ok kn now' opts (after_power_loss f L) = (Inr L', disk_image L')"
      "l_levels L' = l_levels L" "engine_inv_for (l_numLevels L0) False (L', W)"
    using power_recovers [OF inv assms(5,6) opts assms(7), of kn] by blast
  with engine_reads_sound [OF L'(3)] show ?thesis by (intro exI [of _ L']) (simp add: engine_inv_for_def outlives_def)
qed

theorem power_loss_keeps_writes_witness:
  "\<exists>L w L'. PutBatch os_ok no_ring 1 [([97], [1])] new_engine = (Inr (), L) \<and> l_wal L = Some w \<and> wa_synced w \<in> log_left w
     \<and> lsm_Open os_ok no_ring 2 default_opts (after_power_loss (wa_synced w) L) = (Inr L', disk_image L')
     \<and> fst (lsm_Get [97] L') = Inr (Some [1])"
proof -
  obtain L where L: "(engine_step no_ring)\<^sup>*\<^sup>* (new_engine, {}) (L, {one_put})"
      "PutBatch os_ok no_ring 1 [([97], [1])] new_engine = (Inr (), L)" "l_nextID L = 0" "l_levels L = l_levels new_engine"
    using new_engine_put by blast
  obtain w where w: "l_wal L = Some w"
    using run_inv(4) [OF new_engine_opened L(1)] by (auto simp: default_opts_def logged_def)
  have left: "wa_synced w \<in> log_left w" by (simp add: log_left_def)
  from power_loss_keeps_writes [OF new_engine_opened _ _ L(1) w left, of 2] L(3,4) obtain L' where
    L': "lsm_Open os_ok no_ring 2 default_opts (after_power_loss (wa_synced w) L) = (Inr L', disk_image L')"
      "l_levels L' = l_levels new_engine" "\<forall>k. clean_for L' k \<longrightarrow> read_sound {one_put} k (fst (lsm_Get k L'))"
    by (auto simp: default_opts_def)
  have "fst (lsm_Get [97] L') = Inr (Some [1])"
    using L'(3) new_engine_clean [OF L'(2)] by (auto simp: read_sound_def one_put_def)
  with L(2) w left L'(1) show ?thesis by blast
qed

text \<open>
  C8: any number of clients may call the engine at the same time, beside the
  background loop and a call of Close.  In every state of every interleaving a
  writer is alone, the loop has the lock exactly when it compacts and Close
  exactly when it closes, which it does only after the loop has returned.  Until
  then the engine is consistent and holds only versions that were written, and
  for every version written of a non-empty key it holds one of that key which is
  at least as new, or, with seven levels or more, the default, such a version was
  a tombstone that a compaction has dropped.  A read answers with a value written
  for the key, or with missing only if the key is empty, was never written or has
  been deleted.
\<close>

theorem concurrent_engine_safe:
  assumes "opened_with kn now opts L0" "(conc_step kn)\<^sup>*\<^sup>* (conc_init L0) s"
  shows "(cc_writer s \<noteq> None \<longrightarrow> cc_readers s = 0)
     \<and> (cc_writer s = Some Loop \<longleftrightarrow> cc_loop s = Compacting) \<and> (cc_writer s = Some Closer \<longleftrightarrow> cc_close s = Closing)
     \<and> (cc_close s \<in> {AwaitLock, Closing, Returned} \<longrightarrow> cc_loop s = Stopped)
     \<and> (cc_close s \<notin> {Closing, Returned} \<longrightarrow>
          engine_ok (cc_eng s) \<and> all_set (cc_eng s) \<subseteq> cc_written s
          \<and> (\<forall>e\<in>cc_written s. e_key e \<noteq> [] \<longrightarrow> (\<exists>e'\<in>cc_written s. e_key e' = e_key e
               \<and> sint (e_ts e) \<le> sint (e_ts e') \<and> (e' \<in> all_set (cc_eng s) \<or> 7 \<le> l_numLevels L0 \<and> e_tomb e')))
          \<and> (\<forall>k. clean_for (cc_eng s) k \<longrightarrow> read_sound (cc_written s) k (fst (lsm_Get k (cc_eng s)))))"
proof -
  have inv: "conc_inv (l_numLevels L0) (\<not> op_NoWAL opts) s"
    by (rule conc_inv_run [OF assms(2) conc_inv_init [OF opened_inv [OF assms(1)]]])
  have "read_sound (cc_written s) k (fst (lsm_Get k (cc_eng s)))"
    if "cc_close s \<notin> {Closing, Returned}" "clean_for (cc_eng s) k" for k
    by (rule engine_reads_sound [OF _ that(2)]) (use inv that(1) in \<open>auto simp: conc_inv_def\<close>)
  then show ?thesis using inv by (simp add: conc_inv_def lock_inv_def engine_inv_for_def outlives_def)
qed

theorem concurrent_engine_safe_witness:
  "\<exists>s. (conc_step no_ring)\<^sup>*\<^sup>* (conc_init new_engine) s \<and> cc_writer s = Some Client \<and> cc_close s = AwaitLoop
     \<and> engine_ok (cc_eng s) \<and> one_put \<in> all_set (cc_eng s)"
proof -
  obtain L where L: "PutBatch os_ok no_ring 1 [([97], [1])] new_engine = (Inr (), L)" using new_engine_put by blast
  define s1 where "s1 = (conc_init new_engine)\<lparr>cc_eng := L, cc_written := {one_put}, cc_writer := Some Client\<rparr>"
  define s2 where "s2 = s1\<lparr>cc_eng := (cc_eng s1)\<lparr>l_closed := True\<rparr>, cc_cancelled := True, cc_close := AwaitLoop\<rparr>"
  have "call_step no_ring (conc_init new_engine) s1"
    using call_step.put [of "conc_init new_engine" "[([97], [1])]" 1 no_ring "Inr ()" L] small_put clock_one L new_engine_size
    by (simp add: conc_init_def lock_free_def s1_def one_put_def)
  moreover have "go_step no_ring s1 s2" unfolding s2_def by (rule go_step.cancel) (simp add: s1_def conc_init_def)
  ultimately have run: "(conc_step no_ring)\<^sup>*\<^sup>* (conc_init new_engine) s2"
    by (metis conc_step_def r_into_rtranclp rtranclp.rtrancl_into_rtrancl)
  have s2: "cc_writer s2 = Some Client" "cc_close s2 = AwaitLoop" "cc_written s2 = {one_put}"
    by (simp_all add: s2_def s1_def conc_init_def)
  then have "engine_ok (cc_eng s2)" "one_put \<in> all_set (cc_eng s2)"
    using concurrent_engine_safe [OF new_engine_opened run] by (auto simp: one_put_def)
  then show ?thesis using run s2 by blast
qed

text \<open>
  C9: in every reachable state, as long as no client calls any more, every
  schedule of the unlocking, the background loop and Close is finite, with a
  bound that the state gives; and one that cannot go on has brought Close to its
  end, with the loop returned and the lock free.  There is no deadlock, and no
  schedule must be fair.
\<close>

theorem close_returns:
  assumes "opened_with kn now opts L0" "(conc_step kn)\<^sup>*\<^sup>* (conc_init L0) s"
  shows "(\<exists>k s'. (go_step kn ^^ k) s s' \<and> (\<nexists>s''. go_step kn s' s''))
     \<and> (\<forall>k s'. (go_step kn ^^ k) s s' \<longrightarrow> k \<le> work_left s
          \<and> ((\<nexists>s''. go_step kn s' s'') \<longrightarrow> cc_close s' = Returned \<and> cc_loop s' = Stopped \<and> lock_free s'))"
proof -
  have inv: "lock_inv s"
    using conc_inv_run [OF assms(2) conc_inv_init [OF opened_inv [OF assms(1)]]] by (simp add: conc_inv_def)
  have "k \<le> work_left s" if "(go_step kn ^^ k) s s'" for k s' using go_bounded [OF that inv] by simp
  then show ?thesis using go_run_ends [OF inv, of kn] go_maximal [OF _ inv, of _ kn] by blast
qed

theorem close_returns_witness:
  "\<exists>k s. (go_step no_ring ^^ k) (conc_init new_engine) s \<and> cc_close s = Returned \<and> lock_free s"
  using close_returns [OF new_engine_opened rtranclp.rtrancl_refl] by metis

text \<open>
  C10: when the tables list the versions of a non-empty key from the newest to
  the oldest and there are at most seven levels, merging a level into the next,
  with every level the compaction cascades into, returns without an error and
  leaves the answer of the key and the order of its versions as they were.
\<close>

theorem compact_level_keeps_answer:
  assumes "engine_ok L" "l_numLevels L \<le> 7" "k \<noteq> []" "newest_first (stored_entries (contents_of L)) k"
  shows "\<exists>L'. compactLevel os_ok (l_numLevels L) level L = (Inr (), L')
     \<and> visible (look L' (contents_of L') k) = visible (look L (contents_of L) k)
     \<and> newest_first (stored_entries (contents_of L')) k
     \<and> (clean_for L k \<longrightarrow> clean_for L' k \<longrightarrow> fst (lsm_Get k L') = fst (lsm_Get k L))"
proof -
  have st: "store_ok L" using assms(1) by (simp add: engine_ok_def)
  obtain L' where L': "compactLevel os_ok (l_numLevels L) level L = (Inr (), L')" "compacts L L'"
    using compactLevel_ok [OF st] by blast
  note same = compactLevel_look [OF st assms(2-4) L'(1)]
  have inv: "lsm_inv L (contents_of L)" "lsm_inv L' (contents_of L')"
    using st L'(2) by (simp_all add: compacts_def store_ok_def)
  have "fst (lsm_Get k L') = fst (lsm_Get k L)" if "clean_for L k" "clean_for L' k"
    using lsm_Get_look [OF inv(1) that(1)] lsm_Get_look [OF inv(2) that(2)] same(1) by auto
  with L'(1) same show ?thesis by blast
qed

theorem compact_level_keeps_answer_witness:
  "\<exists>L L'. contents_of L = [[], [[ver [97] [2] 9]], [[ver [97] [1] 5]]]
     \<and> compactLevel os_ok 3 1 L = (Inr (), L') \<and> visible (look L' (contents_of L') [97]) = Some [2]"
proof -
  obtain L where L: "engine_ok L" and c: "contents_of L = [[], [[ver [97] [2] 9]], [[ver [97] [1] 5]]]"
      and L': "l_memtable L = mt_New" "l_numLevels L = 3"
    using engine_at [of "[[], [], []]" "4 * 2 ^ 20" "[(1, [ver [97] [2] 9]), (2, [ver [97] [1] 5])]"]
    by (auto simp: good_ver)
  have "newest_first (stored_entries (contents_of L)) [97]"
    by (simp add: c newest_first_def versions_of_def stored_entries_def ver_def)
  from compact_level_keeps_answer [OF L _ _ this, of 1] show ?thesis
    using L' c by (auto simp: look_def visible_def newest_def stored_entries_def ver_def answer_def)
qed

text \<open>
  C11: compacting level 0 moves the inputs it chooses, the first tables in the
  order of their names with the tables of level 1 whose reported key range meets
  theirs, into the sorted merge of their versions, of which the newest of each
  non-empty key is kept and cut into chunks behind the other tables of level 1.
\<close>

theorem level0_compaction_result:
  assumes "engine_ok L" "l_levels L ! 0 \<noteq> []"
  shows "\<exists>L' es. compactL0ToL1 os_ok L = (Inr (), L') \<and> engine_ok L'
     \<and> mset es = mset (concat (map cont (l0_inputs L @ l1_inputs L))) \<and> sorted (map mkey es)
     \<and> contents_of L' = (contents_of L)[0 := map cont (l0_rest L),
          1 := map cont (l1_rest L) @ split_chunks [] (kept 1 [] es)]"
proof -
  have st: "store_ok L" using assms(1) by (simp add: engine_ok_def)
  obtain L' es where L': "compactL0ToL1 os_ok L = (Inr (), L')" "compacts L L'"
      "replaced L 0 1 (l0_inputs L) (l0_rest L) (l1_inputs L) (l1_rest L) es L'"
    using compactL0ToL1_ok [OF st] assms(2) by blast
  have "engine_ok L'"
    using L'(2) assms(1) by (simp add: engine_ok_def compacts_def wal_ready_def mem_entries_def)
  moreover have "contents_of L' = (contents_of L)[0 := map cont (l0_rest L),
      1 := map cont (l1_rest L) @ split_chunks [] (kept 1 [] es)]"
    using L'(3) by (auto simp: replaced_def contents_of_def map_update)
  ultimately show ?thesis using L'(1,3) by (auto simp: replaced_def merge_of_def)
qed

theorem level0_compaction_result_witness:
  "\<exists>L L'. contents_of L = [[[ver [97] [2] 9]], []] \<and> compactL0ToL1 os_ok L = (Inr (), L') \<and> engine_ok L'"
proof -
  obtain L where L: "engine_ok L" and c: "contents_of L = [[[ver [97] [2] 9]], []]"
    using engine_at [of "[[], []]" "4 * 2 ^ 20" "[(0, [ver [97] [2] 9])]"] by (auto simp: good_ver)
  then have "l_levels L ! 0 \<noteq> []" by (auto simp: contents_of_def map_eq_Cons_conv)
  from level0_compaction_result [OF L this] c show ?thesis by blast
qed

text \<open>
  C12: a compaction of tables of small entries writes the files it names, one
  chunk each, and their entries are, in strictly growing order of keys, the
  newest version of every non-empty key of the inputs; when the target level is
  six or deeper there is no tombstone among them, and the keys whose newest
  version is one are all that is missing.
\<close>

theorem DoCompact_newest:
  assumes "list_all2 st_holds ssts ess" "0 \<le> n" "\<forall>e\<in>set (concat ess). entry_small e"
  shows "\<exists>cs st fs'. DoCompact os_ok ssts level n fs = (Inr (out_names level n (length cs), st), fs')
     \<and> (\<forall>i < length cs. written fs' (compact_name level (n + int i)) (cs ! i))
     \<and> (\<forall>q. q \<notin> set (out_names level n (length cs)) \<longrightarrow> map_of fs' q = map_of fs q)
     \<and> sorted_strict (map e_key (concat cs))
     \<and> (\<forall>e. e \<in> set (concat cs) \<longrightarrow> e \<in> set (concat ess) \<and> e_key e \<noteq> [] \<and> (6 \<le> level \<longrightarrow> \<not> e_tomb e)
            \<and> (\<forall>x\<in>set (concat ess). e_key x = e_key e \<longrightarrow> sint (e_ts x) \<le> sint (e_ts e)))
     \<and> (\<forall>x\<in>set (concat ess). e_key x \<noteq> [] \<longrightarrow> (\<exists>y\<in>set (concat ess). e_key y = e_key x \<and> sint (e_ts x) \<le> sint (e_ts y)
            \<and> (y \<in> set (concat cs) \<or> e_tomb y \<and> 6 \<le> level)))"
proof -
  obtain es st fs' where d: "merge_of ess es" "DoCompact os_ok ssts level n fs
        = (Inr (out_names level n (length (split_chunks [] (kept level [] es))), st), fs')"
      "compacted level n (split_chunks [] (kept level [] es)) fs fs'"
    using DoCompact_ok [OF assms(1,2) merge_chunks_fit [OF _ assms(3)], of level fs] by blast
  let ?cs = "split_chunks [] (kept level [] es)"
  have set: "set es = set (concat ess)" using d(1) unfolding merge_of_def by (metis set_mset_mset)
  have keys: "sorted (map e_key es)" using d(1) keys_sorted by (simp add: merge_of_def)
  have cs: "concat ?cs = kept level [] es" by (simp add: concat_split)
  have "\<forall>e. e \<in> set (concat ?cs) \<longrightarrow> e \<in> set (concat ess) \<and> e_key e \<noteq> [] \<and> (6 \<le> level \<longrightarrow> \<not> e_tomb e)
      \<and> (\<forall>x\<in>set (concat ess). e_key x = e_key e \<longrightarrow> sint (e_ts x) \<le> sint (e_ts e))"
  proof (intro allI impI)
    fix e assume "e \<in> set (concat ?cs)"
    then have e: "newest es (e_key e) = Some e" "e \<in> set es" "e_key e \<noteq> []" "6 \<le> level \<longrightarrow> \<not> e_tomb e"
      using kept_subset [of level "[]" es] kept_iff [OF keys, of "[]" e level] unfolding cs by auto
    then show "e \<in> set (concat ess) \<and> e_key e \<noteq> [] \<and> (6 \<le> level \<longrightarrow> \<not> e_tomb e)
        \<and> (\<forall>x\<in>set (concat ess). e_key x = e_key e \<longrightarrow> sint (e_ts x) \<le> sint (e_ts e))"
      using newest_ts [of es "e_key e" e] d(1) unfolding set [symmetric] merge_of_def by blast
  qed
  moreover have "\<forall>x\<in>set (concat ess). e_key x \<noteq> [] \<longrightarrow> (\<exists>y\<in>set (concat ess). e_key y = e_key x
      \<and> sint (e_ts x) \<le> sint (e_ts y) \<and> (y \<in> set (concat ?cs) \<or> e_tomb y \<and> 6 \<le> level))"
    using kept_outlives [OF d(1), of level] unfolding cs outlives_def by blast
  moreover have "sorted_strict (map e_key (concat ?cs))" unfolding cs using kept_sorted [OF keys, of "[]" level] by simp
  ultimately show ?thesis using d(2,3) unfolding compacted_def
    by (intro exI [of _ ?cs] exI [of _ st] exI [of _ fs'] conjI) blast+
qed

theorem DoCompact_newest_witness:
  "\<exists>s t cs st fs'. cont s = [ver [97] [2] 9] \<and> cont t = [ver [97] [1] 5]
     \<and> DoCompact os_ok [s, t] 1 0 [] = (Inr (out_names 1 0 (length cs), st), fs') \<and> ver [97] [2] 9 \<in> set (concat cs)"
proof -
  obtain L where L: "engine_ok L" "contents_of L = [[[ver [97] [2] 9]], [[ver [97] [1] 5]]]"
    using engine_at [of "[[], []]" "4 * 2 ^ 20" "[(0, [ver [97] [2] 9]), (1, [ver [97] [1] 5])]"]
    by (auto simp: good_ver)
  obtain s t where st: "l_levels L = [[s], [t]]" "cont s = [ver [97] [2] 9]" "cont t = [ver [97] [1] 5]"
    using L(2) by (auto simp: contents_of_def map_eq_Cons_conv)
  have "list_all2 st_holds [s, t] [[ver [97] [2] 9], [ver [97] [1] 5]]"
    using engine_tables(2) [OF L(1), of s] engine_tables(2) [OF L(1), of t] st by simp
  from DoCompact_newest [OF this, of 0 1 "[]"] obtain cs u fs' where
    "DoCompact os_ok [s, t] 1 0 [] = (Inr (out_names 1 0 (length cs), u), fs')" "ver [97] [2] 9 \<in> set (concat cs)"
    by (auto simp: entry_small_def ver_def)
  with st show ?thesis by blast
qed

text \<open>
  C13: a flush that does not compact puts the memtable's entries as a new table
  behind the others of level 0, empties the memtable and the log, and neither
  loses nor invents a version of any key.
\<close>

theorem flush_keeps_versions:
  assumes "engine_ok L" "at_most (4 * 2 ^ 20 + 2 ^ 17) L" "mt_Count (l_memtable L) \<noteq> 0"
    and "length (l_levels L ! 0) < l_maxL0Files L * 2"
  shows "\<exists>L'. flushMemtable os_ok kn L = (Inr (), L') \<and> l_memtable L' = mt_New
     \<and> contents_of L' = (contents_of L)[0 := contents_of L ! 0 @ [mem_entries L]]
     \<and> (\<forall>k. versions L' (contents_of L') k = versions L (contents_of L) k)
     \<and> (\<forall>w. l_wal L = Some w \<longrightarrow> (\<exists>w'. l_wal L' = Some w' \<and> wal_Replay w' = Inr []))"
proof -
  have inv: "lsm_inv L (contents_of L)" using engine_inv [OF assms(1)] by simp
  obtain L' where L': "flushMemtable os_ok kn L = (Inr (), L')"
      "flushed L (contents_of L) L' ((contents_of L)[0 := contents_of L ! 0 @ [mem_entries L]])"
    using flush_only [OF assms] by blast
  have f: "l_memtable L' = mt_New" "\<forall>w. l_wal L = Some w \<longrightarrow> (\<exists>w'. l_wal L' = Some w' \<and> wal_holds w' [])"
      "lsm_inv L' ((contents_of L)[0 := contents_of L ! 0 @ [mem_entries L]])"
    using L'(2) unfolding flushed_def in_level0_def by auto
  have "wal_Replay w' = Inr []" if "wal_holds w' []" for w'
    using that wlog.replay_holds [OF that] by simp
  then show ?thesis
    using L'(1) f(1,2) lsm_inv_contents [OF f(3)] flushed_versions [OF inv L'(2)] by metis
qed

theorem flush_keeps_versions_witness:
  "\<exists>L L'. PutBatch os_ok no_ring 1 [([97], [1])] new_engine = (Inr (), L)
     \<and> flushMemtable os_ok no_ring L = (Inr (), L') \<and> versions L' (contents_of L') [97] = versions L (contents_of L) [97]"
proof -
  obtain L where L: "(engine_step no_ring)\<^sup>*\<^sup>* (new_engine, {}) (L, {one_put})"
      "PutBatch os_ok no_ring 1 [([97], [1])] new_engine = (Inr (), L)"
      "mt_Get (l_memtable L) [97] = Some one_put" "l_levels L = l_levels new_engine"
      "at_most (4 * 2 ^ 20) L"
    using new_engine_put by blast
  note ok = run_inv(1) [OF new_engine_opened L(1)]
  have "l_levels L ! 0 = []" using L(4) new_engine_level0 by simp
  moreover have "2 \<le> l_maxL0Files L" using ok by (simp add: engine_ok_def store_ok_def)
  moreover have "mt_Count (l_memtable L) \<noteq> 0" using L(3) by (auto simp: mt_Count_def mt_Get_def)
  moreover have "at_most (4 * 2 ^ 20 + 2 ^ 17) L" using L(5) by (simp add: at_most_def)
  ultimately show ?thesis
    using flush_keeps_versions [OF ok, of no_ring] L(2) by fastforce
qed

text \<open>
  C14: writing the sorted entries of a memtable with the table writer, as the
  flush does, and opening the file again, with and without the checksum, gives
  a table whose full read returns exactly those entries and whose point
  lookups find each of them.
\<close>

theorem table_round_trip:
  assumes "table_fits (int (length es)) es" "sorted_strict (map e_key es)" "\<forall>e\<in>set es. entry_fits e"
  shows "\<exists>w fs1 w1 w2 fs2 s. CreateWriter os_ok p (int (length es)) 128 fs = (Inr w, fs1)
     \<and> append_entries os_ok w es fs1 = (Inr w1, fs1) \<and> w_Close os_ok w1 fs1 = (Inr w2, fs2)
     \<and> st_Open os_ok fs2 p = Inr s \<and> st_OpenNoVerify os_ok fs2 p = Inr s
     \<and> st_AllEntries s = Inr es \<and> (\<forall>e\<in>set es. st_Get s (e_key e) = Inr (Some e))"
proof -
  obtain w fs1 w1 w2 fs2 where w: "CreateWriter os_ok p (int (length es)) 128 fs = (Inr w, fs1)"
      "append_entries os_ok w es fs1 = (Inr w1, fs1)" "w_Close os_ok w1 fs1 = (Inr w2, fs2)" "written fs2 p es"
    using write_table_ok [OF assms, of p fs] by blast
  then obtain bf where "map_of fs2 p = Some (table_file 128 bf es)" "table_ok 128 bf es"
    by (auto simp: written_def)
  then have "st_Open os_ok fs2 p = Inr (opened p 128 bf es)" "st_OpenNoVerify os_ok fs2 p = Inr (opened p 128 bf es)"
      "st_holds (opened p 128 bf es) es"
    by (simp_all add: st_Open_table st_OpenNoVerify_table opened_holds)
  with w show ?thesis by (auto intro: st_AllEntries_holds st_Get_present)
qed

theorem table_round_trip_witness:
  "\<exists>w fs1 w1 w2 fs2 s. CreateWriter os_ok [116] 2 128 [] = (Inr w, fs1)
     \<and> append_entries os_ok w sample fs1 = (Inr w1, fs1) \<and> w_Close os_ok w1 fs1 = (Inr w2, fs2)
     \<and> st_Open os_ok fs2 [116] = Inr s \<and> st_AllEntries s = Inr sample"
  using table_round_trip [OF sample_facts(4,1,3), of "[116]" "[]"] by (auto simp: sample_def)

text \<open>
  C15: a read in a table whose trailer does not scan as the key finds exactly the
  entry the table holds for the key: the filter never hides it and the sparse
  index never starts the scan behind it.
\<close>

theorem table_lookup:
  assumes "st_holds s es" "st_clean s k"
  shows "bindr (st_MayContain s k) (\<lambda>m. if m then st_Get s k else Inr None) = Inr (find (\<lambda>e. e_key e = k) es)"
  by (rule sst.lookup_contents [OF assms])

theorem table_lookup_witness:
  "\<exists>s. cont s = [ver [97] [1] 5]
     \<and> bindr (st_MayContain s [96]) (\<lambda>m. if m then st_Get s [96] else Inr None) = Inr None"
proof -
  obtain L where L: "engine_ok L" "contents_of L = [[[ver [97] [1] 5]], []]"
    using engine_at [of "[[], []]" "4 * 2 ^ 20" "[(0, [ver [97] [1] 5])]"] by (auto simp: good_ver)
  obtain s where s: "l_levels L = [[s], []]" "cont s = [ver [97] [1] 5]"
    using L(2) by (auto simp: contents_of_def map_eq_Cons_conv)
  have holds: "st_holds s [ver [97] [1] 5]" using engine_tables(2) [OF L(1), of s] s by simp
  then have "st_clean s [96]" by (simp add: st_clean_iff ver_def)
  from table_lookup [OF holds this] s(2) show ?thesis by (auto simp: ver_def)
qed

text \<open>
  C16: the entries a memtable hands to the flush are strictly sorted by key,
  are exactly the entries a lookup finds, and its size counter is the sum of
  their costs; all of it holds after any sequence of writes and deletes,
  whatever the key cache held before.
\<close>

theorem memtable_entries:
  assumes "mt_wf m"
  shows "sorted_strict (map e_key (snd (mt_Entries (replay_into es m))))
     \<and> (\<forall>e. e \<in> set (snd (mt_Entries (replay_into es m))) \<longleftrightarrow> mt_Get (replay_into es m) (e_key e) = Some e)
     \<and> mt_Size (replay_into es m) = (\<Sum>e\<leftarrow>snd (mt_Entries (replay_into es m)). cost e)
     \<and> mt_Count (replay_into es m) = length (snd (mt_Entries (replay_into es m)))"
proof -
  have wf: "mt_wf (replay_into es m)" using assms by (rule replay_into_wf)
  have "mt_Size (replay_into es m) = (\<Sum>e\<leftarrow>snd (mt_Entries (replay_into es m)). cost e)"
    using mem_chunk_size [of "(lsm_init 0 default_opts empty_disk)\<lparr>l_memtable := replay_into es m\<rparr>"] wf
    by (simp add: chunk_size_def mem_entries_def)
  moreover have "length (snd (mt_Entries (replay_into es m))) = mt_Count (replay_into es m)"
    using arg_cong [OF mt_Entries_keys [OF wf], of length] by (simp add: mt_Count_def)
  ultimately show ?thesis using wf mt_Entries_sorted mt_Entries_set by auto
qed

theorem memtable_entries_witness:
  "mt_Count (replay_into sample mt_New) = length (snd (mt_Entries (replay_into sample mt_New)))"
  using memtable_entries [OF mt_wf_New, of sample] by simp

text \<open>
  C17: a batch that does not fill the memtable returns without an error, each
  key it writes reads as the last value the batch gives it, and the version
  seen for every other key is the one seen before.
\<close>

theorem read_your_writes:
  assumes "engine_ok L" "kvs \<noteq> []" "mt_Size (l_memtable (puts now kvs L)) < l_flushThreshold L"
  shows "\<exists>L1. PutBatch os_ok kn now kvs L = (Inr (), L1)
     \<and> (\<forall>k. k \<in> fst ` set kvs \<longrightarrow> fst (lsm_Get k L1) = Inr (map_of (rev kvs) k))
     \<and> (\<forall>k. k \<notin> fst ` set kvs \<longrightarrow> look L1 (contents_of L1) k = look L (contents_of L) k)"
proof -
  have inv: "lsm_inv L (contents_of L)" "wal_ready L" using engine_inv [OF assms(1)] assms(1) by (simp_all add: engine_ok_def)
  obtain L1 where L1: "PutBatch os_ok kn now kvs L = (Inr (), L1)" "lsm_inv L1 (contents_of L)"
      "l_memtable L1 = l_memtable (puts now kvs L)"
      "\<forall>x. look L1 (contents_of L) x =
          (case last_write (put_entries now kvs) x of Some e \<Rightarrow> Some e | None \<Rightarrow> look L (contents_of L) x)"
    using PutBatch_no_flush [OF inv assms(2,3), of kn] by blast
  have c: "contents_of L1 = contents_of L" using lsm_inv_contents [OF L1(2)] by simp
  have "fst (lsm_Get k L1) = Inr (map_of (rev kvs) k)" if k: "k \<in> fst ` set kvs" for k
  proof -
    obtain x where x: "last_write (put_entries now kvs) k = Some x" "map_of (rev kvs) k = Some (e_val x)"
      using last_write_batch [of kvs k now] k by (force simp: map_of_eq_None_iff split: option.splits)
    have "\<not> e_tomb x" using last_write_mem [OF x(1)] put_entries_live by blast
    then show ?thesis using x by (simp add: lsm_Get_def L1(3) puts_def replay_into_get stored_def answer_def)
  qed
  moreover have "look L1 (contents_of L1) k = look L (contents_of L) k" if k: "k \<notin> fst ` set kvs" for k
  proof -
    have "map_of (rev kvs) k = None" using k by (simp add: map_of_eq_None_iff)
    then have "last_write (put_entries now kvs) k = None" using last_write_batch [of kvs k now] by simp
    then show ?thesis using L1(4) c by simp
  qed
  ultimately show ?thesis using L1(1) by blast
qed

theorem read_your_writes_witness:
  "\<exists>L1. PutBatch os_ok no_ring 1 [([97], [1])] new_engine = (Inr (), L1) \<and> fst (lsm_Get [97] L1) = Inr (Some [1])"
  using read_your_writes [OF opened_facts(1) [OF new_engine_opened] _ new_engine_room, of no_ring] by auto

text \<open>
  C18: a delete returns without an error, the key reads as missing afterwards,
  whatever the tables hold, and every other key is seen as before.
\<close>

theorem delete_hides:
  assumes "engine_ok L"
  shows "\<exists>L1. lsm_Delete os_ok kn now key L = (Inr (), L1) \<and> fst (lsm_Get key L1) = Inr None
     \<and> (\<forall>x. x \<noteq> key \<longrightarrow> look L1 (contents_of L1) x = look L (contents_of L) x)"
proof -
  have inv: "lsm_inv L (contents_of L)" "wal_ready L" using engine_inv [OF assms(1)] assms(1) by (simp_all add: engine_ok_def)
  obtain L1 where L1: "lsm_Delete os_ok kn now key L = (Inr (), L1)" "lsm_inv L1 (contents_of L)"
      "l_memtable L1 = mt_Delete (l_memtable L) key now"
      "\<forall>x. look L1 (contents_of L) x = (if x = key then Some \<lparr>e_key = key, e_val = [], e_ts = now, e_tomb = True\<rparr>
                               else look L (contents_of L) x)"
    using lsm_Delete_ok [OF inv, of kn now key] by blast
  have "contents_of L1 = contents_of L" using lsm_inv_contents [OF L1(2)] by simp
  moreover have "fst (lsm_Get key L1) = Inr None" by (simp add: lsm_Get_def L1(3) answer_def)
  ultimately show ?thesis using L1(1,4) by auto
qed

theorem delete_hides_witness:
  "\<exists>L L1. contents_of L = [[[ver [97] [1] 5]], []] \<and> lsm_Delete os_ok no_ring 9 [97] L = (Inr (), L1)
     \<and> fst (lsm_Get [97] L1) = Inr None"
proof -
  obtain L where "engine_ok L" "contents_of L = [[[ver [97] [1] 5]], []]"
    using engine_at [of "[[], []]" "4 * 2 ^ 20" "[(0, [ver [97] [1] 5])]"] by (auto simp: good_ver)
  then show ?thesis using delete_hides [of L no_ring 9 "[97]"] by blast
qed

text \<open>
  C19: a put that fills the memtable while level 0 holds an older version of the
  key returns without an error, and the next read of the key answers with the
  older version: the flush lists the new table behind the older ones and a read
  takes the first table that holds the key.
\<close>

theorem flush_serves_old_version:
  assumes "engine_ok L" "at_most (4 * 2 ^ 20) L" "small_batch [(k, v)]" "clock_ok now 1 (all_set L)"
    and "l_flushThreshold L \<le> mt_Size (l_memtable (puts now [(k, v)] L))"
    and "length (l_levels L ! 0) < l_maxL0Files L * 2"
    and "find (\<lambda>e. e_key e = k) (concat (contents_of L ! 0)) = Some x" "clean_for L k"
  shows "\<exists>L1 L2. lsm_Put os_ok kn now k v L = (Inr (), L1) \<and> lsm_Get k L1 = (Inr (answer x), L2)"
  using assms stale_flush [OF assms(1-6)] by (simp add: newest_def)

theorem flush_serves_old_version_witness:
  "\<exists>L L1 L2. contents_of L = [[[ver [97] [1] 5]], []]
     \<and> lsm_Put os_ok no_ring 9 [97] [2] L = (Inr (), L1) \<and> lsm_Get [97] L1 = (Inr (Some [1]), L2)"
proof -
  obtain L where L: "engine_ok L" and c: "contents_of L = [[[ver [97] [1] 5]], []]"
      and L': "l_memtable L = mt_New" "l_maxL0Files L = 8" "l_flushThreshold L = 18"
    using engine_at [of "[[], []]" 18 "[(0, [ver [97] [1] 5])]"] by (auto simp: good_ver)
  have all: "all_set L = {ver [97] [1] 5}"
    using mem_entries_New [OF L'(1)] by (simp add: all_set_def stored_set_eq stored_entries_def c)
  have "map (map cont) (l_levels L) = [[[ver [97] [1] 5]], []]" using c by (simp add: contents_of_def)
  then have "length (l_levels L ! 0) = 1" by (auto simp: map_eq_Cons_conv)
  moreover have "at_most (4 * 2 ^ 20) L" using L'(1) by (simp add: at_most_def mt_Size_def mt_New_def)
  moreover have "l_flushThreshold L \<le> mt_Size (l_memtable (puts 9 [([97], [2])] L))"
    using L' by (simp add: puts_def replay_into_def mt_Put_store mt_store_def mt_New_def mt_Size_def entry_cost_def)
  moreover have "clock_ok 9 1 (all_set L)" by (simp add: clock_ok_def all ver_def)
  moreover have "small_batch [([97], [2])]" by (simp add: small_batch_def put_estimate_def)
  moreover have "clean_for L [97]" by (rule clean_contents [OF L]) (simp add: c ver_def)
  ultimately show ?thesis
    using flush_serves_old_version [OF L, of "[97]" "[2]" 9 "ver [97] [1] 5" no_ring] c L'(2)
    by (auto simp: ver_def answer_def)
qed

text \<open>
  C20: a flush that is cut off by a crash before it writes the manifest loses the
  memtable: the log is empty by then, and the next opening removes the new
  table's file as an orphan, so a key that only the memtable held is gone.
\<close>

theorem flush_crash_loses_memtable:
  assumes "opened_with kn now opts L0" "\<not> op_NoWAL opts" "(engine_step kn)\<^sup>*\<^sup>* (L0, {}) (L, W)"
    and "at_most (4 * 2 ^ 20) L" "l_nextID L \<le> sint now'"
    and "mt_Get (l_memtable L) k \<noteq> None" "k \<notin> e_key ` stored_set L"
  shows "\<exists>L1 L2. flush_head os_ok kn L = (Inr (), L1) \<and> all_set L \<subseteq> stored_set L1
     \<and> lsm_Open os_ok kn now' opts (disk_image L1) = (Inr L2, disk_image L2) \<and> look L2 (contents_of L2) k = None"
proof -
  note ok = run_inv(1) [OF assms(1,3)]
  obtain w where w: "l_wal L = Some w" using run_inv(4) [OF assms(1,3,2)] by (auto simp: logged_def)
  have "at_most (4 * 2 ^ 20 + 2 ^ 17) L" using assms(4) by (simp add: at_most_def)
  from flush_crash [OF ok this w run_recovery_opts [OF assms(1,3,2)] assms(5)] obtain L1 L2 where
    L: "flush_head os_ok kn L = (Inr (), L1)" "stored_set L1 = all_set L"
      "lsm_Open os_ok kn now' opts (disk_image L1) = (Inr L2, disk_image L2)"
      "l_levels L2 = l_levels L" "l_memtable L2 = mt_New" by blast
  then show ?thesis using look_fresh [OF L(5,4) assms(7)] by auto
qed

theorem flush_crash_loses_memtable_witness:
  "\<exists>L L1 L2. PutBatch os_ok no_ring 1 [([97], [1])] new_engine = (Inr (), L) \<and> flush_head os_ok no_ring L = (Inr (), L1)
     \<and> lsm_Open os_ok no_ring 2 default_opts (disk_image L1) = (Inr L2, disk_image L2)
     \<and> look L2 (contents_of L2) [97] = None"
proof -
  obtain L where L: "(engine_step no_ring)\<^sup>*\<^sup>* (new_engine, {}) (L, {one_put})"
      "PutBatch os_ok no_ring 1 [([97], [1])] new_engine = (Inr (), L)"
      "mt_Get (l_memtable L) [97] = Some one_put" "l_nextID L = 0" "l_levels L = l_levels new_engine"
      "at_most (4 * 2 ^ 20) L"
    using new_engine_put by blast
  then show ?thesis
    using flush_crash_loses_memtable [OF new_engine_opened _ L(1), of 2 "[97]"] new_engine_stored [OF L(5)] by (fastforce simp: default_opts_def)
qed

text \<open>
  C21: both compactions remove the files of their inputs before they write the
  manifest that lists their outputs: after a crash in between, an opening drops
  the inputs, which it cannot open, and removes the outputs, which no manifest
  lists, so a key that only the inputs held is gone.
\<close>

theorem compaction_crash_loses_tables:
  assumes "opened_with kn now opts L0" "\<not> op_NoWAL opts" "(engine_step kn)\<^sup>*\<^sup>* (L0, {}) (L, W)" "l_nextID L \<le> sint now'"
    and "l_levels L ! 0 \<noteq> [] \<and> merge = l0_merge os_ok \<and> ins = l0_inputs L @ l1_inputs L
       \<or> level + 1 < l_numLevels L \<and> merge = level_merge os_ok level \<and> ins = l_levels L ! level @ l_levels L ! (level + 1)"
  shows "\<exists>L1 L2. merge L = (Inr (), L1) \<and> lsm_Open os_ok kn now' opts (disk_image L1) = (Inr L2, disk_image L2)
     \<and> l_levels L2 = map (filter (\<lambda>s. s \<notin> set ins)) (l_levels L)
     \<and> (\<forall>k. mt_Get (l_memtable L) k = None \<longrightarrow> (\<forall>s\<in>set (concat (l_levels L)) - set ins. k \<notin> e_key ` set (cont s))
          \<longrightarrow> look L2 (contents_of L2) k = None)"
proof -
  note facts = run_inv(1,4) [OF assms(1,3)] run_recovery_opts [OF assms(1,3,2)]
  obtain L1 L2 where L: "merge L = (Inr (), L1)" "lsm_Open os_ok kn now' opts (disk_image L1) = (Inr L2, disk_image L2)"
      "l_levels L2 = without ins L" "\<forall>x. mt_Get (l_memtable L2) x = mt_Get (l_memtable L) x"
    using assms(5) l0_merge_crash [OF facts(1,2) facts(3) assms(4), of kn]
      level_merge_crash [OF facts(1,2) facts(3) assms(4), of level kn] assms(2) by blast
  then show ?thesis using without_look [OF L(3)] by (auto simp: without_def)
qed

theorem compaction_crash_loses_tables_witness:
  "\<exists>L W L1 L2. one_put \<in> W \<and> one_put \<in> all_set L \<and> l0_merge os_ok L = (Inr (), L1)
     \<and> lsm_Open os_ok no_ring 5 eager_opts (disk_image L1) = (Inr L2, disk_image L2) \<and> look L2 (contents_of L2) [97] = None"
proof -
  obtain L0 L s where L: "opened_with no_ring 0 eager_opts L0" "(engine_step no_ring)\<^sup>*\<^sup>* (L0, {}) (L, {one_put})"
      "l_nextID L = 1" "l_memtable L = mt_New" "l_levels L ! 0 = [s]" "l_levels L ! 1 = []"
      "concat (l_levels L) = [s]" "cont s = [one_put]"
    using eager_put by (elim exE conjE) (rule that)
  have max: "2 \<le> l_maxL0Files L" using run_inv(1) [OF L(1,2)] by (simp add: engine_ok_def store_ok_def)
  have "l0_inputs L @ l1_inputs L = [s]"
    using max by (simp add: l0_inputs_def l1_inputs_def L(5) L(6) [unfolded One_nat_def] l0_count_def)
  moreover have "one_put \<in> all_set L" using L(7,8) by (auto simp: all_set_def stored_set_def)
  ultimately show ?thesis
    using compaction_crash_loses_tables [OF L(1) _ L(2), of 5 "l0_merge os_ok" "[s]"] L(3-)
    by (fastforce simp: eager_opts_def default_opts_def)
qed

text \<open>
  C22: two crashes in a row lose the memtable: the first opening replays the log
  into the memtable and empties the log, so the second finds neither, and a key
  that only the memtable held is gone.
\<close>

theorem second_crash_loses_memtable:
  assumes "opened_with kn now opts L0" "\<not> op_NoWAL opts" "(engine_step kn)\<^sup>*\<^sup>* (L0, {}) (L, W)"
    and "l_nextID L \<le> sint now1" "sint now1 \<le> sint now2"
    and "mt_Get (l_memtable L) k \<noteq> None" "k \<notin> e_key ` stored_set L"
  shows "\<exists>L1 L2. lsm_Open os_ok kn now1 opts (disk_image L) = (Inr L1, disk_image L1)
     \<and> look L1 (contents_of L1) k = look L (contents_of L) k
     \<and> lsm_Open os_ok kn now2 opts (disk_image L1) = (Inr L2, disk_image L2) \<and> look L2 (contents_of L2) k = None"
proof -
  note ok = run_inv(1) [OF assms(1,3)] and log = run_inv(4) [OF assms(1,3,2)] and ro = run_recovery_opts [OF assms(1,3,2)]
  have "mt_wf (l_memtable L)" using engine_inv [OF ok] by simp
  then have "mem_entries L \<noteq> []" using newest_mem [of L k] assms(6) by (auto simp: newest_def)
  from reopen_twice [OF ok log this ro assms(4,5)] obtain L1 L2 where
    L: "lsm_Open os_ok kn now1 opts (disk_image L) = (Inr L1, disk_image L1)"
      "lsm_Open os_ok kn now2 opts (disk_image L1) = (Inr L2, disk_image L2)" "l_memtable L2 = mt_New" "l_levels L2 = l_levels L"
    by blast
  obtain M where M: "lsm_Open os_ok kn now1 opts (disk_image L) = (Inr M, disk_image M)"
      "\<forall>x. look M (contents_of M) x = look L (contents_of L) x"
    using reopen_logged [OF ok log ro assms(4)] by blast
  have "M = L1" using M(1) L(1) by simp
  then have "look L1 (contents_of L1) k = look L (contents_of L) k" using M(2) by simp
  then show ?thesis using L look_fresh [OF L(3,4) assms(7)] by auto
qed

theorem second_crash_loses_memtable_witness:
  "\<exists>L L1 L2. PutBatch os_ok no_ring 1 [([97], [1])] new_engine = (Inr (), L)
     \<and> lsm_Open os_ok no_ring 2 default_opts (disk_image L) = (Inr L1, disk_image L1)
     \<and> lsm_Open os_ok no_ring 3 default_opts (disk_image L1) = (Inr L2, disk_image L2)
     \<and> look L2 (contents_of L2) [97] = None"
proof -
  obtain L where L: "(engine_step no_ring)\<^sup>*\<^sup>* (new_engine, {}) (L, {one_put})"
      "PutBatch os_ok no_ring 1 [([97], [1])] new_engine = (Inr (), L)"
      "mt_Get (l_memtable L) [97] = Some one_put" "l_nextID L = 0" "l_levels L = l_levels new_engine"
    using new_engine_put by blast
  then show ?thesis
    using second_crash_loses_memtable [OF new_engine_opened _ L(1), of 2 3 "[97]"] new_engine_stored [OF L(5)]
    by (fastforce simp: default_opts_def)
qed

text \<open>
  C23: compacting level 0 can bury the newest version: a table's reported
  largest key is the last key of its sparse index, so a table of level 1 that
  holds an older version of the key is not taken into the merge, the merged
  table is listed behind it, and the check for overlapping levels finds nothing.
\<close>

theorem level0_compaction_buries_version:
  assumes "engine_ok L" "contents_of L = [[[y]], [[x, z]]]" "l_memtable L = mt_New"
    and "e_key x < e_key z" "e_key y = e_key z"
  shows "\<exists>L'. compactL0ToL1 os_ok L = (Inr (), L') \<and> fst (lsm_Get (e_key z) L) = Inr (answer y)
     \<and> fst (lsm_Get (e_key z) L') = Inr (answer z) \<and> HasOverlappingLevels L' = Inr False"
proof -
  obtain L' where L': "compactL0ToL1 os_ok L = (Inr (), L')" "engine_ok L'" "contents_of L' = [[], [[x, z], [y]]]"
      "l_memtable L' = mt_New" "HasOverlappingLevels L' = Inr False"
    using l0_merge_overlap [OF assms(1,2,4,5)] assms(3) by auto
  have "\<exists>M. lsm_Get (e_key z) L = (Inr (visible (look L (contents_of L) (e_key z))), M)"
    by (rule engine_Get [OF assms(1)]) (simp add: assms(2,5))
  moreover have "\<exists>M. lsm_Get (e_key z) L' = (Inr (visible (look L' (contents_of L') (e_key z))), M)"
    by (rule engine_Get [OF L'(2)]) (simp add: L'(3) assms(5))
  moreover have "look L (contents_of L) (e_key z) = Some y" "look L' (contents_of L') (e_key z) = Some z"
    using assms(4,5) by (auto simp: look_def assms(2,3) L'(3,4) newest_def stored_entries_def)
  ultimately show ?thesis using L'(1,5) by (auto simp: visible_def)
qed

theorem level0_compaction_buries_version_witness:
  "\<exists>L L'. contents_of L = [[[ver [98] [2] 9]], [[ver [97] [] 4, ver [98] [1] 5]]] \<and> compactL0ToL1 os_ok L = (Inr (), L')
     \<and> fst (lsm_Get [98] L) = Inr (Some [2]) \<and> fst (lsm_Get [98] L') = Inr (Some [1])"
proof -
  have "good_table [ver [97] [] 4, ver [98] [1] 5]"
    by (rule good_table_small) (simp_all add: ver_def entry_small_def chunk_size_def cost_def)
  then obtain L where L: "engine_ok L" "contents_of L = [[[ver [98] [2] 9]], [[ver [97] [] 4, ver [98] [1] 5]]]" "l_memtable L = mt_New"
    using engine_at [of "[[], []]" "4 * 2 ^ 20" "[(0, [ver [98] [2] 9]), (1, [ver [97] [] 4, ver [98] [1] 5])]"] by (auto simp: good_ver)
  from level0_compaction_buries_version [OF L] L(2) show ?thesis by (auto simp: ver_def answer_def)
qed

text \<open>
  C24: in every mode without the ring, batches appended to a new log are
  replayed in order; the replay is the same after the log has been closed and
  opened again, and after a crash that leaves the padded file behind.
\<close>

theorem log_round_trip:
  assumes "map_of fs p = None" "mode \<noteq> SyncIouring" "\<forall>b\<in>set bs. batch_fits b" "bs \<noteq> []"
  shows "\<exists>w fs1 w1 w2. wal_New os_ok k p mode fs = (Inr w, fs1)
     \<and> append_raws os_ok k w (map serializeEntries bs) = (w1, None) \<and> wal_Replay w1 = Inr (concat bs)
     \<and> (\<exists>w3 fs3. wal_New os_ok k p mode [(p, wa_file w1)] = (Inr w3, fs3) \<and> wal_Replay w3 = Inr (concat bs))
     \<and> wal_Close os_ok k w1 = (w2, None)
     \<and> (\<exists>w3 fs3. wal_New os_ok k p mode [(p, wa_file w2)] = (Inr w3, fs3) \<and> wal_Replay w3 = Inr (concat bs))"
proof -
  obtain w fs1 where w: "wal_New os_ok k p mode fs = (Inr w, fs1)" "wal_holds w []"
    using new_log [OF assms(1,2), of k] by blast
  obtain w1 where w1: "append_raws os_ok k w (map serializeEntries bs) = (w1, None)" "wal_holds w1 bs"
    using append_batches [OF w(2) assms(3), of k] by auto
  have at: "wal_at w1 (log_bytes bs)" "wal_up w1" using w1(2) by (simp_all add: wal_holds_def)
  obtain w2 where w2: "wal_Close os_ok k w1 = (w2, None)" "wa_file w2 = walVersion # log_bytes bs"
    using wal_Close_at [OF at, of k] by blast
  obtain n where n: "wa_file w1 = walVersion # log_bytes bs @ replicate n 0" using at(1) by (auto simp: wal_at_def)
  have "replay_loop (log_bytes bs @ replicate n 0) = Inr (concat bs)" "replay_loop (log_bytes bs) = Inr (concat bs)"
    using replay_log [OF assms(3), of "replicate n 0"] replay_log [OF assms(3), of "[]"] by (simp_all add: replay_zeros)
  then have "\<exists>w3 fs3. wal_New os_ok k p mode [(p, wa_file w1)] = (Inr w3, fs3) \<and> wal_Replay w3 = Inr (concat bs)"
      "\<exists>w3 fs3. wal_New os_ok k p mode [(p, wa_file w2)] = (Inr w3, fs3) \<and> wal_Replay w3 = Inr (concat bs)"
    using open_log [of "[(p, wa_file w1)]" p _ _ mode k] open_log [of "[(p, wa_file w2)]" p _ _ mode k] n w2(2) assms(2)
    by simp_all
  then show ?thesis using w(1) w1(1) w2(1) wlog.replay_holds [OF w1(2)] by blast
qed

theorem log_round_trip_witness:
  "\<exists>w fs1 w1. wal_New os_ok no_ring [119] SyncPeriodic [] = (Inr w, fs1)
     \<and> append_raws os_ok no_ring w [serializeEntries sample, serializeEntries [one_put]] = (w1, None)
     \<and> wal_Replay w1 = Inr (sample @ [one_put])"
proof -
  have "\<forall>b\<in>set [sample, [one_put]]. batch_fits b"
    by (simp add: batch_fits_def sample_def one_put_def entry_fits_def)
  from log_round_trip [OF _ _ this, of "[]" "[119]" SyncPeriodic no_ring] show ?thesis by fastforce
qed

text \<open>
  C25: a log file that ends in a cut batch replays to the batches before it,
  wherever the cut falls: the checksum or a short field stops the replay.
\<close>

theorem torn_batch_ignored:
  assumes "\<forall>b\<in>set bs. batch_fits b" "batch_fits b" "m < length (serializeEntries b)" "mode \<noteq> SyncIouring"
    and "map_of fs p = Some (walVersion # log_bytes bs @ take m (serializeEntries b))"
  shows "\<exists>w fs'. wal_New os_ok k p mode fs = (Inr w, fs') \<and> wal_Replay w = Inr (concat bs)"
  by (rule open_log [OF assms(5) log_replays [OF assms(1-3)] assms(4)])

theorem torn_batch_ignored_witness:
  "\<exists>w fs'. wal_New os_ok no_ring [119] SyncAlways
       [([119], walVersion # log_bytes [sample] @ take 3 (serializeEntries [one_put]))] = (Inr w, fs')
     \<and> wal_Replay w = Inr sample"
proof -
  have fit: "\<forall>b\<in>set [sample]. batch_fits b" "batch_fits [one_put]"
    by (simp_all add: batch_fits_def sample_def one_put_def entry_fits_def)
  have "3 < length (serializeEntries [one_put])"
    using put_uvarint_length_pos [of "of_nat (length [one_put])"] unfolding serializeEntries_def by (simp del: put_uvarint_length_pos)
  from torn_batch_ignored [OF fit this, of SyncAlways _ "[119]" no_ring] show ?thesis by simp
qed

text \<open>
  C26: in the asynchronous mode, whatever the interleaving of appends with the
  steps of the writing goroutine and whichever system calls fail, a close that
  reports no error leaves a file whose whole content has been synchronised, if
  anything has been appended.
\<close>

theorem async_close_durable:
  assumes "map_of fs p = None" "wal_New os_ok k p SyncAsync fs = (Inr w0, fs1)"
    and "async_run os k w0 w" "wal_Close os k w = (w', None)" "wa_writeAt w \<noteq> wa_writeAt w0"
  shows "take (wa_writeAt w) (wa_synced w') = wa_file w'"
proof -
  have "wal_holds w0 []" "wa_mode w0 = SyncAsync" using new_log [OF assms(1), of SyncAsync k] assms(2) by auto
  then have "async_ok (wa_writeAt w0) w0"
    by (auto simp: async_ok_def wal_holds_def wal_at_def wal_up_def map_len_def)
  from async_close_synced [OF async_run_ok [OF assms(3) this] assms(4)] assms(5) show ?thesis by blast
qed

theorem async_close_durable_witness:
  "\<exists>w0 fs1 w w'. wal_New os_ok no_ring [119] SyncAsync [] = (Inr w0, fs1)
     \<and> async_run os_ok no_ring w0 w \<and> wal_Close os_ok no_ring w = (w', None) \<and> wa_writeAt w = 2
     \<and> take 2 (wa_synced w') = wa_file w'"
proof -
  obtain w0 fs1 where w0: "wal_New os_ok no_ring [119] SyncAsync [] = (Inr w0, fs1)" "wal_holds w0 []"
    using new_log [of "[]" "[119]" SyncAsync no_ring] by auto
  obtain w where w: "wal_AppendRaw os_ok no_ring w0 [7] = (w, None)" "wal_at w [7]" "wal_up w"
    using wal_AppendRaw_at [of w0 "[]" no_ring "[7]"] w0(2) by (auto simp: wal_holds_def)
  obtain w' where w': "wal_Close os_ok no_ring w = (w', None)" using wal_Close_at [OF w(2,3), of no_ring] by blast
  have run: "async_run os_ok no_ring w0 w" by (rule async_run.append [OF async_run.start w(1)])
  have "wa_writeAt w0 = 1" "wa_writeAt w = 2" using w0(2) w(2) by (simp_all add: wal_holds_def wal_at_def)
  then show ?thesis using async_close_durable [OF _ w0(1) run w'] w0(1) run w' by auto
qed

text \<open>
  C27: in the periodic mode a log synchronises every hundredth append.  After any
  calls of a log that has just been opened, appends and resets, each of which may
  fail, what the log has synchronised is its file as it was after some of the
  calls, or nothing yet.  Of the appends behind those calls at most 99 were
  acknowledged, and 99 more for every call that failed: a failed hundredth
  synchronisation is tried again only a hundred appends later.  When no call has
  failed it is exactly the appends after the last full hundred, and a reset
  between them does not change that count.
\<close>

theorem periodic_loss_window:
  assumes "wal_New os k p SyncPeriodic fs = (Inr w, fs')" "log_calls k cs w = (w', rs)"
  shows "\<exists>xs ys wx rx ry. cs = xs @ ys \<and> rs = rx @ ry \<and> log_calls k xs w = (wx, rx) \<and> log_calls k ys wx = (w', ry)
     \<and> wa_synced w' = (if xs = [] then [] else wa_file wx)
     \<and> acked ys ry \<le> 99 * (failed ry + 1) \<and> (failed rs = 0 \<longrightarrow> acked ys ry = acked cs rs mod 100)"
proof -
  note new = wal_New_fresh [OF assms(1)]
  from periodic_window [OF new(1,2) assms(2)] obtain xs ys wx rx ry where s:
    "wa_pending w' < 100" "failed rs = 0 \<longrightarrow> wa_pending w' = acked cs rs mod 100" "cs = xs @ ys" "rs = rx @ ry"
    "log_calls k xs w = (wx, rx)" "log_calls k ys wx = (w', ry)" "wa_synced w' = (if xs = [] then wa_synced w else wa_file wx)"
    "acked ys ry \<le> 99 * failed ry + wa_pending w'" "failed rs = 0 \<longrightarrow> acked ys ry = wa_pending w'"
    unfolding periodic_inv_def by (elim conjE exE) (rule that)
  show ?thesis
    by (rule exI [of _ xs], rule exI [of _ ys], rule exI [of _ wx], rule exI [of _ rx], rule exI [of _ ry]) (use s in \<open>simp add: new(3)\<close>)
qed

theorem periodic_loss_window_witness:
  "\<exists>w fs w' w1 fs1. wal_New os_ok no_ring [119] SyncPeriodic [] = (Inr w, fs)
     \<and> log_calls no_ring (replicate 150 (os_ok, AppendCall (serializeEntries [one_put]))) w = (w', replicate 150 None)
     \<and> wal_New os_ok no_ring [119] SyncPeriodic [([119], wa_synced w')] = (Inr w1, fs1)
     \<and> wal_Replay w1 = Inr (replicate 100 one_put)"
proof -
  have fits: "\<forall>b\<in>set (replicate n [one_put]). batch_fits b" for n
    by (auto simp: one_put_def batch_fits_def entry_fits_def set_replicate_conv_if)
  obtain w fs where w: "wal_New os_ok no_ring [119] SyncPeriodic [] = (Inr w, fs)" "wal_holds w []"
    using new_log [of "[]" "[119]" SyncPeriodic no_ring] by auto
  let ?c = "(os_ok, AppendCall (serializeEntries [one_put]))"
  have run: "\<exists>v. log_calls no_ring (replicate n ?c) w = (v, replicate n None) \<and> wal_holds v (replicate n [one_put])" for n
  proof -
    obtain v where "append_raws os_ok no_ring w (replicate n (serializeEntries [one_put])) = (v, None)"
        "wal_holds v (replicate n [one_put])"
      using append_batches [OF w(2) fits [of n], where k = no_ring] by (auto simp: map_replicate)
    then show ?thesis using append_raws_calls by (fastforce simp: map_replicate_const)
  qed
  obtain w' where w': "log_calls no_ring (replicate 150 ?c) w = (w', replicate 150 None)" using run by blast
  from periodic_loss_window [OF w(1) w'] obtain xs ys wx rx ry where
    s: "replicate 150 ?c = xs @ ys" "replicate 150 None = rx @ ry" "log_calls no_ring xs w = (wx, rx)"
      "log_calls no_ring ys wx = (w', ry)" "wa_synced w' = (if xs = [] then [] else wa_file wx)"
      "failed (replicate 150 None) = 0 \<longrightarrow> acked ys ry = acked (replicate 150 ?c) (replicate 150 None) mod 100"
    by (elim exE conjE) (rule that)
  have parts: "xs = replicate (length xs) ?c" "ys = replicate (length ys) ?c" "ry = replicate (length ry) None"
    using s(1,2) by (metis append_eq_conv_conj drop_replicate length_replicate take_replicate min.absorb2)+
  have "length xs = 100"
  proof -
    have len: "length ry = length ys" using log_calls_length [OF s(4)] .
    have ack: "acked (replicate n ?c) (replicate n None) = n" "failed (replicate n None) = 0" for n
      by (induction n) simp_all
    have "acked ys ry = length ys" using ack(1) [of "length ys"] parts(2,3) len by metis
    moreover have "acked ys ry = 150 mod 100" using s(6) unfolding ack by (rule mp) (rule refl)
    moreover have "150 = length xs + length ys"
      using arg_cong [OF s(1), of length] unfolding length_replicate length_append .
    ultimately show ?thesis by simp
  qed
  then have "wa_synced w' = wa_file wx" "wal_holds wx (replicate 100 [one_put])"
    using s(3,5) parts(1) run [of 100] by auto
  then obtain n where "wa_synced w' = walVersion # log_bytes (replicate 100 [one_put]) @ replicate n 0"
    by (auto simp: wal_holds_def wal_at_def)
  with open_log [of "[([119], wa_synced w')]" "[119]" _ "concat (replicate 100 [one_put])" SyncPeriodic no_ring]
    replay_padded [OF fits, of 100 n] obtain w1 fs1 where
    "wal_New os_ok no_ring [119] SyncPeriodic [([119], wa_synced w')] = (Inr w1, fs1)"
    "wal_Replay w1 = Inr (concat (replicate 100 [one_put]))" by auto
  moreover have "concat (replicate 100 [one_put]) = replicate 100 one_put" by (induction "100 :: nat") simp_all
  ultimately show ?thesis using w(1) w' by metis
qed

text \<open>
  C28: the loop that doubles the mapping of the log, on Go's signed integers of
  any width.  For a positive size and a target of at most a quarter of the range,
  \<open>2 ^ 62\<close> with 64 bits, it ends with a size that covers the target and is less
  than twice the target, unless it is the size the loop has started from; and it
  agrees with the loop on sizes that do not wrap around.  From 0 it never ends
  when there is something to make room for, and neither from a power of two when
  the target is beyond a quarter of the range: a log whose mapping is the first
  one doubled hangs with 32 bits when it is to exceed 1 GiB.
\<close>

theorem log_growth_terminates:
  fixes c target :: "'w::len word"
  shows "(0 < sint c \<longrightarrow> 0 \<le> sint target \<longrightarrow> sint target \<le> 2 ^ (LENGTH('w) - 2) \<longrightarrow>
       (\<exists>n. grow_loop c target = Some n \<and> sint target \<le> sint n \<and> (n = c \<or> sint n < 2 * sint target)
          \<and> grow_size (unat c) (unat target) = Some (unat n)))
     \<and> (c = 0 \<longrightarrow> 0 < sint target \<longrightarrow> grow_loop c target = None)
     \<and> (c = 2 ^ j \<longrightarrow> 2 ^ (LENGTH('w) - 2) < sint target \<longrightarrow> grow_loop c target = None)"
  using grow_loop_fits [of c target] grow_loop_zero [of target] grow_loop_wraps [of target j]
  by (auto simp: word_sless_alt)

theorem log_growth_terminates_witness:
  "(\<exists>n. grow_loop (2 ^ 27 :: 32 word) 1000000000 = Some n \<and> 1000000000 \<le> sint n \<and> sint n < 2000000000)
   \<and> grow_loop (0 :: 32 word) 1 = None \<and> grow_loop (2 ^ 27 :: 32 word) (2 ^ 30 + 1) = None"
  using log_growth_terminates [of "2 ^ 27 :: 32 word" 1000000000] log_growth_terminates [of "0 :: 32 word" 1]
    log_growth_terminates [of "2 ^ 27 :: 32 word" "2 ^ 30 + 1" 27]
  by auto

text \<open>
  C29: a write whose log append fails to synchronise returns the error, and yet
  the next read of its key answers with the value that failed.
\<close>

theorem failed_put_is_visible:
  assumes "engine_ok L" "l_wal L = Some w" "wa_mode w = SyncAlways" "kvs \<noteq> []" "k \<in> fst ` set kvs"
  shows "\<exists>L'. PutBatch (\<lambda>c. c \<noteq> OsSync (wa_path w)) kn now kvs L = (Inl ErrOS, L')
     \<and> fst (lsm_Get k L') = Inr (map_of (rev kvs) k)"
proof -
  obtain data where "wal_at w data" using assms(1,2) by (auto simp: engine_ok_def wal_ready_def)
  from sync_fails [OF this assms(3) refl] obtain w' where
    "wal_AppendBatch (\<lambda>c. c \<noteq> OsSync (wa_path w)) kn w (put_entries now kvs) = (w', Some ErrOS)" by blast
  from PutBatch_error [OF assms(4,2) this] obtain L' where
    L': "PutBatch (\<lambda>c. c \<noteq> OsSync (wa_path w)) kn now kvs L = (Inl ErrOS, L')"
      "l_memtable L' = replay_into (put_entries now kvs) (l_memtable L)" by blast
  obtain x where x: "last_write (put_entries now kvs) k = Some x" "map_of (rev kvs) k = Some (e_val x)"
    using last_write_batch [of kvs k now] assms(5) by (force simp: map_of_eq_None_iff split: option.splits)
  from PutBatch_error_Get [OF L'(2) x(1)] L'(1) x(2) show ?thesis by auto
qed

theorem failed_put_is_visible_witness:
  "\<exists>p L'. PutBatch (\<lambda>c. c \<noteq> OsSync p) no_ring 1 [([97], [1])] new_engine = (Inl ErrOS, L')
     \<and> fst (lsm_Get [97] L') = Inr (Some [1])"
proof -
  obtain w where "l_wal new_engine = Some w" "wa_mode w = SyncAlways"
    using lsm_Open_new [of default_opts 0 no_ring] by (auto simp: default_opts_def new_engine_def)
  from failed_put_is_visible [OF opened_facts(1) [OF new_engine_opened] this, of "[([97], [1])]" "[97]" no_ring 1]
  show ?thesis by auto
qed

text \<open>
  C30: a flush of a consistent engine that fails, whatever system calls fail, has
  stopped at one of four places.  Before its table was written: then log, levels,
  manifest and the answers of the memtable are as before, and so is every file but
  the new table's.  In the reset of the log: then the memtable is empty, the
  levels are as before and all of the memtable's entries are in the new table's
  file, unless that file has been removed again.  In the opening of the new table:
  then the memtable is empty, the log is reset, the levels are as before and the
  file holds all of the entries.  Or with that table listed behind level 0 and
  the log reset: then what has failed is the manifest or, with the manifest
  written, the compaction of level 0 that the flush runs.
\<close>

theorem failed_flush_outcome:
  assumes "engine_ok L" "at_most (4 * 2 ^ 20 + 2 ^ 17) L" "flushMemtable os k L = (Inl e, L')"
  shows "stopped_unwritten L L' \<or> stopped_reset os k L e L' \<or> stopped_unopened os k L e L' \<or> stopped_listed os k L e L'"
  by (rule failed_flush [OF assms])

theorem failed_flush_outcome_witness:
  "\<exists>L L'. PutBatch os_ok no_ring 1 [([97], [1])] new_engine = (Inr (), L)
     \<and> flushMemtable (no_open (flush_name 0)) no_ring L = (Inl ErrOS, L') \<and> l_memtable L' = mt_New
     \<and> (stopped_reset (no_open (flush_name 0)) no_ring L ErrOS L' \<or> stopped_unopened (no_open (flush_name 0)) no_ring L ErrOS L'
        \<or> stopped_listed (no_open (flush_name 0)) no_ring L ErrOS L')"
proof -
  obtain L where L: "(engine_step no_ring)\<^sup>*\<^sup>* (new_engine, {}) (L, {one_put})"
      "PutBatch os_ok no_ring 1 [([97], [1])] new_engine = (Inr (), L)"
      "mt_Get (l_memtable L) [97] = Some one_put" "l_nextID L = 0" "at_most (4 * 2 ^ 20) L"
    using new_engine_put by blast
  note ok = run_inv(1) [OF new_engine_opened L(1)]
  have size: "at_most (4 * 2 ^ 20 + 2 ^ 17) L" using L(5) by (simp add: at_most_def)
  have "mt_Count (l_memtable L) \<noteq> 0" using L(3) by (auto simp: mt_Count_def mt_Get_def)
  then obtain L' where L': "flushMemtable (no_open (flush_name 0)) no_ring L = (Inl ErrOS, L')" "l_memtable L' = mt_New"
    using unopened_flush [OF ok size, of no_ring] L(4) by auto
  then have "\<not> stopped_unwritten L L'"
    using L(3) by (auto simp: stopped_unwritten_def mt_New_def mt_Get_def dest: spec [of _ "[97]"])
  with failed_flush_outcome [OF ok size L'(1)] L' L(2) show ?thesis by blast
qed

text \<open>
  C31: a compaction of level 0 that fails, whatever system calls fail, has
  changed neither the memtable nor the log.  Either the merge has failed, and then
  levels, manifest and the files of all listed tables are as before.  Or the
  inputs are listed no more, and level 1 lists in their place, in order and with
  their contents, the first of the tables that the merge has made of them: all up
  to one that could not be opened, or all of them, and then the manifest could not
  be written.
\<close>

theorem failed_compaction_outcome:
  assumes "engine_ok L" "compactL0ToL1 os L = (Inl e, L')"
  shows "l_memtable L' = l_memtable L \<and> l_wal L' = l_wal L \<and> (stopped_merging L L' \<or> stopped_listing os L e L')"
  by (rule failed_compaction [OF assms])

theorem failed_compaction_outcome_witness:
  "\<exists>L L'. engine_ok L \<and> contents_of L = [[[one_put]], []] \<and> compactL0ToL1 (no_open (compact_name 1 (l_nextID L))) L = (Inl ErrOS, L')
     \<and> l_memtable L' = l_memtable L \<and> stopped_listing (no_open (compact_name 1 (l_nextID L))) L ErrOS L'"
proof -
  have "good_table [one_put]" using good_ver [of "[97]" "[1]" 1] by (simp add: ver_def one_put_def)
  then obtain L where L: "engine_ok L" "contents_of L = [[[one_put]], []]"
    using engine_at [of "[[], []]" "4 * 2 ^ 20" "[(0, [one_put])]"] by auto
  then obtain s where s: "l_levels L = [[s], []]" "cont s = [one_put]" by (auto simp: contents_of_def map_eq_Cons_conv)
  have ins: "l0_inputs L = [s]" "l0_rest L = []"
    using L(1) by (simp_all add: l0_inputs_def l0_rest_def s(1) l0_count_def engine_ok_def store_ok_def)
  then obtain L' where L': "compactL0ToL1 (no_open (compact_name 1 (l_nextID L))) L = (Inl ErrOS, L')"
      "l_levels L' = (l_levels L)[0 := l0_rest L, 1 := l1_rest L]"
    using unopened_compaction [OF L(1), of s one_put] s by (auto simp: one_put_def)
  then have "\<not> stopped_merging L L'" by (simp add: stopped_merging_def s(1) ins(2))
  with failed_compaction_outcome [OF L(1) L'(1)] L L'(1) show ?thesis by blast
qed

text \<open>
  C32: a compaction of level 0 that cannot open the first table it has merged
  fails after the files of its inputs have been removed: they are listed nowhere
  any more, a key that only they held is gone, and a round of the background
  loop drops the error.
\<close>

theorem compaction_open_failure_loses:
  assumes "opened_with kn now opts L0" "(engine_step kn)\<^sup>*\<^sup>* (L0, {}) (L, W)" "l_levels L ! 0 \<noteq> []"
    and "s \<in> set (l0_inputs L @ l1_inputs L)" "e \<in> set (cont s)" "e_key e \<noteq> []"
  shows "\<exists>L'. compactL0ToL1 (no_open (compact_name 1 (l_nextID L))) L = (Inl ErrOS, L')
     \<and> attempt (compactL0ToL1 (no_open (compact_name 1 (l_nextID L)))) L = (Inr (), L')
     \<and> l_levels L' = (l_levels L)[0 := l0_rest L, 1 := l1_rest L]
     \<and> (\<forall>t\<in>set (l0_inputs L @ l1_inputs L). map_of (files_of L') (s_path t) = None)
     \<and> (\<forall>k. mt_Get (l_memtable L) k = None \<longrightarrow> k \<notin> e_key ` set (concat (map cont (concat (l_levels L'))))
          \<longrightarrow> look L' (contents_of L') k = None)"
proof -
  note ok = run_inv(1) [OF assms(1,2)]
  obtain L' where L': "compactL0ToL1 (no_open (compact_name 1 (l_nextID L))) L = (Inl ErrOS, L')"
      "l_levels L' = (l_levels L)[0 := l0_rest L, 1 := l1_rest L]"
      "\<forall>t\<in>set (l0_inputs L @ l1_inputs L). map_of (files_of L') (s_path t) = None"
    using unopened_compaction [OF ok assms(3-6)] by blast
  have mem: "l_memtable L' = l_memtable L" by (rule keepsD [OF kept_mem.compactL0ToL1 L'(1)])
  have "look L' (contents_of L') k = None"
    if "mt_Get (l_memtable L) k = None" "k \<notin> e_key ` set (concat (map cont (concat (l_levels L'))))" for k
  proof -
    have "k \<notin> e_key ` stored_set L'" using that(2) by (auto simp: stored_set_def)
    then have "newest (stored_entries (contents_of L')) k = None" unfolding newest_None stored_set_eq .
    then show ?thesis using that(1) by (simp add: look_def mem)
  qed
  then show ?thesis using L' by (auto simp: attempt_def)
qed

theorem compaction_open_failure_loses_witness:
  "\<exists>L0 L L'. (engine_step no_ring)\<^sup>*\<^sup>* (L0, {}) (L, {one_put}) \<and> one_put \<in> all_set L
     \<and> attempt (compactL0ToL1 (no_open (compact_name 1 1))) L = (Inr (), L') \<and> look L' (contents_of L') [97] = None"
proof -
  obtain L0 L s where L: "opened_with no_ring 0 eager_opts L0" "(engine_step no_ring)\<^sup>*\<^sup>* (L0, {}) (L, {one_put})"
      "l_nextID L = 1" "l_memtable L = mt_New" "l_levels L ! 0 = [s]" "l_levels L ! 1 = []"
      "concat (l_levels L) = [s]" "cont s = [one_put]"
    using eager_put by (elim exE conjE) (rule that)
  note ok = run_inv(1) [OF L(1,2)]
  have "2 \<le> l_maxL0Files L" "2 \<le> l_numLevels L" using ok by (simp_all add: engine_ok_def store_ok_def)
  then have ins: "l0_inputs L = [s]" "l0_rest L = []" "l1_rest L = []" "1 < length (l_levels L)"
    using engine_levels(1) [OF ok] by (simp_all add: l0_inputs_def l0_rest_def l1_rest_def L(5) L(6) [unfolded One_nat_def] l0_count_def)
  have "\<exists>lv. l_levels L = [s] # [] # lv \<and> concat lv = []"
  proof -
    obtain a b lv where "l_levels L = a # b # lv" using ins(4) by (cases "l_levels L"; cases "tl (l_levels L)") auto
    then show ?thesis using L(5-7) by auto
  qed
  then obtain lv where lv: "l_levels L = [s] # [] # lv" "concat lv = []" by blast
  have "one_put \<in> all_set L" using L(7,8) by (auto simp: all_set_def stored_set_def)
  moreover obtain L' where "attempt (compactL0ToL1 (no_open (compact_name 1 1))) L = (Inr (), L')"
      "l_levels L' = (l_levels L)[0 := l0_rest L, 1 := l1_rest L]"
      "\<forall>k. mt_Get (l_memtable L) k = None \<longrightarrow> k \<notin> e_key ` set (concat (map cont (concat (l_levels L'))))
          \<longrightarrow> look L' (contents_of L') k = None"
    using compaction_open_failure_loses [OF L(1,2), of s one_put] ins L(3,5,8) by (auto simp: one_put_def)
  moreover from this(2) have "concat (l_levels L') = []" using lv by (simp add: ins)
  from calculation(4) [unfolded this] have "look L' (contents_of L') [97] = None" by (simp add: L(4) mt_New_def mt_Get_def)
  ultimately show ?thesis using L(2) by blast
qed

text \<open>
  C33: closing an engine with a log succeeds, and a write after it never
  returns: nothing checks that the engine is closed, and the mapping of the
  closed log has the length zero, which doubling does not change.
\<close>

theorem put_after_close_hangs:
  assumes "engine_ok L" "l_wal L = Some w" "kvs \<noteq> []"
  shows "\<exists>L1 L2. lsm_Close os_ok kn L = (Inr (), L1) \<and> PutBatch os_ok kn now kvs L1 = (Inl Hang, L2)"
  by (rule close_then_put [OF assms])

theorem put_after_close_hangs_witness:
  "\<exists>L1 L2. lsm_Close os_ok no_ring new_engine = (Inr (), L1)
     \<and> PutBatch os_ok no_ring 1 [([97], [1])] L1 = (Inl Hang, L2)"
proof -
  obtain w where "l_wal new_engine = Some w" using opened_facts(8) [OF new_engine_opened] by (auto simp: default_opts_def)
  from put_after_close_hangs [OF opened_facts(1) [OF new_engine_opened] this, of "[([97], [1])]"] show ?thesis by simp
qed

text \<open>
  C34: a read after Close does not report that the engine is closed: a key that
  is not in the memtable reads as missing whatever the tables hold, or the
  process panics, which it does not when every table has fewer than 128 entries.
\<close>

theorem get_after_close_misses:
  assumes "opened_with kn now opts L0" "(engine_step kn)\<^sup>*\<^sup>* (L0, {}) (L, W)"
    and "lsm_Close os kn L = (r, L1)" "mt_Get (l_memtable L) k = None"
  shows "fst (lsm_Get k L1) \<in> {Inr None, Inl (Panic SliceBounds)}
     \<and> ((\<forall>es\<in>set (concat (contents_of L)). length es < 128) \<longrightarrow> fst (lsm_Get k L1) = Inr None)"
  using get_after_close [OF run_inv(1) [OF assms(1,2)] assms(3,4)] by simp

theorem get_after_close_misses_witness:
  "\<exists>L0 L r L1. (engine_step no_ring)\<^sup>*\<^sup>* (L0, {}) (L, {one_put}) \<and> fst (lsm_Get [97] L) = Inr (Some [1])
     \<and> lsm_Close os_ok no_ring L = (r, L1) \<and> fst (lsm_Get [97] L1) = Inr None"
proof -
  obtain L0 L s where L: "opened_with no_ring 0 eager_opts L0" "(engine_step no_ring)\<^sup>*\<^sup>* (L0, {}) (L, {one_put})"
      "l_memtable L = mt_New" "concat (l_levels L) = [s]" "cont s = [one_put]"
    using eager_put by (elim exE conjE) (rule that)
  note ok = run_inv(1) [OF L(1,2)]
  have c: "concat (contents_of L) = [[one_put]]" using L(4,5) by (simp add: contents_of_def map_concat [symmetric])
  obtain r L1 where r: "lsm_Close os_ok no_ring L = (r, L1)" by fastforce
  obtain M where "lsm_Get [97] L = (Inr (visible (look L (contents_of L) [97])), M)"
    using engine_Get [OF ok, of "[97]"] by (auto simp: c one_put_def)
  moreover have "look L (contents_of L) [97] = Some one_put"
    by (simp add: look_def L(3) stored_entries_def c newest_def) (simp add: one_put_def mt_New_def mt_Get_def)
  ultimately have "fst (lsm_Get [97] L) = Inr (Some [1])" by (simp add: visible_def answer_def one_put_def)
  moreover have "fst (lsm_Get [97] L1) = Inr None"
    using get_after_close_misses [OF L(1,2) r, of "[97]"] by (simp add: c L(3) mt_New_def mt_Get_def)
  ultimately show ?thesis using L(2) r by blast
qed

text \<open>
  C35: a well-formed filter is the set of its positions: adding a key succeeds,
  keeps the shape and joins the key's positions to the set, and a key may be
  contained exactly when all its positions are in the set.
\<close>

theorem bloom_is_position_set:
  assumes "bf_wf f"
  shows "\<exists>f'. bf_Add f key = Inr f' \<and> bf_wf f' \<and> bf_set f' = bf_set f \<union> bf_positions f key
     \<and> (\<forall>x. bf_MayContain f' x = Inr (bf_positions f x \<subseteq> bf_set f \<union> bf_positions f key))"
proof -
  obtain f' where f': "bf_Add f key = Inr f'" "same_shape f f'" "bf_set f' = bf_set f \<union> bf_positions f key"
    using bf_Add_spec [OF assms] by blast
  have "bf_wf f'" using same_shape_wf [OF f'(2)] assms by simp
  then show ?thesis using f' bf_MayContain_spec [of f'] same_shape_positions [OF f'(2)] by auto
qed

theorem bloom_is_position_set_witness:
  "\<exists>f'. bf_Add (bf_New 3 10) [97] = Inr f' \<and> bf_set f' = bf_positions (bf_New 3 10) [97]"
  using bloom_is_position_set [OF bf_wf_New, of 3 "[97]"] unfolding bf_set_New Un_empty_left by blast

text \<open>
  C36: the manifest that is written for a set of levels gives back exactly those
  levels, table by table in their order, when it is loaded; the tables' files
  stay as they are and the table files it does not list are removed.
\<close>

theorem manifest_round_trip:
  assumes "list_all2 (level_at (d_files d)) levels esss"
  shows "\<exists>d1 d2. writeManifest os_ok levels d = (Inr (), d1)
     \<and> loadExistingSSTables os_ok (length levels) d1 = Inr (levels, d2)
     \<and> (\<forall>p. map_of (d_files d2) p
          = (if has_suffix p sst_suffix \<and> p \<notin> s_path ` set (concat levels) then None else map_of (d_files d) p))"
proof -
  define d1 where "d1 = d\<lparr>d_manifest := Some (snapshot levels), d_tmp := None\<rparr>"
  have "writeManifest os_ok levels d = (Inr (), d1)" by (simp add: writeManifest_ok d1_def)
  moreover have "list_all2 (level_at (d_files d1)) levels esss" "d_manifest d1 = Some (snapshot levels)"
    using assms by (simp_all add: d1_def)
  from load_snapshot [OF this refl] have "loadExistingSSTables os_ok (length levels) d1
      = Inr (levels, d1\<lparr>d_files := recoverOrphans os_ok (set (concat (snapshot levels))) (d_files d1)\<rparr>)" .
  moreover have "set (concat (snapshot levels)) = s_path ` set (concat levels)" by (auto simp: snapshot_def)
  ultimately show ?thesis by (auto simp: map_of_recoverOrphans d1_def)
qed

theorem manifest_round_trip_witness:
  "\<exists>d levels d1 d2. map (map cont) levels = [[[ver [97] [1] 5]], []] \<and> writeManifest os_ok levels d = (Inr (), d1)
     \<and> loadExistingSSTables os_ok 2 d1 = Inr (levels, d2)"
proof -
  obtain L where L: "engine_ok L" "contents_of L = [[[ver [97] [1] 5]], []]"
    using engine_at [of "[[], []]" "4 * 2 ^ 20" "[(0, [ver [97] [1] 5])]"] by (auto simp: good_ver)
  then have "map (map cont) (l_levels L) = [[[ver [97] [1] 5]], []]" by (simp add: contents_of_def)
  moreover from arg_cong [OF this, of length] have "length (l_levels L) = 2" by simp
  moreover have "list_all2 (level_at (files_of L)) (l_levels L) (contents_of L)"
    using engine_inv [OF L(1)] by (simp add: lsm_inv_def)
  from manifest_round_trip [OF this] obtain d1 d2 where "writeManifest os_ok (l_levels L) (l_disk L) = (Inr (), d1)"
      "loadExistingSSTables os_ok (length (l_levels L)) d1 = Inr (l_levels L, d2)" by blast
  ultimately show ?thesis by metis
qed



text \<open>
  C38: the comparison does not load BadgerDB as it loads the engine.  A write
  batch is finished by its flush, and the loads go on with the finished one, so
  that of each load only the first thousand pairs are stored, and every other
  key has the value it had before.
\<close>

theorem badger_keeps_first_batches:
  assumes "badger_laws B pending db"
  shows "db (runBadger_work B N rs rr ms d)
       = db d ++ map_of (rev (take 1000 (seq_pairs N))) ++ map_of (rev (take 1000 (rnd_pairs N rs)))
     \<and> (\<forall>i. 1000 \<le> i \<and> i \<notin> set (take 1000 rs) \<longrightarrow> db (runBadger_work B N rs rr ms d) (bench_key i) = db d (bench_key i))"
proof (intro conjI allI impI)
  note st = runBadger_stored [OF assms, of N rs rr ms d]
  show "db (runBadger_work B N rs rr ms d)
       = db d ++ map_of (rev (take 1000 (seq_pairs N))) ++ map_of (rev (take 1000 (rnd_pairs N rs)))" by (rule st)
  fix i
  assume i: "1000 \<le> i \<and> i \<notin> set (take 1000 rs)"
  have "i \<notin> set (take 1000 [0..<N])" using i by (auto simp: in_set_conv_nth)
  then have "bench_key i \<notin> fst ` set (take 1000 (seq_pairs N))"
    by (auto simp: seq_pairs_def take_map dest!: bench_key_inj)
  moreover have "bench_key i \<notin> fst ` set (take 1000 (rnd_pairs N rs))"
    using i by (auto simp: rnd_pairs_def take_map take_zip dest!: bench_key_inj set_zip_rightD)
  ultimately show "db (runBadger_work B N rs rr ms d) (bench_key i) = db d (bench_key i)"
    by (simp add: st map_add_dom_app_simps dom_map_of_conv_image_fst del: take_rev)
qed

text \<open>A database as documented, and what is left of 1001 keys.\<close>

definition sample_badger :: "((gostr \<times> gostr) list option \<times> kv) badger" where
  "sample_badger =
     \<lparr>bg_open = (\<lambda>_. Inr (None, Map.empty)), bg_NewWriteBatch = (\<lambda>(p, m). (Some [], m)),
      bg_Set = (\<lambda>k v (p, m). (map_option (\<lambda>kvs. kvs @ [(k, v)]) p, m)),
      bg_Flush = (\<lambda>(p, m). (None, case p of None \<Rightarrow> m | Some kvs \<Rightarrow> m ++ map_of (rev kvs))),
      bg_Cancel = (\<lambda>(p, m). (None, m)), bg_ViewGet = (\<lambda>k d. d), bg_Close = (\<lambda>d. d)\<rparr>"

theorem badger_keeps_first_batches_witness:
  "badger_laws sample_badger fst snd
   \<and> snd (runBadger_work sample_badger 1001 [] [] [] (None, Map.empty)) (bench_key 1000) = None"
proof -
  have laws: "badger_laws sample_badger fst snd" by (simp add: badger_laws_def sample_badger_def split: prod.splits option.splits)
  from conjunct2 [OF badger_keeps_first_batches [OF this, of 1001 "[]" "[]" "[]" "(None, Map.empty)"], rule_format, of 1000]
  show ?thesis using laws by simp
qed

text \<open>
  C39: the report of the measured figures prints every row with its columns at
  the same runes, whatever the label, when the figures are ASCII of at most
  twelve bytes; the head of the table has them there too.
\<close>

theorem report_columns:
  assumes "\<forall>d\<in>set data. fits d"
  shows "printRows data = concat (columns table_head) @ bm_notes table_head @ [10]
       @ println ([32, 32] @ strings_Repeat (signs ''_'') 110)
       @ concat (map (\<lambda>d. concat (columns (cut_row d)) @ bm_notes d @ [10]) data)
     \<and> (\<forall>d\<in>set (table_head # map cut_row data). map rune_count (columns d) = [48, 13, 13, 13, 14])"
proof -
  have "fits table_head" using data_fits by simp
  then have "map rune_count (columns table_head) = [48, 13, 13, 13, 14]"
    by (rule columns_aligned [rotated]) code_simp
  then show ?thesis using printRows_lines [OF assms] by (simp add: table_line_columns)
qed

theorem report_columns_witness:
  "list_all (\<lambda>d. map rune_count (columns d) = [48, 13, 13, 13, 14]) (table_head # map cut_row macOSFairData)"
proof -
  have "\<forall>d\<in>set macOSFairData. fits d" using data_fits by (simp add: list_all_iff)
  from report_columns [OF this] show ?thesis unfolding list_all_iff by blast
qed

text \<open>
  C40: every reachable state is well-formed.  There are as many levels as at the
  start, and the sizes kept in the statistics are those of the tables; the
  manifest lists exactly the tables of the levels, in their order, under distinct
  names that no later flush or compaction gives again; every listed table's file
  opens, checksum included, as the table in memory, reads back in full and is
  strictly sorted; and what the log replays to answers as the memtable does.
\<close>

theorem reachable_well_formed:
  assumes "opened_with kn now opts L0" "(engine_step kn)\<^sup>*\<^sup>* (L0, {}) (L, W)"
  shows "length (l_levels L) = l_numLevels L0 \<and> ss_LevelSizes (l_stats L) = level_sizes (l_levels L)
     \<and> readManifest os_ok (l_disk L) = Some (map (map s_path) (l_levels L)) \<and> distinct (map s_path (concat (l_levels L)))
     \<and> (\<forall>s\<in>set (concat (l_levels L)). (\<forall>m \<ge> l_nextID L. s_path s \<noteq> flush_name m
            \<and> (\<forall>l. 0 < l \<and> l < 2 ^ 63 \<longrightarrow> s_path s \<noteq> compact_name l m)))
     \<and> (\<forall>s\<in>set (concat (l_levels L)). st_Open os_ok (files_of L) (s_path s) = Inr s
            \<and> (\<exists>es. st_AllEntries s = Inr es \<and> sorted_strict (map e_key es)))
     \<and> (\<not> op_NoWAL opts \<longrightarrow> (\<exists>w es. l_wal L = Some w \<and> wal_Replay w = Inr es
            \<and> (\<forall>k. mt_Get (l_memtable L) k = mt_Get (replay_into es mt_New) k)))"
proof -
  note ok = run_inv(1) [OF assms]
  have inv: "lsm_inv L (contents_of L)" and saved: "saved L" using ok engine_inv [OF ok] by (simp_all add: engine_ok_def)
  have tables: "st_Open os_ok (files_of L) (s_path s) = Inr s \<and> (\<exists>es. st_AllEntries s = Inr es \<and> sorted_strict (map e_key es))"
    if "s \<in> set (concat (l_levels L))" for s
    using table_at_Open [OF engine_tables(1) [OF ok that]] st_AllEntries_holds [OF engine_tables(2) [OF ok that]]
      engine_tables(1) [OF ok that] by (auto simp: table_at_def table_ok_def)
  have log: "\<exists>w es. l_wal L = Some w \<and> wal_Replay w = Inr es \<and> (\<forall>k. mt_Get (l_memtable L) k = mt_Get (replay_into es mt_New) k)"
    if on: "\<not> op_NoWAL opts"
  proof -
    obtain w bs where w: "l_wal L = Some w" "wal_holds w bs" "\<forall>x. mt_Get (l_memtable L) x = mt_Get (replay_into (concat bs) mt_New) x"
      using run_inv(4) [OF assms on] by (auto simp: logged_def)
    then have "wal_Replay w = Inr (concat bs)" using wal_Replay_at replay_log [of bs "[]"] by (auto simp: wal_holds_def)
    with w show ?thesis by blast
  qed
  have names: "s_path s \<noteq> flush_name m \<and> (\<forall>l. 0 < l \<and> l < 2 ^ 63 \<longrightarrow> s_path s \<noteq> compact_name l m)"
    if "s \<in> set (concat (l_levels L))" "l_nextID L \<le> m" for s m
  proof -
    have "s_path s \<in> set (paths_of L)" using that(1) by (auto simp: paths_of_def)
    then show ?thesis using inv that(2) by (force simp: lsm_inv_iff fresh_from_def)
  qed
  show ?thesis
  proof (intro conjI ballI allI impI)
    show "length (l_levels L) = l_numLevels L0" using inv run_inv(2) [OF assms] by (simp add: lsm_inv_iff)
    show "ss_LevelSizes (l_stats L) = level_sizes (l_levels L)" "distinct (map s_path (concat (l_levels L)))"
      using inv by (simp_all add: lsm_inv_iff paths_of_def)
    show "readManifest os_ok (l_disk L) = Some (map (map s_path) (l_levels L))"
      using saved by (simp add: readManifest_def saved_def snapshot_def)
  qed (use tables names log in auto)
qed

theorem reachable_well_formed_witness:
  "\<exists>L0 L s. (engine_step no_ring)\<^sup>*\<^sup>* (L0, {}) (L, {one_put}) \<and> l_levels L ! 0 = [s]
     \<and> length (l_levels L) = 7 \<and> st_Open os_ok (files_of L) (s_path s) = Inr s
     \<and> (\<exists>w es. l_wal L = Some w \<and> wal_Replay w = Inr es \<and> mt_Get (replay_into es mt_New) [97] = None)"
proof -
  obtain L0 L s where L: "opened_with no_ring 0 eager_opts L0" "(engine_step no_ring)\<^sup>*\<^sup>* (L0, {}) (L, {one_put})"
      "l_memtable L = mt_New" "l_levels L ! 0 = [s]" "concat (l_levels L) = [s]" "l_numLevels L0 = 7"
    using eager_put by blast
  from reachable_well_formed [OF L(1,2)] L(3-6) have
    "length (l_levels L) = 7" "st_Open os_ok (files_of L) (s_path s) = Inr s"
    "\<exists>w es. l_wal L = Some w \<and> wal_Replay w = Inr es \<and> (\<forall>k. mt_Get mt_New k = mt_Get (replay_into es mt_New) k)"
    by (auto simp: eager_opts_def default_opts_def)
  moreover have "mt_Get mt_New [97] = None" by (simp add: mt_New_def mt_Get_def)
  ultimately show ?thesis using L(2,4) by metis
qed

section \<open>Further results\<close>

text \<open>
  On 64-bit and on 32-bit platforms the check of the layouts of the
  structures shared with the kernel does not panic, and the structures are as
  large as their fields, without padding.
\<close>

theorem ring_layout:
  "list_all (\<lambda>w. ring_init w = Inr ()
     \<and> map (\<lambda>fs. sizeof w (TStruct fs)) [io_uring_sqe, io_uring_cqe, io_sqring_offsets, io_cqring_offsets, io_uring_params]
        = [64, 16, 40, 40, 120]
     \<and> map (sum_sizes w) [io_uring_sqe, io_uring_cqe, io_sqring_offsets, io_cqring_offsets, io_uring_params]
        = [64, 16, 40, 40, 120]) [4, 8]"
  by code_simp

text \<open>
  The profiling program prints \<open>FilesOpened\<close> as the number of flushes.  Whatever
  calls fail and whatever the directory held, when it comes to its output that
  number is zero, since it reads nothing.
\<close>

theorem profile_prints_no_flushes:
  assumes "profile_main os k t now bg elapsed goos d = Inr out"
  shows "\<exists>a b. out = a @ ascii ''stats: flushes=0 ss='' @ b"
  by (rule profile_no_flushes [OF assms])

text \<open>
  The comparison gives BoltDB and the engine the same batches, in the same
  order: both loads of either are one transaction or one call of PutBatch for
  each thousand pairs of the same lists.
\<close>

theorem bolt_same_batches:
  "runBoltSeq B N d = foldl (\<lambda>d b. bo_Update B (bolt_puts B b) d) d (batches 1000 (seq_pairs N))
   \<and> runLSMSeq os k now bg N L = run_all (\<lambda>i b. attempt (put_call os k now bg i b)) 0 (batches 1000 (seq_pairs N)) L
   \<and> runBoltRnd B rs d = foldl (\<lambda>d b. bo_Update B (bolt_puts B b) d) d (batches 1000 (rnd_pairs (length rs) rs))
   \<and> runLSMRnd os k now bg (length rs) rs L
     = run_all (\<lambda>i b. attempt (put_call os k now bg i b)) 0 (batches 1000 (rnd_pairs (length rs) rs)) L"
  by (simp add: runBoltSeq_def runBoltRnd_def bolt_loop_batches seq_pairs_def [symmetric] rnd_pairs_map
      runLSMSeq_def runLSMRnd_def load_loop_batches Let_def)

text \<open>
  With more than seven levels a compaction into level six drops a tombstone
  above an older version in a deeper level, and the deleted key reads as that
  version again.
\<close>

theorem level6_drops_tombstone:
  assumes "engine_ok L" "contents_of L = [[], [], [], [], [], [[t]], [], [[e]]]" "l_memtable L = mt_New"
    and "e_tomb t" "e_key t = e_key e" "e_key e \<noteq> []" "l_baseLevelSize L = 2 ^ 20"
  shows "\<exists>L'. compactLevel os_ok (l_numLevels L) 5 L = (Inr (), L') \<and> fst (lsm_Get (e_key e) L) = Inr None
     \<and> fst (lsm_Get (e_key e) L') = Inr (answer e)"
proof -
  obtain L' where L': "compactLevel os_ok (l_numLevels L) 5 L = (Inr (), L')" "engine_ok L'"
      "contents_of L' = [[], [], [], [], [], [], [], [[e]]]" "l_memtable L' = mt_New"
    using level6_resurrects [OF assms(1,2,4) _ assms(7)] assms(3,5,6) by auto
  have "\<exists>M. lsm_Get (e_key e) L = (Inr (visible (look L (contents_of L) (e_key e))), M)"
    by (rule engine_Get [OF assms(1)]) (simp add: assms(2,5))
  moreover have "\<exists>M. lsm_Get (e_key e) L' = (Inr (visible (look L' (contents_of L') (e_key e))), M)"
    by (rule engine_Get [OF L'(2)]) (simp add: L'(3))
  moreover have "look L (contents_of L) (e_key e) = Some t" "look L' (contents_of L') (e_key e) = Some e"
    using assms(5) by (simp_all add: look_def assms(2,3) L'(3,4) newest_def stored_entries_def)
  ultimately show ?thesis using L'(1) assms(4) by (auto simp: visible_def answer_def)
qed

theorem level6_drops_tombstone_witness:
  "\<exists>L L'. compactLevel os_ok 8 5 L = (Inr (), L')
     \<and> fst (lsm_Get [97] L) = Inr None \<and> fst (lsm_Get [97] L') = Inr (Some [1])"
proof -
  have "good_table [\<lparr>e_key = [97], e_val = [], e_ts = 9, e_tomb = True\<rparr>]" by (rule good_single) (simp add: entry_small_def)
  then obtain L where L: "engine_ok L" "contents_of L
      = [[], [], [], [], [], [[\<lparr>e_key = [97], e_val = [], e_ts = 9, e_tomb = True\<rparr>]], [], [[ver [97] [1] 5]]]"
      "l_memtable L = mt_New" "l_baseLevelSize L = 2 ^ 20" "l_numLevels L = 8"
    using engine_at [of "[[], [], [], [], [], [], [], []]" "4 * 2 ^ 20"
        "[(5, [\<lparr>e_key = [97], e_val = [], e_ts = 9, e_tomb = True\<rparr>]), (7, [ver [97] [1] 5])]"]
    by (auto simp: good_ver)
  from level6_drops_tombstone [OF L(1-3) _ _ _ L(4)] L(5) show ?thesis by (auto simp: ver_def answer_def)
qed

text \<open>
  Compacting level 0 loses the empty key: the merge starts with the empty
  string as the key it has written last, takes the entry for a repetition and
  writes nothing.
\<close>

theorem compaction_drops_empty_key:
  assumes "engine_ok L" "contents_of L = [[[e]], []]" "l_memtable L = mt_New" "e_key e = []"
  shows "\<exists>L'. compactL0ToL1 os_ok L = (Inr (), L') \<and> fst (lsm_Get [] L) = Inr (answer e) \<and> fst (lsm_Get [] L') = Inr None"
proof -
  obtain L' where L': "compactL0ToL1 os_ok L = (Inr (), L')" "engine_ok L'" "contents_of L' = [[], []]" "l_memtable L' = mt_New"
    using empty_key_lost [OF assms(1,2,4)] assms(3) by auto
  have "\<exists>M. lsm_Get [] L = (Inr (visible (look L (contents_of L) [])), M)"
    by (rule engine_Get [OF assms(1)]) (simp add: assms(2,4))
  moreover have "\<exists>M. lsm_Get [] L' = (Inr (visible (look L' (contents_of L') [])), M)"
    by (rule engine_Get [OF L'(2)]) (simp add: L'(3))
  moreover have "look L (contents_of L) [] = Some e" "look L' (contents_of L') [] = None"
    using assms(4) by (simp_all add: look_def assms(2,3) L'(3,4) newest_def stored_entries_def)
  ultimately show ?thesis using L'(1) by (auto simp: visible_def)
qed

theorem compaction_drops_empty_key_witness:
  "\<exists>L L'. contents_of L = [[[ver [] [1] 5]], []] \<and> compactL0ToL1 os_ok L = (Inr (), L')
     \<and> fst (lsm_Get [] L) = Inr (Some [1]) \<and> fst (lsm_Get [] L') = Inr None"
proof -
  obtain L where "engine_ok L" "contents_of L = [[[ver [] [1] 5]], []]" "l_memtable L = mt_New"
    using engine_at [of "[[], []]" "4 * 2 ^ 20" "[(0, [ver [] [1] 5])]"] by (auto simp: good_ver)
  then show ?thesis using compaction_drops_empty_key [of L "ver [] [1] 5"] by (auto simp: ver_def answer_def)
qed

text \<open>
  Adding any keys to a new filter succeeds, and every one of them is
  reported as possibly present; there are no false negatives.
\<close>

theorem bloom_no_false_negatives:
  "\<exists>f. foldl (\<lambda>r k. bindr r (\<lambda>f. bf_Add f k)) (Inr (bf_New n 10)) ks = Inr f
     \<and> bf_wf f \<and> (\<forall>k\<in>set ks. bf_MayContain f k = Inr True)"
  unfolding bloom_fold using bloom.add_all_members [OF bf_wf_New, of n ks] by blast

theorem bloom_no_false_negatives_witness:
  "\<exists>f. foldl (\<lambda>r k. bindr r (\<lambda>f. bf_Add f k)) (Inr (bf_New 2 10)) [[97], [98]] = Inr f
     \<and> bf_MayContain f [97] = Inr True \<and> bf_MayContain f [98] = Inr True"
  using bloom_no_false_negatives [of 2 "[[97], [98]]"] by (elim exE conjE) (intro exI conjI, assumption, simp_all only: list.set insertI1 insertI2)

text \<open>
  In a sorted sparse index the binary search finds the offset of the last
  indexed key that is not above the key looked for, and the start of the table
  if there is none.
\<close>

theorem sparse_index_floor:
  assumes "sorted_strict (map ie_key (si_entries s))"
  shows "si_Lookup s key = (case filter (\<lambda>e. ie_key e \<le> key) (si_entries s) of
       [] \<Rightarrow> 0 | x # xs \<Rightarrow> ie_off (last (x # xs)))"
  using si_Lookup_floor [OF assms] by (simp add: floor_offset_def)

theorem sparse_index_floor_witness:
  "si_Lookup (si_Add (si_Add (si_New 128) [97] 0) [99] 70) [98] = 0"
  using sparse_index_floor [of "si_Add (si_Add (si_New 128) [97] 0) [99] 70" "[98]"] by (simp add: si_New_def)

text \<open>
  A table of the first format, whose footer is four bytes shorter, is
  refused by both ways of opening when the offset of its filter is below 4 GiB:
  the check that should recognise it reads the upper half of that offset.
\<close>

theorem v1_table_refused:
  assumes "4 \<le> length body" "bloomOffset < 2 ^ 32" "map_of fs p = Some (v1_file body indexOffset bloomOffset)"
  shows "st_Open os_ok fs p = Inl ErrMagic \<and> st_OpenNoVerify os_ok fs p = Inl ErrMagic"
  using v1_rejected [OF assms] by simp

theorem v1_table_refused_witness:
  "st_Open os_ok [([116], v1_file [0x80, 1, 0, 0] 0 3)] [116] = Inl ErrMagic"
  using v1_table_refused [of "[0x80, 1, 0, 0]" 3 "[([116], v1_file [0x80, 1, 0, 0] 0 3)]" "[116]" 0] by simp

text \<open>
  In the ring mode an append for which the ring has room keeps the ring
  well formed and reports success while neither the file nor its synchronised
  content has changed: the entry is queued for a later append or the close.
\<close>

theorem ring_append_only_queues:
  assumes "wa_mode w = SyncIouring" "wa_ring w = Some r" "ring_wf r" "ring_room r" "buf \<noteq> []"
  shows "\<exists>r'. wal_AppendRaw os k w buf = (w\<lparr>wa_ring := Some r'\<rparr>, None) \<and> ring_wf r'"
  using assms(1,2) submitWrite_queues [OF assms(3-5), of k "wa_file w"] by (auto simp: wal_AppendRaw_def)

theorem ring_append_only_queues_witness:
  "\<exists>w r'. wal_AppendRaw os_ok sample_kernel w [7] = (w\<lparr>wa_ring := Some r'\<rparr>, None) \<and> ring_wf r'"
proof -
  have w: "wa_mode ((wal_init [119] SyncIouring [walVersion] 1)\<lparr>wa_ring := Some sample_ring\<rparr>) = SyncIouring"
      "wa_ring ((wal_init [119] SyncIouring [walVersion] 1)\<lparr>wa_ring := Some sample_ring\<rparr>) = Some sample_ring"
    by (simp_all add: wal_init_def)
  show ?thesis using ring_append_only_queues [OF w sample_ring_facts(2,3), of "[7]"] by blast
qed

text \<open>
  When the check for overlapping levels reports an overlap, some level
  below the first lists two different tables of which one has a key within the
  key range of the other.
\<close>

theorem overlap_check_sound:
  assumes "engine_ok L" "HasOverlappingLevels L = Inr True"
  shows "\<exists>i s t. 0 < i \<and> i < l_numLevels L \<and> {#s, t#} \<subseteq># mset (l_levels L ! i) \<and> ranges_meet (cont s) (cont t)"
proof -
  have n: "length (l_levels L) = l_numLevels L" using engine_levels(1) [OF assms(1)] .
  have o: "levels_overlap (drop 1 (l_levels L)) = Inr True"
    using assms(2) n by (simp add: HasOverlappingLevels_def)
  have "\<forall>ss\<in>set (drop 1 (l_levels L)). \<forall>s\<in>set ss. st_holds s (cont s)"
    using engine_tables(2) [OF assms(1)] by (auto dest: in_set_dropD)
  from levels_overlap_sound [OF o this] obtain ss s t where
    ss: "ss \<in> set (drop 1 (l_levels L))" "{#s, t#} \<subseteq># mset ss" "ranges_meet (cont s) (cont t)" by blast
  then obtain j where "j < length (l_levels L) - 1" "ss = l_levels L ! Suc j" by (auto simp: in_set_conv_nth)
  then show ?thesis using ss(2,3) n by (intro exI [of _ "Suc j"]) auto
qed

theorem overlap_check_sound_witness:
  "\<exists>L i s t. contents_of L = [[], [[ver [97] [1] 5], [ver [97] [2] 6]]] \<and> HasOverlappingLevels L = Inr True
     \<and> {#s, t#} \<subseteq># mset (l_levels L ! i) \<and> ranges_meet (cont s) (cont t)"
proof -
  obtain L where L: "engine_ok L" "contents_of L = [[], [[ver [97] [1] 5], [ver [97] [2] 6]]]" "l_numLevels L = 2"
    using engine_at [of "[[], []]" "4 * 2 ^ 20" "[(1, [ver [97] [1] 5]), (1, [ver [97] [2] 6])]"] by (auto simp: good_ver)
  obtain s t where st: "l_levels L = [[], [s, t]]" "cont s = [ver [97] [1] 5]" "cont t = [ver [97] [2] 6]"
    using L(2) by (auto simp: contents_of_def map_eq_Cons_conv)
  have "HasOverlappingLevels L = Inr True"
    using few_keys [OF engine_tables(1) [OF L(1), of s]] few_keys [OF engine_tables(1) [OF L(1), of t]] st
    by (simp add: HasOverlappingLevels_def L(3) ver_def)
  from overlap_check_sound [OF L(1) this] L(2) this show ?thesis by blast
qed

text \<open>
  Collecting completions ends and reports success as soon as the expected
  number is queued and the first of them succeeded, whatever the others say: the
  loop looks at the same entry every time.
\<close>

theorem reap_checks_first_only:
  assumes "0 < cnt" "unat (r_cqTail r - r_cqHead r) = cnt"
    and "unat (r_cqHead r AND r_cqMask r) < length (r_cqes r)"
    and "\<not> ce_res (r_cqes r ! unat (r_cqHead r AND r_cqMask r)) <s 0"
  shows "\<exists>r'. reap k cnt r f = Some ((r', f), None)"
  using reap_done [OF assms] by blast

theorem reap_checks_first_only_witness:
  "\<exists>r'. reap no_ring 2 (sample_ring\<lparr>r_cqTail := 2, r_cqes := [\<lparr>ce_user = 1, ce_res = 0\<rparr>, \<lparr>ce_user = 1, ce_res = - 5\<rparr>]\<rparr>) []
     = Some ((r', []), None)"
  by (rule reap_checks_first_only) (simp_all add: sample_ring_def)

text \<open>
  A lookup in the memtable after replaying entries into it returns the
  last entry written to the key, a tombstone without its value, and otherwise
  what was there before; the memtable stays well formed.
\<close>

theorem memtable_last_write:
  assumes "mt_wf m"
  shows "mt_wf (replay_into es m)
     \<and> mt_Get (replay_into es m) k
        = (case last_write es k of Some e \<Rightarrow> Some (stored e) | None \<Rightarrow> mt_Get m k)"
  using assms by (simp add: replay_into_wf replay_into_get)

theorem memtable_last_write_witness:
  "mt_Get (replay_into sample mt_New) [97] = Some \<lparr>e_key = [97], e_val = [1], e_ts = 5, e_tomb = False\<rparr>"
  using memtable_last_write [OF mt_wf_New, of sample "[97]"]
  by (simp add: sample_def last_write_def stored_def)


text \<open>
  A filter of at most 256 TiB that is serialised, followed by any bytes, is
  read back as it was.
\<close>

theorem bloom_round_trip:
  assumes "bf_wf f" "length (bf_bits f) * 8 \<le> 2 ^ 48"
  shows "bf_Deserialize (bf_Serialize f @ rest) = Inr (Some f)"
  by (rule bf_Deserialize_Serialize [OF assms])

theorem bloom_round_trip_witness:
  "bf_Deserialize (bf_Serialize (bf_NewWithBits [5] 64 3) @ [1, 2]) = Inr (Some (bf_NewWithBits [5] 64 3))"
proof (rule bloom_round_trip)
  show "bf_wf (bf_NewWithBits [5] 64 3)" unfolding bf_wf_def by (intro conjI exI [of _ 6]) (simp_all add: bf_NewWithBits_def)
qed (simp add: bf_NewWithBits_def)

text \<open>
  An engine that crashes before its first write and is opened again loses
  what it then acknowledges: the log file is the 64 MiB of zeros of the first
  mapping, the second opening appends behind the zeros, where no batch boundary
  of the zeros falls, and the replay after the next crash returns nothing, with
  every append synchronised.
\<close>

theorem padded_log_loses_batch:
  assumes "opened_with kn now opts L" "\<not> op_NoWAL opts" "op_FlushThreshold opts \<le> 0"
    and "kvs \<noteq> []" "small_batch kvs" "sint now \<le> sint now1" "sint now1 \<le> sint now2"
  shows "\<exists>L1 L2 L3. lsm_Open os_ok kn now1 opts (disk_image L) = (Inr L1, disk_image L1)
     \<and> PutBatch os_ok kn t kvs L1 = (Inr (), L2)
     \<and> lsm_Open os_ok kn now2 opts (disk_image L2) = (Inr L3, disk_image L3)
     \<and> (\<forall>k. look L3 (contents_of L3) k = None)"
proof -
  note new = opened_facts [OF assms(1)]
  obtain w where w: "l_wal L = Some w" "wal_holds w []" "wa_file w = walVersion # replicate (wal_initialMmapSize - 1) 0"
    using new(8) [OF assms(2)] by blast
  have ro: "recovery_opts opts (l_numLevels L)" by (rule run_recovery_opts [OF assms(1) rtranclp.rtrancl_refl assms(2)])
  have "l_nextID L \<le> sint now1" using new(6) assms(6) by simp
  from padded_log_loss [OF new(1) w ro assms(3-5) this assms(7)] obtain L1 L2 L3 where
    L: "lsm_Open os_ok kn now1 opts (disk_image L) = (Inr L1, disk_image L1)" "PutBatch os_ok kn t kvs L1 = (Inr (), L2)"
      "lsm_Open os_ok kn now2 opts (disk_image L2) = (Inr L3, disk_image L3)" "l_memtable L3 = mt_New" "l_levels L3 = l_levels L"
    by blast
  have "stored_set L = {}" using new(2) by (simp add: all_set_def)
  then show ?thesis using L look_fresh [OF L(4,5)] by auto
qed

theorem padded_log_loses_batch_witness:
  "\<exists>L L1 L2 L3. lsm_Open os_ok no_ring 1 (default_opts\<lparr>op_FlushThreshold := 0\<rparr>) (disk_image L) = (Inr L1, disk_image L1)
     \<and> PutBatch os_ok no_ring 2 [([97], [1])] L1 = (Inr (), L2)
     \<and> lsm_Open os_ok no_ring 3 (default_opts\<lparr>op_FlushThreshold := 0\<rparr>) (disk_image L2) = (Inr L3, disk_image L3)
     \<and> look L3 (contents_of L3) [97] = None"
proof -
  obtain L where "opened_with no_ring 0 (default_opts\<lparr>op_FlushThreshold := 0\<rparr>) L"
    using lsm_Open_new [of "default_opts\<lparr>op_FlushThreshold := 0\<rparr>" 0 no_ring]
    by (auto simp: opened_with_def plain_opts_def default_opts_def)
  from padded_log_loses_batch [OF this _ _ _ small_put, of 1 3 2] show ?thesis
    by (simp add: default_opts_def) blast
qed

text \<open>
  Closing a new log of the ring mode without an error cuts the file to the
  version byte, whatever has been appended: the write position that the other
  modes advance stays at one.
\<close>

theorem ring_close_drops_log:
  assumes "map_of fs p = None" "wal_New os k p SyncIouring fs = (Inr w0, fs1)"
    and "append_raws os k w0 bufs = (w, r)" "wal_Close os k w = (w', None)"
  shows "length (wa_file w') = 1"
proof -
  have "wa_writeAt w0 = 1" "wa_mode w0 = SyncIouring"
    using assms(1,2) by (auto simp: wal_New_def wal_init_def raise_def ret_def Let_def split: if_splits sum.splits)
  then show ?thesis using ring_appends_writeAt [OF assms(3)] ring_close_length [OF assms(4)] by simp
qed

theorem ring_close_drops_log_witness:
  "\<exists>w0 fs1 w w'. wal_New os_ok sample_kernel [119] SyncIouring [] = (Inr w0, fs1)
     \<and> append_raws os_ok sample_kernel w0 [[7]] = (w, None) \<and> wal_Close os_ok sample_kernel w = (w', None)
     \<and> length (wa_file w') = 1"
proof -
  define w0 where "w0 = (wal_init [119] SyncIouring (resize wal_initialMmapSize [walVersion]) 1)\<lparr>wa_ring := Some sample_ring\<rparr>"
  have w0: "\<exists>fs1. wal_New os_ok sample_kernel [119] SyncIouring [] = (Inr w0, fs1)"
    by (simp add: wal_New_def Let_def sample_ring_facts(1) ret_def w0_def)
  define r where "r = queued_ring"
  have app: "append_raws os_ok sample_kernel w0 [[7]] = (w0\<lparr>wa_ring := Some r\<rparr>, None)"
    using sample_ring_facts(3) by (simp add: wal_AppendRaw_def w0_def wal_init_def submitWrite_def ring_room_def sample_push r_def)
  obtain r' f' where fl: "ring_flush sample_kernel queued_ring (wa_file w0) = Some ((r', f'), None)" "r_sqHead r' = r_sqTail r'"
    using sample_flush by blast
  have "wa_mode w0 = SyncIouring" "wa_open w0" by (simp_all add: w0_def wal_init_def)
  then obtain w' where w': "wal_Close os_ok sample_kernel (w0\<lparr>wa_ring := Some r\<rparr>) = (w', None)"
    using fl by (simp add: wal_Close_def r_def ring_shut_def ring_close_def wal_shut_def Let_def ring_flush_def [of _ r'])
  obtain fs1 where n: "wal_New os_ok sample_kernel [119] SyncIouring [] = (Inr w0, fs1)" using w0 by blast
  have "length (wa_file w') = 1" by (rule ring_close_drops_log [OF _ n app w']) simp
  with n app w' show ?thesis by blast
qed

text \<open>
  Closing a writer whose mapping has no room left for the index block
  panics, since only \<open>Append\<close> grows the mapping.
\<close>

theorem full_writer_close_panics:
  assumes "w_inv n step w es" "w_mmapCap w < w_bytePos w + length (index_block (w_index w))"
  shows "w_Close os_ok w fs = (Inl (Panic SliceBounds), fs)"
  using w_file_overflow [OF assms] assms(1) by (simp add: w_Close_def w_inv_def)

theorem full_writer_close_panics_witness:
  "\<exists>e w. w_Append os_ok (w_init [116] 1 128) e = (w, None) \<and> w_Close os_ok w [] = (Inl (Panic SliceBounds), [])"
proof -
  obtain v :: gostr where v: "length v = 8388596" using Ex_list_of_length by blast
  define e where "e = \<lparr>e_key = [97], e_val = v, e_ts = 0, e_tomb = False\<rparr>"
  have len: "length (entry_record e) = initialMmapSize"
    by (simp add: e_def entry_record_def entry_fields_def v initialMmapSize_def put_varint_def zigzag_def put_uvarint.simps)
  have inv: "w_inv 1 128 (w_init [116] 1 128) []" using w_inv_init [of 1 128 "[116]"] by simp
  have room: "w_bytePos (w_init [116] 1 128) + length (entry_record e) \<le> w_mmapCap (w_init [116] 1 128)"
    by (simp add: w_init_def len)
  obtain w where w: "w_store (w_init [116] 1 128) e (entry_record e) = (w, None)" "w_inv 1 128 w [e]"
      "w_mmapCap w = initialMmapSize"
    using w_store_inv [OF inv room] by (auto simp: w_init_def)
  have "w_Append os_ok (w_init [116] 1 128) e = (w, None)" using w(1) room by (simp add: w_Append_def Let_def)
  moreover have "w_bytePos w = initialMmapSize" using w(2) len by (simp add: w_inv_def)
  then have "w_mmapCap w < w_bytePos w + length (index_block (w_index w))"
    using w(3) by (simp add: index_block_def)
  ultimately show ?thesis using full_writer_close_panics [OF w(2)] by blast
qed

text \<open>
  A flush that cannot open the table it has written returns the error with
  the log and the memtable empty and the levels as they were, so what only the
  memtable held is gone without a crash.
\<close>

theorem flush_open_failure_loses:
  assumes "opened_with kn now opts L0" "(engine_step kn)\<^sup>*\<^sup>* (L0, {}) (L, W)" "at_most (4 * 2 ^ 20) L"
    and "mt_Get (l_memtable L) k \<noteq> None" "k \<notin> e_key ` stored_set L"
  shows "\<exists>L'. flushMemtable (no_open (flush_name (l_nextID L))) kn L = (Inl ErrOS, L')
     \<and> look L' (contents_of L') k = None \<and> (\<forall>w. l_wal L = Some w \<longrightarrow> (\<exists>w'. l_wal L' = Some w' \<and> wal_holds w' []))"
proof -
  have "at_most (4 * 2 ^ 20 + 2 ^ 17) L" using assms(3) by (simp add: at_most_def)
  moreover have "mt_Count (l_memtable L) \<noteq> 0" using assms(4) by (auto simp: mt_Count_def mt_Get_def)
  ultimately obtain L' where L': "flushMemtable (no_open (flush_name (l_nextID L))) kn L = (Inl ErrOS, L')"
      "l_memtable L' = mt_New" "l_levels L' = l_levels L"
      "\<forall>w. l_wal L = Some w \<longrightarrow> (\<exists>w'. l_wal L' = Some w' \<and> wal_holds w' [])"
    using unopened_flush [OF run_inv(1) [OF assms(1,2)], of kn] by blast
  then show ?thesis using look_fresh [OF L'(2,3) assms(5)] by blast
qed

theorem flush_open_failure_loses_witness:
  "\<exists>L L'. PutBatch os_ok no_ring 1 [([97], [1])] new_engine = (Inr (), L)
     \<and> flushMemtable (no_open (flush_name 0)) no_ring L = (Inl ErrOS, L') \<and> look L' (contents_of L') [97] = None"
proof -
  obtain L where L: "(engine_step no_ring)\<^sup>*\<^sup>* (new_engine, {}) (L, {one_put})"
      "PutBatch os_ok no_ring 1 [([97], [1])] new_engine = (Inr (), L)"
      "mt_Get (l_memtable L) [97] = Some one_put" "l_nextID L = 0" "l_levels L = l_levels new_engine"
      "at_most (4 * 2 ^ 20) L"
    using new_engine_put by blast
  from flush_open_failure_loses [OF new_engine_opened L(1,6), of "[97]"] L new_engine_stored [OF L(5)]
  show ?thesis by auto
qed

end
